(* ===== verification/Prelude.thy ===== *)
theory Prelude
  imports Main "HOL-Library.Word" "HOL-Library.Code_Target_Nat"
begin

text \<open>
  Shared vocabulary of the development: the machine integer types of the C sources, the status
  codes of \<^verbatim>\<open>include/nanodtls/types.h\<close>, results of fallible functions, and the byte codecs
  (big- and little-endian) that every wire format of the library is written with.

  Conventions used by every theory.
  \<^item> A pair of a pointer to bytes and its length (\<open>const uint8_t *buf\<close>, \<open>size_t buf_len\<close>) that the
    code compares with \<open>NULL\<close> is a \<open>cbuf\<close>: \<open>Buf bytes\<close>, or \<open>NULL_buf n\<close>, the null pointer passed
    with the length \<open>n\<close>. Inside the library, where the pointer is known to be valid, it is the byte
    list itself.
  \<^item> Any other pointer argument that the code compares with \<open>NULL\<close> has type \<open>'a ptr\<close>; \<open>None\<close> is
    \<open>NULL\<close>. Output pointers are the values a function returns, so they are never \<open>NULL\<close>.
  \<^item> A function that returns a status and fills outputs has type \<open>'a result\<close>: \<open>Inl\<close> of the error
    status, or \<open>Inr\<close> of the outputs where the code returns \<open>ND_OK\<close>.
  \<^item> \<open>size_t\<close> has 64 bits; lengths of objects are natural numbers, and the places where the code
    computes with unchecked lengths keep the word.
\<close>

unbundle bit_operations_syntax

type_synonym byte = "8 word"
type_synonym u16 = "16 word"
type_synonym u32 = "32 word"
type_synonym u64 = "64 word"
type_synonym 'a ptr = "'a option"

named_theorems codec_simps \<open>round trips of the byte codecs\<close>
named_theorems len_simps \<open>lengths of what the model's functions produce\<close>

section \<open>Status codes and results\<close>

datatype nd_status =
    ND_OK
  | ND_ERR_TRUNCATED
  | ND_ERR_BAD_LENGTH
  | ND_ERR_NOT_UNIFIED
  | ND_ERR_BAD_ARG
  | ND_ERR_AUTH_FAILED
  | ND_ERR_UNSUPPORTED

type_synonym 'a result = "nd_status + 'a"

text \<open>\<open>then_ok\<close> is the idiom \<^verbatim>\<open>st = f(...); if (st != ND_OK) return st;\<close>.\<close>

definition then_ok :: "'e + 'a \<Rightarrow> ('a \<Rightarrow> 'e + 'b) \<Rightarrow> 'e + 'b" where
  "then_ok r f = (case r of Inl e \<Rightarrow> Inl e | Inr x \<Rightarrow> f x)"

text \<open>\<open>or_fail e\<close> is the idiom \<^verbatim>\<open>if (!f(...)) return e;\<close> for the readers that return 0 or 1.\<close>

definition or_fail :: "'e \<Rightarrow> 'a option \<Rightarrow> 'e + 'a" where
  "or_fail e r = (case r of None \<Rightarrow> Inl e | Some x \<Rightarrow> Inr x)"

lemma then_ok_simps [simp]:
  "then_ok (Inl e) f = Inl e"
  "then_ok (Inr x) f = f x"
  by (simp_all add: then_ok_def)

lemma or_fail_simps [simp]:
  "or_fail e None = Inl e"
  "or_fail e (Some x) = Inr x"
  by (simp_all add: or_fail_def)

lemma then_ok_eq_Inr: "then_ok r f = Inr y \<longleftrightarrow> (\<exists>x. r = Inr x \<and> f x = Inr y)"
  by (cases r) simp_all

lemma or_fail_eq_Inr [simp]: "or_fail e r = Inr x \<longleftrightarrow> r = Some x"
  by (cases r) simp_all

text \<open>A chain of early returns that succeeds has passed each of its guards.\<close>

lemma if_Inl_eq_Inr [simp]: "(if c then Inl e else r) = Inr y \<longleftrightarrow> \<not> c \<and> r = Inr y"
  by simp

lemma then_ok_cong [fundef_cong]:
  assumes "r = r'" and "\<And>x. r' = Inr x \<Longrightarrow> f x = f' x"
  shows "then_ok r f = then_ok r' f'"
  using assms by (cases r') simp_all

lemma then_ok_assoc: "then_ok (then_ok r f) g = then_ok r (\<lambda>x. then_ok (f x) g)"
  by (cases r) simp_all

section \<open>Pointers with a length\<close>

datatype cbuf = NULL_buf nat | Buf "byte list"

fun cbuf_len :: "cbuf \<Rightarrow> nat" where
  "cbuf_len (NULL_buf n) = n"
| "cbuf_len (Buf bs) = length bs"

fun cbuf_is_null :: "cbuf \<Rightarrow> bool" where
  "cbuf_is_null (NULL_buf n) = True"
| "cbuf_is_null (Buf bs) = False"

text \<open>What a copy out of the buffer reads; the code copies from \<open>NULL\<close> only with length 0.\<close>

fun cbuf_bytes :: "cbuf \<Rightarrow> byte list" where
  "cbuf_bytes (NULL_buf n) = []"
| "cbuf_bytes (Buf bs) = bs"

section \<open>Big-endian codecs\<close>

text \<open>
  The loop form (\<^verbatim>\<open>put_u64\<close> and \<^verbatim>\<open>get_u64\<close> of \<^verbatim>\<open>src/ack.c\<close>) at any width; the laws are
  proved once here.
\<close>

definition be_of :: "byte list \<Rightarrow> 'a::len word" where
  "be_of bs = foldl (\<lambda>v b. push_bit 8 v OR ucast b) 0 bs"

fun be_put :: "nat \<Rightarrow> 'a::len word \<Rightarrow> byte list" where
  "be_put 0 v = []"
| "be_put (Suc n) v = be_put n (drop_bit 8 v) @ [ucast v]"

lemma length_be_put [simp, len_simps]: "length (be_put n v) = n"
  by (induction n arbitrary: v) simp_all

lemma be_of_Nil [simp]: "be_of [] = 0"
  by (simp add: be_of_def)

lemma be_of_snoc [simp]: "be_of (bs @ [b]) = push_bit 8 (be_of bs) OR ucast b"
  by (simp add: be_of_def)

lemma be_of_be_put [codec_simps]: "be_of (be_put n v) = take_bit (8 * n) v"
proof (induction n arbitrary: v)
  case 0
  then show ?case by simp
next
  case (Suc n)
  have "push_bit 8 (take_bit (8 * n) (drop_bit 8 v)) OR ucast (ucast v :: byte) =
      take_bit (8 * Suc n) v"
    by (rule bit_word_eqI) (auto simp: bit_simps)
  then show ?case by (simp add: Suc.IH)
qed

lemma take_bit_be_of: "take_bit (8 * length bs) (be_of bs :: 'a::len word) = be_of bs"
proof (induction bs rule: rev_induct)
  case (snoc b bs)
  have low: "bit (be_of bs :: 'a word) k \<Longrightarrow> k < 8 * length bs" for k
    by (metis bit_take_bit_iff snoc.IH)
  show ?case
    by (rule bit_word_eqI) (auto simp: bit_simps dest: low bit_imp_le_length)
qed simp

lemma be_put_be_of [codec_simps]:
  "8 * length bs \<le> LENGTH('a) \<Longrightarrow> be_put (length bs) (be_of bs :: 'a::len word) = bs"
proof (induction bs rule: rev_induct)
  case (snoc b bs)
  have low: "bit (be_of bs :: 'a word) k \<Longrightarrow> k < 8 * length bs" for k
    by (metis bit_take_bit_iff take_bit_be_of)
  have "drop_bit 8 (be_of (bs @ [b]) :: 'a word) = be_of bs"
    using snoc.prems by (intro bit_word_eqI) (auto simp: bit_simps dest: bit_imp_le_length low)
  moreover have "ucast (be_of (bs @ [b]) :: 'a word) = b"
    using snoc.prems by (intro bit_word_eqI) (auto simp: bit_simps)
  ultimately show ?case using snoc by simp
qed simp

lemma unat_take_bit_less: "unat (take_bit n (w :: 'a::len word)) < 2 ^ n"
  by (simp add: unsigned_take_bit_eq)

lemma be_of_bound: "unat (be_of bs :: 'a::len word) < 2 ^ (8 * length bs)"
  by (metis take_bit_be_of unat_take_bit_less)

text \<open>A value within its wire width is not changed by the truncation.\<close>

lemma take_bit_wire: "unat (v :: 'a::len word) < 2 ^ n \<Longrightarrow> take_bit n v = v"
  by (metis take_bit_nat_eq_self_iff unsigned_take_bit_eq word_unat_eq_iff)

lemma unat_bound: "unat (w :: 'a::len word) < 2 ^ LENGTH('a)"
  by (rule unsigned_less)

lemma unat_ucast_up:
  "LENGTH('a) \<le> LENGTH('b) \<Longrightarrow> unat (ucast (w :: 'a::len word) :: 'b::len word) = unat w"
proof -
  assume le: "LENGTH('a) \<le> LENGTH('b)"
  have "unat w < 2 ^ LENGTH('b)"
    using unat_bound [of w] le by (rule order_less_le_trans [OF _ power_increasing]) simp
  then show ?thesis by (simp add: unsigned_ucast_eq take_bit_nat_eq_self)
qed

lemma unat_of_nat16: "n \<le> 0xFFFF \<Longrightarrow> unat (of_nat n :: u16) = n"
  by (simp add: unat_of_nat)

lemma and_low_mask: "unat (w :: 'a::len word) < 2 ^ n \<Longrightarrow> w AND mask n = w"
  by (metis take_bit_eq_mask take_bit_wire)

lemma ucast_byte16: "(ucast (ucast w :: byte) :: u16) = take_bit 8 w" for w :: u16
  by (rule bit_word_eqI) (auto simp: bit_simps)

text \<open>The inline shifts of the C parsers and serializers, one definition per width.\<close>

definition be16 :: "byte \<Rightarrow> byte \<Rightarrow> u16" where
  "be16 a b = push_bit 8 (ucast a) OR ucast b"

definition put_be16 :: "u16 \<Rightarrow> byte list" where
  "put_be16 v = [ucast (drop_bit 8 v), ucast v]"

definition be24 :: "byte \<Rightarrow> byte \<Rightarrow> byte \<Rightarrow> u32" where
  "be24 a b c = push_bit 16 (ucast a) OR push_bit 8 (ucast b) OR ucast c"

definition put_be24 :: "u32 \<Rightarrow> byte list" where
  "put_be24 v = [ucast (drop_bit 16 v), ucast (drop_bit 8 v), ucast v]"

definition be32 :: "byte \<Rightarrow> byte \<Rightarrow> byte \<Rightarrow> byte \<Rightarrow> u32" where
  "be32 a b c d = push_bit 24 (ucast a) OR push_bit 16 (ucast b) OR push_bit 8 (ucast c) OR ucast d"

definition put_be32 :: "u32 \<Rightarrow> byte list" where
  "put_be32 v = [ucast (drop_bit 24 v), ucast (drop_bit 16 v), ucast (drop_bit 8 v), ucast v]"

definition be48 :: "byte \<Rightarrow> byte \<Rightarrow> byte \<Rightarrow> byte \<Rightarrow> byte \<Rightarrow> byte \<Rightarrow> u64" where
  "be48 a b c d e f =
     push_bit 40 (ucast a) OR push_bit 32 (ucast b) OR push_bit 24 (ucast c) OR
     push_bit 16 (ucast d) OR push_bit 8 (ucast e) OR ucast f"

definition put_be48 :: "u64 \<Rightarrow> byte list" where
  "put_be48 v =
     [ucast (drop_bit 40 v), ucast (drop_bit 32 v), ucast (drop_bit 24 v),
      ucast (drop_bit 16 v), ucast (drop_bit 8 v), ucast v]"

lemma length_put_be [simp, len_simps]:
  "length (put_be16 v) = 2" "length (put_be24 w) = 3" "length (put_be32 w) = 4"
  "length (put_be48 x) = 6"
  by (simp_all add: put_be16_def put_be24_def put_be32_def put_be48_def)

lemma be_fixed_of:
  "be16 a b = be_of [a, b]" "be24 a b c = be_of [a, b, c]"
  "be32 a b c d = be_of [a, b, c, d]" "be48 a b c d e f = be_of [a, b, c, d, e, f]"
  by (simp_all add: be16_def be24_def be32_def be48_def be_of_def push_bit_or or.assoc)

lemma put_be_fixed:
  "put_be16 v = be_put 2 v" "put_be24 w = be_put 3 w" "put_be32 w = be_put 4 w"
  "put_be48 x = be_put 6 x"
  by (simp_all add: put_be16_def put_be24_def put_be32_def put_be48_def eval_nat_numeral)

lemma put_be_be [simp, codec_simps]:
  "put_be16 (be16 a b) = [a, b]" "put_be24 (be24 a b c) = [a, b, c]"
  "put_be32 (be32 a b c d) = [a, b, c, d]" "put_be48 (be48 a b c d e f) = [a, b, c, d, e, f]"
  using be_put_be_of [of "[a, b]", where 'a = 16] be_put_be_of [of "[a, b, c]", where 'a = 32]
    be_put_be_of [of "[a, b, c, d]", where 'a = 32]
    be_put_be_of [of "[a, b, c, d, e, f]", where 'a = 64]
  by (simp_all add: be_fixed_of put_be16_def put_be24_def put_be32_def put_be48_def)

lemma be16_put [simp, codec_simps]: "be16 (ucast (drop_bit 8 v)) (ucast v) = v"
  using be_of_be_put [of 2 v] by (simp add: be_fixed_of put_be_fixed [symmetric] put_be16_def
      take_bit_word_eq_self)

lemma be24_put [codec_simps]:
  "be24 (ucast (drop_bit 16 v)) (ucast (drop_bit 8 v)) (ucast v) = take_bit 24 v"
  using be_of_be_put [of 3 v] by (simp add: be_fixed_of put_be_fixed [symmetric] put_be24_def)

lemma be32_put [simp, codec_simps]:
  "be32 (ucast (drop_bit 24 v)) (ucast (drop_bit 16 v)) (ucast (drop_bit 8 v)) (ucast v) = v"
  using be_of_be_put [of 4 v] by (simp add: be_fixed_of put_be_fixed [symmetric] put_be32_def
      take_bit_word_eq_self)

lemma be48_put [codec_simps]:
  "be48 (ucast (drop_bit 40 v)) (ucast (drop_bit 32 v)) (ucast (drop_bit 24 v))
     (ucast (drop_bit 16 v)) (ucast (drop_bit 8 v)) (ucast v) = take_bit 48 v"
  using be_of_be_put [of 6 v] by (simp add: be_fixed_of put_be_fixed [symmetric] put_be48_def)

lemma be24_bound: "unat (be24 a b c) < 2 ^ 24"
  using be_of_bound [of "[a, b, c]", where 'a = 32] by (simp add: be_fixed_of)

lemma be48_bound: "unat (be48 a b c d e f) < 2 ^ 48"
  using be_of_bound [of "[a, b, c, d, e, f]", where 'a = 64] by (simp add: be_fixed_of)

section \<open>Words as integers\<close>

lemma push_bit_one: "push_bit n 1 = (2 ^ n :: 'a::len word)"
  by (simp add: push_bit_eq_mult)

lemma and_not_mask_int: "(k :: int) AND NOT (mask n) = k - k mod 2 ^ n"
proof -
  have "k AND NOT (mask n) = push_bit n (drop_bit n k)"
    by (rule bit_eqI) (auto simp: bit_simps)
  then show ?thesis
    by (simp add: push_bit_eq_mult drop_bit_eq_div minus_mod_eq_div_mult)
qed

lemma uint_and_mask: "uint (w AND mask n) = uint w mod 2 ^ n" for w :: "'a::len word"
proof -
  have "uint (take_bit n w) = take_bit n (uint w)"
    by (rule unsigned_take_bit_eq)
  then show ?thesis
    by (simp only: take_bit_eq_mask) (simp only: take_bit_eq_mask [symmetric] take_bit_eq_mod)
qed

lemma uint_and_not_mask: "uint (w AND NOT (mask n)) = uint w - uint w mod 2 ^ n"
  for w :: "'a::len word"
proof -
  have "uint (w AND NOT (mask n)) = uint w AND NOT (mask n)"
    by (rule bit_eqI) (auto simp: bit_simps dest: bit_imp_le_length)
  then show ?thesis by (simp only: and_not_mask_int)
qed

lemma uint_of_int64: "0 \<le> c \<Longrightarrow> c < 2 ^ 64 \<Longrightarrow> uint (word_of_int c :: u64) = c"
  by (simp add: uint_word_of_int)

text \<open>The idiom \<^verbatim>\<open>a > b ? a - b : b - a\<close> never wraps.\<close>

lemma uint_abs_diff:
  "uint (if a > b then a - b else b - a) = \<bar>uint a - uint b\<bar>" for a b :: "'a::len word"
  by (auto simp: uint_minus_simple_alt [THEN iffD1] word_less_def word_le_def
      uint_sub_lem [THEN iffD1])

lemma sint_small: "uint w < 2 ^ 63 \<Longrightarrow> sint w = uint w" for w :: u64
proof -
  assume "uint w < 2 ^ 63"
  moreover have "- (2 ^ 63) \<le> uint w" by (rule order_trans [OF _ uint_nonnegative]) simp
  ultimately have "signed_take_bit 63 (uint w) = uint w"
    by (intro signed_take_bit_int_eq_self)
  then show ?thesis by (simp add: sint_uint)
qed

lemma uint16_range: "0 \<le> uint (h :: u16)" "uint h \<le> 0xFFFF"
  using uint_lt2p [of h] by simp_all

lemma xor_eq_0: "a XOR b = 0 \<longleftrightarrow> a = b" for a b :: "'a::len word"
  by (auto simp: bit_eq_iff bit_xor_iff)

lemma xor_left_cancel: "c XOR a = c XOR b \<longleftrightarrow> a = b" for a b :: "'a::len word"
  by (auto simp: bit_eq_iff bit_xor_iff)

section \<open>Filling blocks\<close>

lemma div_add_small: "a mod n + b < n \<Longrightarrow> (a + b) div n = a div n" for a :: nat
proof -
  assume small: "a mod n + b < n"
  have "((a mod n + b) + n * (a div n)) div n = a div n + (a mod n + b) div n"
    using small by (intro div_mult_self2) simp
  then show ?thesis using small by simp
qed

lemma int_mod_up: "- n \<le> x \<Longrightarrow> x < 0 \<Longrightarrow> x mod n = x + (n :: int)"
  using mod_add_self2 [of x n] mod_pos_pos_trivial [of "x + n" n] by linarith

lemma int_mod_down: "n \<le> x \<Longrightarrow> x < n + n \<Longrightarrow> x mod n = x - (n :: int)"
  using mod_add_self2 [of "x - n" n] mod_pos_pos_trivial [of "x - n" n] by simp

lemma add_fill: "a mod n + b = n \<Longrightarrow> a + b = n * Suc (a div n)" for a :: nat
  using mult_div_mod_eq [of n a] unfolding mult_Suc_right by linarith

section \<open>Slices\<close>

text \<open>\<open>slice_of off n xs\<close> is what a pointer \<open>xs + off\<close> with length \<open>n\<close> designates.\<close>

definition slice_of :: "nat \<Rightarrow> nat \<Rightarrow> 'a list \<Rightarrow> 'a list" where
  "slice_of off n xs = take n (drop off xs)"

lemma length_slice_of [simp, len_simps]:
  "off + n \<le> length xs \<Longrightarrow> length (slice_of off n xs) = n"
  by (simp add: slice_of_def)

lemma slice_of_append [simp]:
  "off = length xs \<Longrightarrow> n = length ys \<Longrightarrow> slice_of off n (xs @ ys @ zs) = ys"
  "off = length xs \<Longrightarrow> n = length ys \<Longrightarrow> slice_of off n (xs @ ys) = ys"
  by (simp_all add: slice_of_def)

lemma nth_slice_of: "off + n \<le> length xs \<Longrightarrow> i < n \<Longrightarrow> slice_of off n xs ! i = xs ! (off + i)"
  by (simp add: slice_of_def)

lemma slice_of_split: "off + n \<le> length xs \<Longrightarrow> take (off + n) xs = take off xs @ slice_of off n xs"
  by (simp add: slice_of_def take_add)

lemma slice_of_add: "slice_of p (a + b) xs = slice_of p a xs @ slice_of (p + a) b xs"
  by (simp add: slice_of_def take_add add.commute)

lemma take_map_nth: "n \<le> length xs \<Longrightarrow> take n xs = map ((!) xs) [0..<n]"
  by (rule nth_equalityI) simp_all

text \<open>\<open>memcpy(dst + off, src, length src)\<close> inside an array.\<close>

definition memcpy_at :: "'a list \<Rightarrow> nat \<Rightarrow> 'a list \<Rightarrow> 'a list" where
  "memcpy_at dst off src = take off dst @ src @ drop (off + length src) dst"

lemma length_memcpy_at [simp, len_simps]:
  "off + length src \<le> length dst \<Longrightarrow> length (memcpy_at dst off src) = length dst"
  by (simp add: memcpy_at_def)

lemma nth_memcpy_at:
  assumes "off + length src \<le> length dst" and "i < length dst"
  shows "memcpy_at dst off src ! i =
    (if off \<le> i \<and> i < off + length src then src ! (i - off) else dst ! i)"
  using assms by (auto simp: memcpy_at_def nth_append)

section \<open>Little-endian numbers\<close>

primrec le_nat :: "byte list \<Rightarrow> nat" where
  "le_nat [] = 0"
| "le_nat (b # bs) = unat b + 256 * le_nat bs"

lemma le_nat_append: "le_nat (as @ bs) = le_nat as + 256 ^ length as * le_nat bs"
  by (induction as) (simp_all add: algebra_simps)

lemma le_nat_bound: "le_nat bs < 256 ^ length bs"
proof (induction bs)
  case (Cons b bs)
  then show ?case using unat_bound [of b] by simp
qed simp

lemma le_nat_zeros [simp]: "le_nat (replicate n 0) = 0"
  by (induction n) simp_all

lemma le_nat_inj: "length as = length bs \<Longrightarrow> le_nat as = le_nat bs \<Longrightarrow> as = bs"
proof (induction as bs rule: list_induct2)
  case (Cons a as b bs)
  have d: "le_nat (c # cs) mod 256 = unat c" "le_nat (c # cs) div 256 = le_nat cs" for c cs
    using unat_bound [of c] by simp_all
  have "unat a = unat b" "le_nat as = le_nat bs" using Cons.prems by (metis d(1), metis d(2))
  then show ?case using Cons.IH by (simp add: word_unat_eq_iff)
qed simp

text \<open>The number that a list of bytes writes with the most significant byte first.\<close>

definition be_nat :: "byte list \<Rightarrow> nat" where
  "be_nat bs = le_nat (rev bs)"

lemma be_nat_append: "be_nat (as @ bs) = be_nat as * 256 ^ length bs + be_nat bs"
  by (simp add: be_nat_def le_nat_append)

lemma be_nat_zeros [simp]: "be_nat (replicate n 0) = 0"
  by (simp add: be_nat_def)

lemma be_nat_Cons: "be_nat (b # bs) = unat b * 256 ^ length bs + be_nat bs"
  using be_nat_append [of "[b]" bs] by (simp add: be_nat_def)

lemma be_nat_bound: "be_nat bs < 256 ^ length bs"
  unfolding be_nat_def using le_nat_bound [of "rev bs"] by simp

lemma top_bit_byte: "b AND 0x80 \<noteq> 0 \<longleftrightarrow> 128 \<le> unat b" for b :: byte
proof -
  have "b AND 0x80 \<noteq> 0 \<longleftrightarrow> bit b 7" by (simp add: and_exp_eq_0_iff_not_bit [of b 7, simplified])
  also have "\<dots> \<longleftrightarrow> bit (unat b) 7" by (simp add: bit_unsigned_iff)
  also have "\<dots> \<longleftrightarrow> odd (unat b div 2 ^ 7)" by (rule bit_iff_odd)
  also have "\<dots> \<longleftrightarrow> 128 \<le> unat b"
  proof -
    have "unat b div 2 ^ 7 < 2" using unat_bound [of b] by simp
    then have "odd (unat b div 2 ^ 7) \<longleftrightarrow> unat b div 2 ^ 7 = 1" by (auto elim: oddE)
    also have "\<dots> \<longleftrightarrow> 128 \<le> unat b" using unat_bound [of b] by auto
    finally show ?thesis .
  qed
  finally show ?thesis .
qed

lemma le_nat_Cons_or: "le_nat (b # bs) = unat b OR push_bit 8 (le_nat bs)"
proof -
  have "unat b AND push_bit 8 (le_nat bs) = 0"
    by (rule bit_eqI) (auto simp: bit_simps dest: bit_imp_le_length)
  then show ?thesis by (simp add: disjunctive_add_eq_or [symmetric] push_bit_eq_mult)
qed

lemma bit_le_nat: "t < 8 * length bs \<Longrightarrow> bit (le_nat bs) t = bit (bs ! (t div 8)) (t mod 8)"
proof (induction bs arbitrary: t)
  case (Cons b bs)
  show ?case
  proof (cases "t < 8")
    case True
    then show ?thesis unfolding le_nat_Cons_or by (simp add: bit_simps)
  next
    case False
    then obtain u where t: "t = 8 + u" using le_Suc_ex [of 8 t] by auto
    then have "bit (le_nat (b # bs)) t = bit (le_nat bs) u"
      unfolding le_nat_Cons_or by (auto simp: bit_simps dest: bit_imp_le_length)
    moreover have "t div 8 = Suc (u div 8)" "t mod 8 = u mod 8" unfolding t by simp_all
    ultimately show ?thesis using Cons t by simp
  qed
qed simp

primrec nat_le :: "nat \<Rightarrow> nat \<Rightarrow> byte list" where
  "nat_le 0 n = []"
| "nat_le (Suc k) n = of_nat n # nat_le k (n div 256)"

lemma length_nat_le [simp, len_simps]: "length (nat_le k n) = k"
  by (induction k arbitrary: n) simp_all

lemma le_nat_nat_le: "le_nat (nat_le k n) = n mod 256 ^ k"
proof (induction k arbitrary: n)
  case (Suc k)
  then show ?case by (simp add: unat_of_nat mod_mult2_eq)
qed simp

lemma nat_le_unique: "length bs = k \<Longrightarrow> le_nat bs = n mod 256 ^ k \<Longrightarrow> bs = nat_le k n"
  by (rule le_nat_inj) (simp_all add: le_nat_nat_le)

text \<open>\<^verbatim>\<open>x | (y << n)\<close> is an addition when \<open>x\<close> stays below the shift; the top bits of \<open>y\<close> fall off.\<close>

lemma unat_or_shift_mod:
  fixes x y :: "'a::len word"
  assumes "unat x < 2 ^ n"
  shows "unat (x OR push_bit n y) = (unat x + 2 ^ n * unat y) mod 2 ^ LENGTH('a)"
proof -
  have low: "bit x i \<Longrightarrow> i < n" for i
    by (metis assms bit_take_bit_iff take_bit_wire)
  have "x AND push_bit n y = 0"
    by (rule bit_word_eqI) (auto simp: bit_simps dest: low)
  then have "x OR push_bit n y = x + push_bit n y"
    by (simp add: disjunctive_add_eq_or)
  also have "\<dots> = of_nat (unat x + 2 ^ n * unat y)"
    by (simp add: push_bit_eq_mult mult.commute)
  finally show ?thesis by (simp only: unat_of_nat)
qed

lemma unat_or_shift:
  fixes x y :: "'a::len word"
  assumes "unat x < 2 ^ n" and "unat x + 2 ^ n * unat y < 2 ^ LENGTH('a)"
  shows "unat (x OR push_bit n y) = unat x + 2 ^ n * unat y"
  using assms by (simp add: unat_or_shift_mod)

lemma unat_or4:
  fixes a b c d :: "'a::len word"
  assumes "unat a < 2 ^ i" and "unat a + 2 ^ i * unat b < 2 ^ j"
    and "unat a + 2 ^ i * unat b + 2 ^ j * unat c < 2 ^ k"
    and "unat a + 2 ^ i * unat b + 2 ^ j * unat c + 2 ^ k * unat d < 2 ^ LENGTH('a)"
  shows "unat (((a OR push_bit i b) OR push_bit j c) OR push_bit k d) =
    unat a + 2 ^ i * unat b + 2 ^ j * unat c + 2 ^ k * unat d"
proof -
  have "unat (a OR push_bit i b) = unat a + 2 ^ i * unat b"
    using assms by (intro unat_or_shift) simp_all
  moreover from this have
    "unat ((a OR push_bit i b) OR push_bit j c) = unat a + 2 ^ i * unat b + 2 ^ j * unat c"
    using assms unat_or_shift [of "a OR push_bit i b" j c] by simp
  ultimately show ?thesis
    using assms unat_or_shift [of "(a OR push_bit i b) OR push_bit j c" k d] by simp
qed

lemma unat_drop_bit: "unat (drop_bit n x) = unat x div 2 ^ n" for x :: "'a::len word"
  unfolding unsigned_drop_bit_eq by (simp add: drop_bit_eq_div take_bit_nat_eq_self)

lemma unat_and_mask: "unat (x AND mask n) = unat x mod 2 ^ n" for x :: "'a::len word"
  unfolding take_bit_eq_mask [symmetric] unsigned_take_bit_eq by (rule take_bit_eq_mod)

section \<open>Streaming functions\<close>

text \<open>A function of a key and a message that is computed piece by piece, and its case without a key.\<close>

locale keyed_streaming =
  fixes init :: "'k \<Rightarrow> 'c" and valid_key :: "'k \<Rightarrow> bool" and feed :: "'c \<Rightarrow> byte list \<Rightarrow> 'c"
    and finish :: "'c \<Rightarrow> byte list" and digest :: "'k \<Rightarrow> byte list \<Rightarrow> byte list" and digest_len :: nat
  assumes keyed_finish: "valid_key k \<Longrightarrow> finish (foldl feed (init k) pieces) = digest k (concat pieces)"
    and length_keyed: "valid_key k \<Longrightarrow> length (digest k m) = digest_len"
begin

lemma keyed_one: "valid_key k \<Longrightarrow> finish (feed (init k) a) = digest k a"
  using keyed_finish [of k "[a]"] by simp

lemma keyed_same_concat:
  "valid_key k \<Longrightarrow> concat ps = concat qs \<Longrightarrow>
   finish (foldl feed (init k) ps) = finish (foldl feed (init k) qs)"
  by (simp add: keyed_finish)

end

locale streaming_hash =
  fixes start :: 'c and feed :: "'c \<Rightarrow> byte list \<Rightarrow> 'c" and finish :: "'c \<Rightarrow> byte list"
    and digest :: "byte list \<Rightarrow> byte list" and digest_len :: nat
  assumes finish_feed: "finish (foldl feed start pieces) = digest (concat pieces)"
    and length_digest: "length (digest m) = digest_len"

sublocale streaming_hash \<subseteq> keyed_streaming "\<lambda>_ :: unit. start" "\<lambda>_. True" feed finish "\<lambda>_. digest" digest_len
  by unfold_locales (simp_all add: finish_feed length_digest)

context streaming_hash
begin

lemma finish_one: "finish (feed start a) = digest a"
  by (rule keyed_one [OF TrueI])

lemma finish_two: "finish (feed (feed start a) b) = digest (a @ b)"
  using finish_feed [of "[a, b]"] by simp

lemma same_concat: "concat ps = concat qs \<Longrightarrow> finish (foldl feed start ps) = finish (foldl feed start qs)"
  by (rule keyed_same_concat [OF TrueI])

end

end
