(* ===== verification/Record_Layer.thy ===== *)
theory Record_Layer
  imports Prelude
begin

text \<open>
  The record layer framing of \<^verbatim>\<open>src/record.c\<close> and \<^verbatim>\<open>include/nanodtls/record.h\<close>: the 13-byte
  \<open>DTLSPlaintext\<close> header, the bit-packed unified header of encrypted records, and the
  reconstruction of the full epoch and sequence number from the bits the wire carries.
  Shown: both codecs are inverse to each other in both directions, every parse stays inside its
  buffer, and the two reconstructions return the candidate nearest to the reference, hence the
  true value whenever it lies within half a window of the reference.
\<close>

unbundle bit_operations_syntax

section \<open>Wire constants\<close>

abbreviation (input) ND_CT_CHANGE_CIPHER_SPEC :: byte where "ND_CT_CHANGE_CIPHER_SPEC \<equiv> 20"
abbreviation (input) ND_CT_ALERT :: byte where "ND_CT_ALERT \<equiv> 21"
abbreviation (input) ND_CT_HANDSHAKE :: byte where "ND_CT_HANDSHAKE \<equiv> 22"
abbreviation (input) ND_CT_APPLICATION_DATA :: byte where "ND_CT_APPLICATION_DATA \<equiv> 23"
abbreviation (input) ND_CT_ACK :: byte where "ND_CT_ACK \<equiv> 26"

abbreviation (input) ND_VERSION_DTLS1_2 :: u16 where "ND_VERSION_DTLS1_2 \<equiv> 0xfefd"

abbreviation (input) ND_PLAINTEXT_HDR_LEN :: nat where "ND_PLAINTEXT_HDR_LEN \<equiv> 13"

abbreviation (input) ND_UNIFIED_FIXED_BITS_MASK :: byte where "ND_UNIFIED_FIXED_BITS_MASK \<equiv> 0xE0"
abbreviation (input) ND_UNIFIED_FIXED_BITS_VAL :: byte where "ND_UNIFIED_FIXED_BITS_VAL \<equiv> 0x20"
abbreviation (input) ND_UNIFIED_CID_BIT :: byte where "ND_UNIFIED_CID_BIT \<equiv> 0x10"
abbreviation (input) ND_UNIFIED_SEQLEN_BIT :: byte where "ND_UNIFIED_SEQLEN_BIT \<equiv> 0x08"
abbreviation (input) ND_UNIFIED_LEN_BIT :: byte where "ND_UNIFIED_LEN_BIT \<equiv> 0x04"
abbreviation (input) ND_UNIFIED_EPOCH_MASK :: byte where "ND_UNIFIED_EPOCH_MASK \<equiv> 0x03"

section \<open>The plaintext record header\<close>

record nd_plaintext_hdr =
  pt_type :: byte
  pt_legacy_version :: u16
  pt_epoch :: u16
  pt_sequence_number :: u64
  pt_length :: u16

fun nd_plaintext_parse :: "cbuf \<Rightarrow> (nd_plaintext_hdr \<times> byte list) result" where
  "nd_plaintext_parse (NULL_buf n) = Inl ND_ERR_BAD_ARG"
| "nd_plaintext_parse (Buf buf) =
     (if length buf < ND_PLAINTEXT_HDR_LEN then Inl ND_ERR_TRUNCATED
      else
        let hdr = \<lparr>pt_type = buf ! 0,
                   pt_legacy_version = be16 (buf ! 1) (buf ! 2),
                   pt_epoch = be16 (buf ! 3) (buf ! 4),
                   pt_sequence_number =
                     be48 (buf ! 5) (buf ! 6) (buf ! 7) (buf ! 8) (buf ! 9) (buf ! 10),
                   pt_length = be16 (buf ! 11) (buf ! 12)\<rparr>
        in if unat (pt_length hdr) > length buf - ND_PLAINTEXT_HDR_LEN
           then Inl ND_ERR_BAD_LENGTH
           else Inr (hdr, slice_of ND_PLAINTEXT_HDR_LEN (unat (pt_length hdr)) buf))"

fun nd_plaintext_serialize :: "nd_plaintext_hdr ptr \<Rightarrow> cbuf \<Rightarrow> nat \<Rightarrow> byte list result" where
  "nd_plaintext_serialize None fragment out_buf_cap = Inl ND_ERR_BAD_ARG"
| "nd_plaintext_serialize (Some hdr) fragment out_buf_cap =
     (let fragment_len = cbuf_len fragment in
      if fragment_len > 0 \<and> cbuf_is_null fragment then Inl ND_ERR_BAD_ARG
      else if pt_sequence_number hdr > 0xFFFFFFFFFFFF then Inl ND_ERR_BAD_ARG
      else if fragment_len > 0xFFFF then Inl ND_ERR_BAD_ARG
      else
        let total = ND_PLAINTEXT_HDR_LEN + fragment_len in
        if out_buf_cap < total then Inl ND_ERR_BAD_LENGTH
        else Inr ([pt_type hdr] @ put_be16 (pt_legacy_version hdr) @ put_be16 (pt_epoch hdr) @
                  put_be48 (pt_sequence_number hdr) @ put_be16 (of_nat fragment_len) @
                  cbuf_bytes fragment))"

section \<open>The unified header\<close>

record nd_unified_hdr =
  uh_cid_present :: bool
  uh_seq_len_is_16bit :: bool
  uh_length_present :: bool
  uh_epoch_low2 :: byte
  uh_cid :: "byte list ptr"
  uh_cid_len :: nat
  uh_sequence_number :: u16
  uh_length :: u16

text \<open>
  The lengths and offsets of \<^verbatim>\<open>nd_unified_parse\<close> are \<^verbatim>\<open>size_t\<close> values that wrap around at \<open>2\<^sup>6\<^sup>4\<close>;
  \<open>None\<close> is a read outside the datagram (undefined behaviour in C). \<open>unified_fields\<close> is the part behind
  the checks of the first byte. The payload comes with its offset in the datagram, the
  \<^verbatim>\<open>payload - buf\<close> of the callers.
\<close>

definition unified_fields ::
  "byte list \<Rightarrow> u64 \<Rightarrow> bool \<Rightarrow> bool \<Rightarrow> bool \<Rightarrow> byte \<Rightarrow> (nd_unified_hdr \<times> nat \<times> byte list) result option" where
  "unified_fields buf cid_len cid_present seq16 len_present epoch_low2 =
     (let need = 1 + (if cid_present then cid_len else 0) + (if seq16 then 2 else 1) +
                 (if len_present then 2 else 0)
      in if length buf < unat need then Some (Inl ND_ERR_TRUNCATED)
      else
        let off1 = 1;
            cid = (if cid_present then Some (slice_of (unat off1) (unat cid_len) buf) else None);
            off2 = (if cid_present then off1 + cid_len else off1);
            off3 = (if seq16 then off2 + 2 else off2 + 1);
            off4 = (if len_present then off3 + 2 else off3)
        in if \<not> unat off2 < length buf \<or> (seq16 \<and> \<not> unat (off2 + 1) < length buf) \<or>
              (len_present \<and> (\<not> unat off3 < length buf \<or> \<not> unat (off3 + 1) < length buf)) then None
        else
          let seq = (if seq16 then be16 (buf ! unat off2) (buf ! unat (off2 + 1)) else ucast (buf ! unat off2));
              len = (if len_present then be16 (buf ! unat off3) (buf ! unat (off3 + 1))
                     else of_nat (length buf - unat off4))
          in if len_present \<and> unat len > length buf - unat off4 then Some (Inl ND_ERR_BAD_LENGTH)
             else Some (Inr (\<lparr>uh_cid_present = cid_present, uh_seq_len_is_16bit = seq16,
                        uh_length_present = len_present, uh_epoch_low2 = epoch_low2,
                        uh_cid = cid, uh_cid_len = (if cid_present then unat cid_len else 0),
                        uh_sequence_number = seq, uh_length = len\<rparr>,
                       unat off4, slice_of (unat off4) (unat len) buf)))"

fun nd_unified_parse :: "cbuf \<Rightarrow> u64 \<Rightarrow> (nd_unified_hdr \<times> nat \<times> byte list) result option" where
  "nd_unified_parse (NULL_buf n) cid_len = Some (Inl ND_ERR_BAD_ARG)"
| "nd_unified_parse (Buf buf) cid_len =
     (if length buf < 1 then Some (Inl ND_ERR_TRUNCATED)
      else
        let b0 = buf ! 0 in
        if b0 AND ND_UNIFIED_FIXED_BITS_MASK \<noteq> ND_UNIFIED_FIXED_BITS_VAL
        then Some (Inl ND_ERR_NOT_UNIFIED)
        else
          let cid_present = (b0 AND ND_UNIFIED_CID_BIT \<noteq> 0);
              seq16 = (b0 AND ND_UNIFIED_SEQLEN_BIT \<noteq> 0);
              len_present = (b0 AND ND_UNIFIED_LEN_BIT \<noteq> 0);
              epoch_low2 = b0 AND ND_UNIFIED_EPOCH_MASK
          in if cid_present \<and> cid_len = 0 then Some (Inl ND_ERR_BAD_ARG)
             else unified_fields buf cid_len cid_present seq16 len_present epoch_low2)"

definition unified_first_byte :: "nd_unified_hdr \<Rightarrow> byte" where
  "unified_first_byte hdr =
     ND_UNIFIED_FIXED_BITS_VAL OR
     (if uh_cid_present hdr then ND_UNIFIED_CID_BIT else 0) OR
     (if uh_seq_len_is_16bit hdr then ND_UNIFIED_SEQLEN_BIT else 0) OR
     (if uh_length_present hdr then ND_UNIFIED_LEN_BIT else 0) OR
     (uh_epoch_low2 hdr AND ND_UNIFIED_EPOCH_MASK)"

fun nd_unified_serialize :: "nd_unified_hdr ptr \<Rightarrow> cbuf \<Rightarrow> nat \<Rightarrow> byte list result" where
  "nd_unified_serialize None payload out_buf_cap = Inl ND_ERR_BAD_ARG"
| "nd_unified_serialize (Some hdr) payload out_buf_cap =
     (let payload_len = cbuf_len payload in
      if payload_len > 0 \<and> cbuf_is_null payload then Inl ND_ERR_BAD_ARG
      else if uh_cid_present hdr \<and> (uh_cid hdr = None \<or> uh_cid_len hdr = 0) then Inl ND_ERR_BAD_ARG
      else if \<not> uh_seq_len_is_16bit hdr \<and> uh_sequence_number hdr > 0xFF then Inl ND_ERR_BAD_ARG
      else if uh_length_present hdr \<and> payload_len > 0xFFFF then Inl ND_ERR_BAD_ARG
      else
        let total = 1 + (if uh_cid_present hdr then uh_cid_len hdr else 0) +
                    (if uh_seq_len_is_16bit hdr then 2 else 1) +
                    (if uh_length_present hdr then 2 else 0) + payload_len
        in if out_buf_cap < total then Inl ND_ERR_BAD_LENGTH
        else Inr ([unified_first_byte hdr] @
                  (if uh_cid_present hdr then take (uh_cid_len hdr) (the (uh_cid hdr)) else []) @
                  (if uh_seq_len_is_16bit hdr then put_be16 (uh_sequence_number hdr)
                   else [ucast (uh_sequence_number hdr)]) @
                  (if uh_length_present hdr then put_be16 (of_nat payload_len) else []) @
                  cbuf_bytes payload))"

section \<open>Reconstruction of epoch and sequence number\<close>

text \<open>One iteration of the loop over the windows; the loop state is (\<open>best\<close>, \<open>best_dist\<close>).\<close>

definition epoch_window :: "u16 \<Rightarrow> int \<Rightarrow> int \<Rightarrow> int \<Rightarrow> int \<times> int \<Rightarrow> int \<times> int" where
  "epoch_window highest base low2 w = (\<lambda>(best, best_dist).
     let candidate = base + w * 4 + low2 in
     if candidate < 0 \<or> candidate > 0xFFFF then (best, best_dist)
     else
       let dist0 = candidate - uint highest;
           dist = (if dist0 < 0 then - dist0 else dist0)
       in if dist < best_dist then (candidate, dist) else (best, best_dist))"

definition nd_reconstruct_epoch :: "u16 \<Rightarrow> byte \<Rightarrow> u16" where
  "nd_reconstruct_epoch highest_known_epoch wire_low2 =
     (let low2 = uint (wire_low2 AND 0x3);
          base = uint highest_known_epoch AND NOT 0x3;
          (best, best_dist) =
            fold (epoch_window highest_known_epoch base low2) [-1, 0, 1] (-1, 0x7fffffff)
      in word_of_int best)"

definition seq_window :: "u64 \<Rightarrow> u64 \<Rightarrow> u64 \<Rightarrow> u64 \<Rightarrow> int \<Rightarrow> u64 \<times> u64 \<Rightarrow> u64 \<times> u64" where
  "seq_window highest base win truncated w = (\<lambda>(best, best_dist).
     let candidate = sint base + w * sint win + sint truncated in
     if candidate < 0 \<or> candidate > 0xFFFFFFFFFFFF then (best, best_dist)
     else
       let ucandidate = (word_of_int candidate :: u64);
           dist = (if ucandidate > highest then ucandidate - highest else highest - ucandidate)
       in if dist < best_dist then (ucandidate, dist) else (best, best_dist))"

definition nd_reconstruct_sequence_number :: "u64 \<Rightarrow> u16 \<Rightarrow> nat \<Rightarrow> u64" where
  "nd_reconstruct_sequence_number highest wire_value wire_bits =
     (let win = push_bit wire_bits 1;
          msk = win - 1;
          base = highest AND NOT msk;
          truncated = ucast wire_value AND msk;
          best0 = base + truncated;
          best_dist0 = (if best0 > highest then best0 - highest else highest - best0);
          (best, best_dist) = fold (seq_window highest base win truncated) [-1, 1] (best0, best_dist0)
      in best)"

section \<open>Specifications\<close>

text \<open>The parser of the unified header with exact instead of wrapping lengths.\<close>

definition exact_fields ::
  "byte list \<Rightarrow> nat \<Rightarrow> bool \<Rightarrow> bool \<Rightarrow> bool \<Rightarrow> byte \<Rightarrow> (nd_unified_hdr \<times> nat \<times> byte list) result" where
  "exact_fields buf cid_len cid_present seq16 len_present epoch_low2 =
     (let off2 = 1 + (if cid_present then cid_len else 0);
          off3 = off2 + (if seq16 then 2 else 1);
          off4 = off3 + (if len_present then 2 else 0);
          len = (if len_present then be16 (buf ! off3) (buf ! (off3 + 1)) else of_nat (length buf - off4))
      in if length buf < off4 then Inl ND_ERR_TRUNCATED
         else if len_present \<and> unat len > length buf - off4 then Inl ND_ERR_BAD_LENGTH
         else Inr (\<lparr>uh_cid_present = cid_present, uh_seq_len_is_16bit = seq16,
                    uh_length_present = len_present, uh_epoch_low2 = epoch_low2,
                    uh_cid = (if cid_present then Some (slice_of 1 cid_len buf) else None),
                    uh_cid_len = (if cid_present then cid_len else 0),
                    uh_sequence_number = (if seq16 then be16 (buf ! off2) (buf ! (off2 + 1)) else ucast (buf ! off2)),
                    uh_length = len\<rparr>,
                   off4, slice_of off4 (unat len) buf))"

definition unified_parse_exact :: "byte list \<Rightarrow> nat \<Rightarrow> (nd_unified_hdr \<times> nat \<times> byte list) result" where
  "unified_parse_exact buf cid_len =
     (if buf = [] then Inl ND_ERR_TRUNCATED
      else if buf ! 0 AND ND_UNIFIED_FIXED_BITS_MASK \<noteq> ND_UNIFIED_FIXED_BITS_VAL then Inl ND_ERR_NOT_UNIFIED
      else if buf ! 0 AND ND_UNIFIED_CID_BIT \<noteq> 0 \<and> cid_len = 0 then Inl ND_ERR_BAD_ARG
      else exact_fields buf cid_len (buf ! 0 AND ND_UNIFIED_CID_BIT \<noteq> 0) (buf ! 0 AND ND_UNIFIED_SEQLEN_BIT \<noteq> 0)
             (buf ! 0 AND ND_UNIFIED_LEN_BIT \<noteq> 0) (buf ! 0 AND ND_UNIFIED_EPOCH_MASK))"

text \<open>
  The header structs that the parser produces: a connection ID exactly when the flag says so, and
  the epoch within its two bits.
\<close>

definition unified_hdr_wf :: "nd_unified_hdr \<Rightarrow> bool" where
  "unified_hdr_wf hdr \<longleftrightarrow>
     (case uh_cid hdr of None \<Rightarrow> \<not> uh_cid_present hdr \<and> uh_cid_len hdr = 0
      | Some c \<Rightarrow> uh_cid_present hdr \<and> uh_cid_len hdr = length c) \<and>
     uh_epoch_low2 hdr \<le> 3"

text \<open>The candidate of the three windows that lies nearest, ties going to the lower one.\<close>

definition epoch_best :: "int \<Rightarrow> int \<Rightarrow> int" where
  "epoch_best h l =
    (let c = h - h mod 4 + l in
     if l - h mod 4 \<ge> 2 \<and> c \<ge> 4 then c - 4
     else if h mod 4 - l > 2 \<and> c + 4 \<le> 0xFFFF then c + 4 else c)"

definition seq_best :: "int \<Rightarrow> int \<Rightarrow> int \<Rightarrow> int" where
  "seq_best W h l =
    (let c = h - h mod W + l in
     if 2 * (l - h mod W) > W \<and> c \<ge> W then c - W
     else if 2 * (h mod W - l) > W \<and> c + W \<le> 0xFFFFFFFFFFFF then c + W else c)"

section \<open>Round trips of the plaintext header\<close>

lemma not_gt_48: "\<not> (v :: u64) > 0xFFFFFFFFFFFF \<Longrightarrow> take_bit 48 v = v"
  by (rule take_bit_wire) (simp add: not_less word_le_nat_alt)

text \<open>Parsing what \<^verbatim>\<open>nd_plaintext_serialize\<close> wrote, followed by any further bytes of the
  datagram, gives back the header (with the length field set from the fragment) and exactly the
  fragment.\<close>

theorem plaintext_parse_serialize:
  assumes "nd_plaintext_serialize (Some hdr) (Buf fragment) cap = Inr out"
  shows "nd_plaintext_parse (Buf (out @ rest)) =
           Inr (hdr\<lparr>pt_length := of_nat (length fragment)\<rparr>, fragment)"
  using assms
  by (auto simp: Let_def put_be16_def put_be48_def be48_put not_gt_48 unat_of_nat16 slice_of_def
      split: if_splits)

theorem plaintext_parse_serialize_witness:
  "nd_plaintext_parse (Buf ([22, 0xfe, 0xfd, 0, 2, 0, 0, 0, 0, 1, 5, 0, 2, 7, 8] @ [9])) =
     Inr (\<lparr>pt_type = 22, pt_legacy_version = 0xfefd, pt_epoch = 2, pt_sequence_number = 0x105,
           pt_length = 2\<rparr>, [7, 8])"
proof -
  have "nd_plaintext_serialize (Some \<lparr>pt_type = 22, pt_legacy_version = 0xfefd, pt_epoch = 2,
      pt_sequence_number = 0x105, pt_length = 0\<rparr>) (Buf [7, 8]) 64 =
    Inr [22, 0xfe, 0xfd, 0, 2, 0, 0, 0, 0, 1, 5, 0, 2, 7, 8]"
    by code_simp
  from plaintext_parse_serialize [OF this, of "[9]"] show ?thesis
    by (simp del: nd_plaintext_parse.simps)
qed

text \<open>Whatever \<^verbatim>\<open>nd_plaintext_parse\<close> accepts is canonical: serializing the parsed header and
  fragment reproduces the bytes of the record that were read.\<close>

theorem plaintext_serialize_parse:
  assumes "nd_plaintext_parse (Buf buf) = Inr (hdr, fragment)"
  shows "nd_plaintext_serialize (Some hdr) (Buf fragment) (length buf) =
           Inr (take (ND_PLAINTEXT_HDR_LEN + length fragment) buf)"
proof -
  let ?b = "\<lambda>i. buf ! i"
  have len: "ND_PLAINTEXT_HDR_LEN \<le> length buf"
    using assms by (auto split: if_splits)
  have hd13: "take 13 buf = [?b 0, ?b 1, ?b 2, ?b 3, ?b 4, ?b 5, ?b 6, ?b 7, ?b 8, ?b 9, ?b 10, ?b 11, ?b 12]"
    using len by (simp add: take_map_nth upt_rec eval_nat_numeral)
  have "\<not> be48 (?b 5) (?b 6) (?b 7) (?b 8) (?b 9) (?b 10) > 0xFFFFFFFFFFFF"
    using be48_bound [of "?b 5" "?b 6" "?b 7" "?b 8" "?b 9" "?b 10"]
    by (simp add: not_less word_le_nat_alt)
  moreover have "unat (be16 (?b 11) (?b 12)) \<le> 0xFFFF" 
    using unat_bound [of "be16 (?b 11) (?b 12)"] by simp
  ultimately show ?thesis using assms len
    by (auto simp: Let_def slice_of_def take_add hd13 split: if_splits)
qed

theorem plaintext_serialize_parse_witness:
  "nd_plaintext_serialize
     (Some \<lparr>pt_type = 26, pt_legacy_version = 0xfefd, pt_epoch = 1, pt_sequence_number = 3,
        pt_length = 1\<rparr>) (Buf [0x55]) 15 =
   Inr [26, 0xfe, 0xfd, 0, 1, 0, 0, 0, 0, 0, 3, 0, 1, 0x55]"
proof -
  have "nd_plaintext_parse (Buf [26, 0xfe, 0xfd, 0, 1, 0, 0, 0, 0, 0, 3, 0, 1, 0x55, 0x66]) =
    Inr (\<lparr>pt_type = 26, pt_legacy_version = 0xfefd, pt_epoch = 1, pt_sequence_number = 3,
      pt_length = 1\<rparr>, [0x55])"
    by (simp add: be16_def be48_def slice_of_def)
  from plaintext_serialize_parse [OF this] show ?thesis
    by (simp add: eval_nat_numeral del: nd_plaintext_serialize.simps)
qed

section \<open>Round trips of the unified header\<close>

lemma unified_first_byte_bits:
  "unified_first_byte hdr AND ND_UNIFIED_FIXED_BITS_MASK = ND_UNIFIED_FIXED_BITS_VAL"
  "(unified_first_byte hdr AND ND_UNIFIED_CID_BIT \<noteq> 0) = uh_cid_present hdr"
  "(unified_first_byte hdr AND ND_UNIFIED_SEQLEN_BIT \<noteq> 0) = uh_seq_len_is_16bit hdr"
  "(unified_first_byte hdr AND ND_UNIFIED_LEN_BIT \<noteq> 0) = uh_length_present hdr"
  "unified_first_byte hdr AND ND_UNIFIED_EPOCH_MASK = uh_epoch_low2 hdr AND ND_UNIFIED_EPOCH_MASK"
  by (auto simp: unified_first_byte_def bit.conj_disj_distrib2 and.assoc)

lemma unified_first_byte_parsed:
  assumes "b0 AND ND_UNIFIED_FIXED_BITS_MASK = ND_UNIFIED_FIXED_BITS_VAL"
    and "uh_cid_present hdr = (b0 AND ND_UNIFIED_CID_BIT \<noteq> 0)"
    and "uh_seq_len_is_16bit hdr = (b0 AND ND_UNIFIED_SEQLEN_BIT \<noteq> 0)"
    and "uh_length_present hdr = (b0 AND ND_UNIFIED_LEN_BIT \<noteq> 0)"
    and "uh_epoch_low2 hdr = b0 AND ND_UNIFIED_EPOCH_MASK"
  shows "unified_first_byte hdr = b0"
proof -
  have one: "(if b0 AND push_bit n 1 \<noteq> 0 then push_bit n 1 else 0) = b0 AND push_bit n 1" for n
    by (auto simp: and_exp_eq_0_iff_not_bit push_bit_of_1 bit_simps intro!: bit_word_eqI)
  have s: "(if b0 AND 0x10 \<noteq> 0 then 0x10 else 0) = b0 AND 0x10"
    "(if b0 AND 0x08 \<noteq> 0 then 0x08 else 0) = b0 AND 0x08"
    "(if b0 AND 0x04 \<noteq> 0 then 0x04 else 0) = b0 AND 0x04"
    using one [of 4] one [of 3] one [of 2] by (simp_all cong: if_cong)
  have ones: "0xE0 OR 0x10 OR 0x08 OR 0x04 OR 0x03 = (- 1 :: byte)"
    by simp
  have "b0 = b0 AND (0xE0 OR 0x10 OR 0x08 OR 0x04 OR 0x03)"
    by (simp only: ones bit.conj_one_right)
  also have "\<dots> = unified_first_byte hdr"
    unfolding unified_first_byte_def assms(2-5)
    by (simp only: bit.conj_disj_distrib s assms(1) and.assoc and.idem)
  finally show ?thesis ..
qed

text \<open>Where the length of the header does not wrap around, the parser is the exact one and reads inside
  the datagram.\<close>

lemma unat_offset: "unat c + k < 2 ^ 64 \<Longrightarrow> unat (c + of_nat k) = unat c + k" for c :: u64
  by (simp add: unat_word_ariths unat_of_nat)

lemma unified_fields_no_wrap:
  assumes "1 + (if c then unat cid_len else 0) + (if s then 2 else 1) + (if l then 2 else 0) < (2 :: nat) ^ 64"
  shows "unified_fields buf cid_len c s l e = Some (exact_fields buf (unat cid_len) c s l e)"
proof -
  define w2 where "w2 = (if c then 1 + cid_len else 1)"
  define w3 where "w3 = (if s then w2 + 2 else w2 + 1)"
  define w4 where "w4 = (if l then w3 + 2 else w3)"
  have need: "1 + (if c then cid_len else 0) + (if s then 2 else 1) + (if l then 2 else 0) = w4"
    by (simp add: w4_def w3_def w2_def)
  have w2: "unat w2 = 1 + (if c then unat cid_len else 0)"
    using assms unat_offset [of cid_len 1] by (simp add: w2_def add.commute split: if_splits)
  have w3: "unat w3 = unat w2 + (if s then 2 else 1)" "s \<Longrightarrow> unat (w2 + 1) = unat w2 + 1"
    using assms unat_offset [of w2 1] unat_offset [of w2 2] unfolding w3_def w2 by (simp_all split: if_splits)
  have w4: "unat w4 = unat w3 + (if l then 2 else 0)" "l \<Longrightarrow> unat (w3 + 1) = unat w3 + 1"
    using assms unat_offset [of w3 1] unat_offset [of w3 2] unfolding w4_def by (simp_all add: w3(1) w2 split: if_splits)
  show ?thesis
    unfolding unified_fields_def exact_fields_def Let_def need w2_def [symmetric] w3_def [symmetric] w4_def [symmetric]
      w2 [symmetric] w3(1) [symmetric] w4(1) [symmetric]
    using w2 w3 w4 by auto
qed

lemma unified_parse_no_wrap:
  assumes "1 + unat cid_len + (if buf ! 0 AND ND_UNIFIED_SEQLEN_BIT \<noteq> 0 then 2 else 1) +
      (if buf ! 0 AND ND_UNIFIED_LEN_BIT \<noteq> 0 then 2 else 0) < (2 :: nat) ^ 64"
  shows "nd_unified_parse (Buf buf) cid_len = Some (unified_parse_exact buf (unat cid_len))"
proof -
  have "cid_len = 0 \<longleftrightarrow> unat cid_len = 0" by (simp add: unat_eq_0)
  moreover have "unified_fields buf cid_len c (buf ! 0 AND ND_UNIFIED_SEQLEN_BIT \<noteq> 0) (buf ! 0 AND ND_UNIFIED_LEN_BIT \<noteq> 0) e =
      Some (exact_fields buf (unat cid_len) c (buf ! 0 AND ND_UNIFIED_SEQLEN_BIT \<noteq> 0) (buf ! 0 AND ND_UNIFIED_LEN_BIT \<noteq> 0) e)" for c e
    using assms by (intro unified_fields_no_wrap) (simp split: if_splits)
  ultimately show ?thesis by (simp add: unified_parse_exact_def Let_def)
qed
lemma unified_parse_written:
  assumes ser: "nd_unified_serialize (Some hdr) (Buf payload) cap = Inr out"
    and wf: "unified_hdr_wf hdr"
    and rest: "uh_length_present hdr \<or> (rest = [] \<and> length payload \<le> 0xFFFF)"
  shows "unified_parse_exact (out @ rest) (uh_cid_len hdr) =
           Inr (hdr\<lparr>uh_length := of_nat (length payload)\<rparr>, length out - length payload, payload)"
proof -
  note bits = unified_first_byte_bits [of hdr]
  have ep: "uh_epoch_low2 hdr AND ND_UNIFIED_EPOCH_MASK = uh_epoch_low2 hdr"
    using wf and_low_mask [of "uh_epoch_low2 hdr" 2]
    by (simp add: unified_hdr_wf_def word_le_nat_alt mask_numeral)
  let ?cid = "if uh_cid_present hdr then take (uh_cid_len hdr) (the (uh_cid hdr)) else []"
  let ?seq = "if uh_seq_len_is_16bit hdr then put_be16 (uh_sequence_number hdr)
                   else [ucast (uh_sequence_number hdr)]"
  let ?len = "if uh_length_present hdr then put_be16 (of_nat (length payload)) else []"
  have out: "out = [unified_first_byte hdr] @ ?cid @ ?seq @ ?len @ payload"
    and g1: "\<not> (uh_cid_present hdr \<and> (uh_cid hdr = None \<or> uh_cid_len hdr = 0))"
    and g2: "\<not> (\<not> uh_seq_len_is_16bit hdr \<and> uh_sequence_number hdr > 0xFF)"
    and g3: "\<not> (uh_length_present hdr \<and> length payload > 0xFFFF)"
    using ser by (simp_all add: Let_def)
  have sq: "\<not> uh_seq_len_is_16bit hdr \<Longrightarrow> ucast (ucast (uh_sequence_number hdr) :: byte) = uh_sequence_number hdr"
    using g2 by (simp add: ucast_byte16 take_bit_wire not_less word_le_nat_alt)
  show ?thesis
  proof (cases "uh_cid hdr")
    case None
    then have c: "\<not> uh_cid_present hdr" "uh_cid_len hdr = 0" using wf by (auto simp: unified_hdr_wf_def)
    show ?thesis
    using rest g1 g2 g3 c None
    by (cases "uh_seq_len_is_16bit hdr"; cases "uh_length_present hdr")
      (simp_all add: unified_parse_exact_def exact_fields_def out Let_def bits ep sq put_be16_def slice_of_def unat_of_nat16)
  next
    case (Some cc)
    then have c: "uh_cid_present hdr" "uh_cid_len hdr = length cc" using wf by (auto simp: unified_hdr_wf_def)
    show ?thesis
    using rest g1 g2 g3 c Some
    by (cases "uh_seq_len_is_16bit hdr"; cases "uh_length_present hdr")
      (simp_all add: unified_parse_exact_def exact_fields_def out Let_def bits ep sq put_be16_def slice_of_def unat_of_nat16 nth_append)
  qed
qed

lemma unified_parse_written64:
  fixes cap :: u64
  assumes ser: "nd_unified_serialize (Some hdr) (Buf payload) (unat cap) = Inr out"
    and wf: "unified_hdr_wf hdr"
    and rest: "uh_length_present hdr \<or> (rest = [] \<and> length payload \<le> 0xFFFF)"
  shows "nd_unified_parse (Buf (out @ rest)) (of_nat (uh_cid_len hdr)) =
           Some (Inr (hdr\<lparr>uh_length := of_nat (length payload)\<rparr>, length out - length payload, payload))"
proof -
  have bits: "(unified_first_byte hdr AND ND_UNIFIED_CID_BIT \<noteq> 0) = uh_cid_present hdr"
    "(unified_first_byte hdr AND ND_UNIFIED_SEQLEN_BIT \<noteq> 0) = uh_seq_len_is_16bit hdr"
    "(unified_first_byte hdr AND ND_UNIFIED_LEN_BIT \<noteq> 0) = uh_length_present hdr"
    using unified_first_byte_bits [of hdr] by simp_all
  have first: "(out @ rest) ! 0 = unified_first_byte hdr"
    and total: "1 + (if uh_cid_present hdr then uh_cid_len hdr else 0) + (if uh_seq_len_is_16bit hdr then 2 else 1) +
        (if uh_length_present hdr then 2 else 0) + length payload \<le> unat cap"
    using ser by (auto simp: Let_def split: if_splits)
  have cid: "\<not> uh_cid_present hdr \<Longrightarrow> uh_cid_len hdr = 0"
    using wf by (auto simp: unified_hdr_wf_def split: option.splits)
  have small: "1 + uh_cid_len hdr + (if uh_seq_len_is_16bit hdr then 2 else 1) +
      (if uh_length_present hdr then 2 else 0) < 2 ^ 64"
    using total cid unat_bound [of cap] by (auto split: if_splits)
  then have u: "unat (of_nat (uh_cid_len hdr) :: u64) = uh_cid_len hdr"
    by (simp add: unat_of_nat split: if_splits)
  have "nd_unified_parse (Buf (out @ rest)) (of_nat (uh_cid_len hdr)) =
      Some (unified_parse_exact (out @ rest) (uh_cid_len hdr))"
    using unified_parse_no_wrap [of "of_nat (uh_cid_len hdr)" "out @ rest"] small unfolding u first bits by blast
  then show ?thesis using unified_parse_written [OF assms] by simp
qed

text \<open>C18: Parsing a serialized unified header gives back the same header, payload and payload
  offset, for every combination of the connection-ID, 16-bit-sequence and length flags; with the
  length field absent the payload is the rest of the datagram.\<close>

theorem unified_parse_serialize:
  fixes cap :: u64
  assumes ser: "nd_unified_serialize (Some hdr) (Buf payload) (unat cap) = Inr out"
    and wf: "unified_hdr_wf hdr"
    and rest: "uh_length_present hdr \<or> (rest = [] \<and> length payload \<le> 0xFFFF)"
  shows "nd_unified_parse (Buf (out @ rest)) (of_nat (uh_cid_len hdr)) =
           Some (Inr (hdr\<lparr>uh_length := of_nat (length payload)\<rparr>, length out - length payload, payload))"
  using assms by (rule unified_parse_written64)

theorem unified_parse_serialize_witness:
  "nd_unified_parse (Buf ([0x3e, 0xaa, 0xbb, 0x12, 0x34, 0, 2, 7, 8] @ [9])) 2 =
     Some (Inr (\<lparr>uh_cid_present = True, uh_seq_len_is_16bit = True, uh_length_present = True,
           uh_epoch_low2 = 2, uh_cid = Some [0xaa, 0xbb], uh_cid_len = 2,
           uh_sequence_number = 0x1234, uh_length = 2\<rparr>, 7, [7, 8]))"
proof -
  let ?hdr = "\<lparr>uh_cid_present = True, uh_seq_len_is_16bit = True,
      uh_length_present = True, uh_epoch_low2 = 2, uh_cid = Some [0xaa, 0xbb], uh_cid_len = 2,
      uh_sequence_number = 0x1234, uh_length = 0\<rparr>"
  have "nd_unified_serialize (Some ?hdr) (Buf [7, 8]) (unat (64 :: u64)) =
    Inr [0x3e, 0xaa, 0xbb, 0x12, 0x34, 0, 2, 7, 8]" and "unified_hdr_wf ?hdr"
    by code_simp+
  from unified_parse_serialize [OF this, of "[9]"] show ?thesis
    by (simp del: nd_unified_parse.simps)
qed

lemma unified_parsed:
  assumes "unified_parse_exact buf cid_len = Inr (hdr, off, payload)"
  shows "nd_unified_serialize (Some hdr) (Buf payload) (length buf) =
           Inr (take (off + length payload) buf) \<and>
         unified_hdr_wf hdr \<and> length payload = unat (uh_length hdr) \<and>
         off + length payload \<le> length buf \<and> payload = slice_of off (length payload) buf"
proof -
  let ?c = "buf ! 0 AND ND_UNIFIED_CID_BIT \<noteq> 0" and ?s = "buf ! 0 AND ND_UNIFIED_SEQLEN_BIT \<noteq> 0"
    and ?l = "buf ! 0 AND ND_UNIFIED_LEN_BIT \<noteq> 0"
  define off2 where "off2 = (if ?c then 1 + cid_len else 1)"
  define off3 where "off3 = (if ?s then off2 + 2 else off2 + 1)"
  define len where "len = (if ?l then be16 (buf ! off3) (buf ! (off3 + 1)) else of_nat (length buf - off))"
  have g: "buf \<noteq> []" "\<not> (?c \<and> cid_len = 0)" "off \<le> length buf" 
    "off = (if ?l then off3 + 2 else off3)"
    "hdr = \<lparr>uh_cid_present = ?c, uh_seq_len_is_16bit = ?s,
                            uh_length_present = ?l, uh_epoch_low2 = buf ! 0 AND ND_UNIFIED_EPOCH_MASK,
                            uh_cid = (if ?c then Some (slice_of 1 cid_len buf) else None), uh_cid_len = (if ?c then cid_len else 0),
                            uh_sequence_number = (if ?s then be16 (buf ! off2) (buf ! (off2 + 1)) else ucast (buf ! off2)), uh_length = len\<rparr>"
    "payload = slice_of off (unat len) buf" "?l \<Longrightarrow> unat len \<le> length buf - off"
    and fixed: "buf ! 0 AND ND_UNIFIED_FIXED_BITS_MASK = ND_UNIFIED_FIXED_BITS_VAL"
    using assms by (auto simp: unified_parse_exact_def exact_fields_def Let_def off2_def off3_def len_def)
  have "unat (of_nat (length buf - off) :: u16) \<le> length buf - off"
    by (simp add: unat_of_nat)
  then have len_le: "unat len \<le> length buf - off"
    using g(7) by (auto simp: len_def)
  have plen: "length payload = unat len"
    using len_le g(3) by (simp add: g(6))
  have t0: "take off2 buf = buf ! 0 # (if ?c then slice_of 1 cid_len buf else [])"
    using g(1) by (cases buf) (auto simp: off2_def slice_of_def)
  have t1: "take off3 buf = take off2 buf @ (if ?s then [buf ! off2, buf ! (off2 + 1)] else [buf ! off2])"
    using g(3,4) by (auto simp: off3_def take_Suc_conv_app_nth split: if_splits)
  have t2: "take off buf = take off3 buf @ (if ?l then [buf ! off3, buf ! (off3 + 1)] else [])"
    using g(3) by (auto simp: g(4) take_Suc_conv_app_nth)
  have t3: "take (off + unat len) buf = take off buf @ payload"
    using len_le g(3) by (simp add: slice_of_split g(6))
  have fb: "unified_first_byte hdr = buf ! 0"
    using fixed by (intro unified_first_byte_parsed) (simp_all add: g(5))
  have wide: "\<not> (ucast b :: u16) > 0xFF" "ucast (ucast b :: u16) = b" for b :: byte
    using unat_bound [of b] by (simp_all add: not_less word_le_nat_alt unsigned_ucast_eq take_bit_nat_eq_self take_bit_word_eq_self)
  have "(buf ! 0 AND mask 2) \<le> mask 2" by (rule word_and_le1)
  then have "buf ! 0 AND 3 \<le> 3" by (simp add: mask_numeral)
  then have hdr_wf: "unified_hdr_wf hdr"
    using g(3) t0 by (auto simp: unified_hdr_wf_def g(5) g(4) off2_def off3_def split: if_splits)
  have "unat len \<le> 0xFFFF" using unat_bound [of len] by simp
  moreover have "put_be16 len = [buf ! off3, buf ! (off3 + 1)]" if ?l
    using that by (simp add: len_def)
  moreover have "off2 = 1 + (if ?c then cid_len else 0)"
    by (simp add: off2_def)
  ultimately have ser: "nd_unified_serialize (Some hdr) (Buf payload) (length buf) =
      Inr (take (off + length payload) buf)"
    using g(2,3) len_le fb unfolding plen t3 t2 t1 t0
    by (auto simp: g(4,5) plen wide Let_def off3_def slice_of_def)
  have "length payload = unat (uh_length hdr)" "off + length payload \<le> length buf"
    "payload = slice_of off (length payload) buf"
    using len_le g(3) by (auto simp: plen g(5,6))
  with ser hdr_wf show ?thesis by blast
qed

lemma unified_parse_inside:
  assumes "unat cid_len + 5 < 2 ^ 64"
  shows "nd_unified_parse (Buf buf) cid_len = Some (unified_parse_exact buf (unat cid_len))"
  using assms by (intro unified_parse_no_wrap) (simp split: if_splits)

lemma unified_parse_no_cid: "nd_unified_parse (Buf buf) 0 = Some (unified_parse_exact buf 0)"
  using unified_parse_inside [of 0 buf] by simp

lemma unified_fields_max: "unified_fields buf (- 1) c s l e \<noteq> None"
  by (cases c; cases s; cases l) (auto simp: unified_fields_def Let_def unat_eq_0 split: if_splits)

text \<open>C19: Whatever \<^verbatim>\<open>nd_unified_parse\<close> accepts is canonical and stays inside the datagram: for every
  connection-ID length at which the length of the header does not wrap around, the parsed header is well
  formed, the payload is the slice of the datagram at the returned offset with the length of the header's
  length field, and serializing header and payload reproduces the bytes that were read.\<close>

theorem unified_serialize_parse:
  assumes "unat cid_len + 5 < 2 ^ 64" and "nd_unified_parse (Buf buf) cid_len = Some (Inr (hdr, off, payload))"
  shows "nd_unified_serialize (Some hdr) (Buf payload) (length buf) =
           Inr (take (off + length payload) buf) \<and>
         unified_hdr_wf hdr \<and> length payload = unat (uh_length hdr) \<and>
         off + length payload \<le> length buf \<and> payload = slice_of off (length payload) buf"
  using assms(2) unfolding unified_parse_inside [OF assms(1)] option.inject by (rule unified_parsed)

theorem unified_serialize_parse_witness:
  "nd_unified_serialize (Some \<lparr>uh_cid_present = False, uh_seq_len_is_16bit = False,
      uh_length_present = False, uh_epoch_low2 = 3, uh_cid = None, uh_cid_len = 0,
      uh_sequence_number = 0x41, uh_length = 3\<rparr>) (Buf [1, 2, 3]) 5 = Inr [0x23, 0x41, 1, 2, 3]"
proof -
  have "nd_unified_parse (Buf [0x23, 0x41, 1, 2, 3]) 0 =
    Some (Inr (\<lparr>uh_cid_present = False, uh_seq_len_is_16bit = False,
      uh_length_present = False, uh_epoch_low2 = 3, uh_cid = None, uh_cid_len = 0,
      uh_sequence_number = 0x41, uh_length = 3\<rparr>, 2, [1, 2, 3]))"
    by (simp add: unified_fields_def be16_def slice_of_def Let_def)
  moreover have "unat (0 :: u64) + 5 < 2 ^ 64" by simp
  ultimately have "nd_unified_serialize (Some \<lparr>uh_cid_present = False, uh_seq_len_is_16bit = False,
      uh_length_present = False, uh_epoch_low2 = 3, uh_cid = None, uh_cid_len = 0,
      uh_sequence_number = 0x41, uh_length = 3\<rparr>) (Buf [1, 2, 3]) (length [0x23, 0x41, 1, 2, 3 :: byte]) =
      Inr (take (2 + length [1, 2, 3 :: byte]) [0x23, 0x41, 1, 2, 3])"
    using unified_serialize_parse by blast
  then show ?thesis by (simp add: eval_nat_numeral del: nd_unified_serialize.simps)
qed

text \<open>C20: The parser reads inside every datagram for exactly those connection-ID lengths that are not among
  the four values \<open>2\<^sup>6\<^sup>4 - 5\<close> to \<open>2\<^sup>6\<^sup>4 - 2\<close>, at which the length of the header wraps around and passes the
  check against the datagram.\<close>

theorem unified_parse_out_of_bounds_iff:
  "(\<exists>buf. nd_unified_parse (Buf buf) cid_len = None) \<longleftrightarrow>
     2 ^ 64 - 5 \<le> unat cid_len \<and> unat cid_len \<le> 2 ^ 64 - 2"
proof
  assume "\<exists>buf. nd_unified_parse (Buf buf) cid_len = None"
  then obtain buf where none: "nd_unified_parse (Buf buf) cid_len = None" by blast
  then have big: "\<not> unat cid_len + 5 < 2 ^ 64" using unified_parse_inside [of cid_len buf] by fastforce
  have "cid_len \<noteq> - 1"
  proof
    assume "cid_len = - 1"
    with none show False
      by (simp add: unified_fields_max Let_def del: not_None_eq split: if_splits)
  qed
  moreover have "(of_nat (2 ^ 64 - 1) :: u64) = - 1" by (simp add: word_eq_iff_unsigned)
  ultimately have "cid_len \<noteq> of_nat (2 ^ 64 - 1)" by (simp only: not_False_eq_True)
  then have "unat cid_len \<noteq> 2 ^ 64 - 1" by (auto dest: arg_cong [where f = "of_nat :: nat \<Rightarrow> u64"] simp del: of_nat_diff)
  then show "2 ^ 64 - 5 \<le> unat cid_len \<and> unat cid_len \<le> 2 ^ 64 - 2"
    using big unat_bound [of cid_len] by simp
next
  assume "2 ^ 64 - 5 \<le> unat cid_len \<and> unat cid_len \<le> 2 ^ 64 - 2"
  then have "unat cid_len \<in> {0xFFFFFFFFFFFFFFFB, 0xFFFFFFFFFFFFFFFC, 0xFFFFFFFFFFFFFFFD, 0xFFFFFFFFFFFFFFFE}" by auto
  then have "(of_nat (unat cid_len) :: u64) \<in> {0xFFFFFFFFFFFFFFFB, 0xFFFFFFFFFFFFFFFC, 0xFFFFFFFFFFFFFFFD, 0xFFFFFFFFFFFFFFFE}"
    by (elim insertE emptyE) (simp_all only: of_nat_numeral insert_iff simp_thms)
  then have "cid_len \<in> {0xFFFFFFFFFFFFFFFB, 0xFFFFFFFFFFFFFFFC, 0xFFFFFFFFFFFFFFFD, 0xFFFFFFFFFFFFFFFE}"
    unfolding of_nat_unat ucast_id .
  then have "nd_unified_parse (Buf [0x3C, 0, 0]) cid_len = None"
    by (auto simp: unified_fields_def Let_def)
  then show "\<exists>buf. nd_unified_parse (Buf buf) cid_len = None" by blast
qed

section \<open>The reconstructed epoch\<close>

lemma epoch_quarters:
  fixes h :: int
  assumes "0 \<le> h" "h \<le> 0xFFFF"
  obtains q r where "h = 4 * q + r" "0 \<le> r" "r < 4" "0 \<le> q" "q \<le> 0x3FFF" "(4 * q + r) mod 4 = r"
proof
  show "h = 4 * (h div 4) + h mod 4" by simp
  show "0 \<le> h mod 4" "h mod 4 < 4" by simp_all
  show "0 \<le> h div 4" using assms by (simp add: pos_imp_zdiv_nonneg_iff)
  show "h div 4 \<le> 0x3FFF" using assms by linarith
  show "(4 * (h div 4) + h mod 4) mod 4 = h mod 4" by simp
qed

lemma epoch_fold:
  assumes "0 \<le> l" "l < 4"
  shows "fst (fold (epoch_window h (uint h - uint h mod 4) l) [-1, 0, 1] (-1, 0x7fffffff)) =
           epoch_best (uint h) l"
proof -
  obtain q r where h: "uint h = 4 * q + r" "0 \<le> r" "r < 4" "0 \<le> q" "q \<le> 0x3FFF"
    and hm: "(4 * q + r) mod 4 = r"
    using uint16_range by (rule epoch_quarters)
  show ?thesis
    using assms h(2-) unfolding epoch_best_def h(1) hm epoch_window_def
    by (auto simp: Let_def)
qed

lemma epoch_best_range:
  assumes "0 \<le> h" "h \<le> 0xFFFF" "0 \<le> l" "l < 4"
  shows "0 \<le> epoch_best h l" "epoch_best h l \<le> 0xFFFF" "epoch_best h l mod 4 = l"
proof -
  obtain q r where h: "h = 4 * q + r" "0 \<le> r" "r < 4" "0 \<le> q" "q \<le> 0x3FFF"
    and hm: "(4 * q + r) mod 4 = r"
    using assms(1,2) by (rule epoch_quarters)
  show "0 \<le> epoch_best h l" "epoch_best h l \<le> 0xFFFF"
    using assms h(2-) unfolding epoch_best_def h(1) hm by (auto simp: Let_def)
  have "(4 * q + l) mod 4 = l" "(4 * q + l - 4) mod 4 = l" "(4 * q + l + 4) mod 4 = l"
    using assms(3,4) by presburger+
  then show "epoch_best h l mod 4 = l"
    unfolding epoch_best_def h(1) hm by (simp add: Let_def)
qed

lemma uint_reconstruct_epoch:
  "uint (nd_reconstruct_epoch h w) = epoch_best (uint h) (uint w mod 4)"
proof -
  have m: "(3 :: int) = mask 2" "(3 :: byte) = mask 2" by (simp_all add: mask_numeral)
  have l: "uint (w AND 3) = uint w mod 4"
    by (simp only: m uint_and_mask) simp
  have b: "uint h AND NOT 3 = uint h - uint h mod 4"
    by (simp only: m and_not_mask_int) simp
  have lr: "0 \<le> uint w mod 4" "uint w mod 4 < 4" by simp_all
  have "nd_reconstruct_epoch h w = word_of_int (epoch_best (uint h) (uint w mod 4))"
    unfolding nd_reconstruct_epoch_def l b using epoch_fold [OF lr, of h]
    by (simp add: Let_def split_def)
  then show ?thesis
    using epoch_best_range [OF uint16_range [of h] lr] by (simp add: uint_word_of_int)
qed

lemma epoch_best_nearest:
  assumes "0 \<le> h" "h \<le> 0xFFFF" "0 \<le> l" "l < 4" "0 \<le> e" "e \<le> 0xFFFF" "e mod 4 = l"
  shows "\<bar>epoch_best h l - h\<bar> < \<bar>e - h\<bar> \<or>
         \<bar>epoch_best h l - h\<bar> = \<bar>e - h\<bar> \<and> epoch_best h l \<le> e"
proof -
  obtain q r where h: "h = 4 * q + r" "0 \<le> r" "r < 4" "0 \<le> q" "q \<le> 0x3FFF"
    and hm: "(4 * q + r) mod 4 = r"
    using assms(1,2) by (rule epoch_quarters)
  define p where "p = e div 4"
  have e: "e = 4 * p + l" using assms(7) by (auto simp: p_def)
  consider "p \<le> q - 2" | "p = q - 1" | "p = q" | "p = q + 1" | "q + 2 \<le> p" by linarith
  then show ?thesis
    using assms(3-6) h(2-) unfolding epoch_best_def h(1) e hm Let_def by cases auto
qed

text \<open>Among all epochs with the two low bits seen on the wire, \<^verbatim>\<open>nd_reconstruct_epoch\<close> returns
  the one numerically closest to the reference epoch, and the lower one on a tie.\<close>

theorem reconstruct_epoch_nearest:
  fixes h e :: u16 and w :: byte
  assumes "uint e mod 4 = uint w mod 4"
  shows "\<bar>uint (nd_reconstruct_epoch h w) - uint h\<bar> < \<bar>uint e - uint h\<bar> \<or>
         \<bar>uint (nd_reconstruct_epoch h w) - uint h\<bar> = \<bar>uint e - uint h\<bar> \<and>
         nd_reconstruct_epoch h w \<le> e"
  using epoch_best_nearest [OF uint16_range [of h] _ _ uint16_range [of e] assms]
  by (simp add: uint_reconstruct_epoch word_le_def)

theorem reconstruct_epoch_nearest_witness:
  "uint (5 :: u16) mod 4 = uint (1 :: byte) mod 4 \<and> nd_reconstruct_epoch 3 1 \<le> 5"
  using reconstruct_epoch_nearest [of 5 1 3] by (simp add: uint_reconstruct_epoch epoch_best_def)

lemma epoch_exact:
  assumes "uint h - 2 \<le> uint e" "uint e \<le> uint h + 1"
  shows "nd_reconstruct_epoch h (ucast e) = e"
proof -
  have "uint (ucast e :: byte) mod 4 = uint e mod 4"
    by (simp add: unsigned_ucast_eq take_bit_eq_mod mod_mod_cancel)
  then have u: "uint (nd_reconstruct_epoch h (ucast e)) = epoch_best (uint h) (uint e mod 4)"
    by (simp add: uint_reconstruct_epoch)
  have "epoch_best (uint h) (uint e mod 4) = uint e"
  proof -
   obtain q r where h: "uint h = 4 * q + r" "0 \<le> r" "r < 4" "0 \<le> q" "q \<le> 0x3FFF"
    and hm: "(4 * q + r) mod 4 = r"
    using uint16_range by (rule epoch_quarters)
   obtain p s where e: "uint e = 4 * p + s" "0 \<le> s" "s < 4" "0 \<le> p" "p \<le> 0x3FFF"
    and em: "(4 * p + s) mod 4 = s"
    using uint16_range by (rule epoch_quarters)
    consider "p \<le> q - 2" | "p = q - 1" | "p = q" | "p = q + 1" | "q + 2 \<le> p" by linarith
    then show ?thesis
      using assms h(2-) e(2-) unfolding epoch_best_def h(1) e(1) hm em Let_def by cases auto
  qed
  then show ?thesis by (simp add: u word_uint_eq_iff)
qed

text \<open>C21: An epoch at most two below and one above the reference is reconstructed exactly from its
  two low bits.\<close>

theorem reconstruct_epoch_exact:
  assumes "uint h - 2 \<le> uint e" "uint e \<le> uint h + 1"
  shows "nd_reconstruct_epoch h (ucast e) = e"
  using assms by (rule epoch_exact)

theorem reconstruct_epoch_exact_witness: "nd_reconstruct_epoch 3 (ucast (4 :: u16)) = 4"
  using reconstruct_epoch_exact [of 3 4] by simp

section \<open>The reconstructed sequence number\<close>

lemma seq_window_uint:
  assumes "uint base < 2 ^ 63" "uint win < 2 ^ 63" "uint tr < 2 ^ 63"
    and c: "c = uint base + wn * uint win + uint tr" and dc: "\<bar>c - uint h\<bar> = dc"
  shows "seq_window h base win tr wn (b, d) =
     (if 0 \<le> c \<and> c \<le> 0xFFFFFFFFFFFF \<and> dc < uint d then (word_of_int c, word_of_int dc)
      else (b, d))"
proof -
  let ?u = "word_of_int c :: u64"
  let ?dist = "if ?u > h then ?u - h else h - ?u"
  have unf: "seq_window h base win tr wn (b, d) =
      (if c < 0 \<or> c > 0xFFFFFFFFFFFF then (b, d) else if ?dist < d then (?u, ?dist) else (b, d))"
    using assms(1-3) by (simp add: seq_window_def sint_small c Let_def)
  show ?thesis
  proof (cases "0 \<le> c \<and> c \<le> 0xFFFFFFFFFFFF")
    case True
    then have "uint ?u = c" by (simp add: uint_of_int64)
    then have dist: "uint ?dist = dc" by (simp only: uint_abs_diff dc)
    have "?dist = word_of_int dc" by (simp only: dist [symmetric] word_of_int_uint)
    moreover have "?dist < d \<longleftrightarrow> dc < uint d"
      by (subst word_less_def) (simp only: dist)
    ultimately show ?thesis using True unfolding unf by (simp only: not_less [symmetric] if_False simp_thms)
  qed (auto simp: unf)
qed

lemma uint_reconstruct_seq:
  fixes h :: u64 and w :: u16
  assumes h0: "uint h < 2 ^ 48" and wb: "wb = 8 \<or> wb = 16"
  shows "uint (nd_reconstruct_sequence_number h w wb) = seq_best (2 ^ wb) (uint h) (uint w mod 2 ^ wb)"
proof -
  define W where "W = (2 ^ wb :: int)"
  define win where "win = (push_bit wb 1 :: u64)"
  define base where "base = h AND NOT (win - 1)"
  define tr where "tr = (ucast w :: u64) AND (win - 1)"
  have W: "W = 256 \<or> W = 65536" using wb by (auto simp: W_def)
  have win: "uint win = W" using wb by (auto simp: win_def W_def push_bit_one)
  have msk: "win - 1 = mask wb" by (simp add: win_def mask_eq_decr_exp push_bit_one)
  have "uint (ucast w :: u64) = uint w" by (simp add: unsigned_ucast_eq bintr_uint)
  then have tr: "uint tr = uint w mod W"
    by (simp only: tr_def msk uint_and_mask W_def)
  have base: "uint base = uint h - uint h mod W"
    by (simp only: base_def msk uint_and_not_mask W_def)
  define Q r l where "Q = uint h - uint h mod W" and "r = uint h mod W" and "l = uint w mod W"
  have h: "uint h = Q + r" by (simp add: Q_def r_def)
  have bounds: "0 \<le> Q" "0 \<le> r" "r < W" "0 \<le> l" "l < W" "Q + r < 2 ^ 48"
    using W h0 by (auto simp: Q_def r_def l_def zmod_le_nonneg_dividend)
  have base': "uint base = Q" and tr': "uint tr = l"
    by (simp_all add: base tr Q_def l_def)
  define best0 where "best0 = base + tr"
  define d0 where "d0 = (if best0 > h then best0 - h else h - best0)"
  have b0: "uint best0 = Q + l"
    unfolding best0_def using W bounds base' tr'
    by (subst uint_add_lem [THEN iffD1]) auto
  have d0: "uint d0 = \<bar>l - r\<bar>"
    by (simp only: d0_def uint_abs_diff b0 h add_diff_cancel_left)
  have st: "nd_reconstruct_sequence_number h w wb =
      fst (seq_window h base win tr 1 (seq_window h base win tr (-1) (best0, d0)))"
    by (simp add: nd_reconstruct_sequence_number_def Let_def split_def base_def tr_def win_def
       best0_def d0_def)
  have sm: "uint base < 2 ^ 63" "uint win < 2 ^ 63" "uint tr < 2 ^ 63"
    using W bounds by (auto simp: base' tr' win)
  note step = seq_window_uint [OF sm, where h = h, unfolded base' tr' win h]
  let ?c = "Q + l"
  have s1: "seq_window h base win tr (-1) (best0, d0) =
      (if ?c \<ge> W \<and> 2 * (l - r) > W then (word_of_int (?c - W), word_of_int (W + r - l))
       else (best0, d0))"
  proof -
    have eq: "0 \<le> ?c - W \<and> ?c - W \<le> 0xFFFFFFFFFFFF \<and> W + r - l < \<bar>l - r\<bar> \<longleftrightarrow>
        ?c \<ge> W \<and> 2 * (l - r) > W"
      using bounds by auto
    have d1: "\<bar>?c - W - (Q + r)\<bar> = W + r - l" using bounds by simp
    have "?c - W = Q + - 1 * W + l" by simp
    from step [OF this d1] show ?thesis by (simp only: d0 eq)
  qed
  have d2: "\<bar>?c + W - (Q + r)\<bar> = W + l - r" using bounds by simp
  have s2: "seq_window h base win tr 1 (best0, d0) =
      (if 2 * (r - l) > W \<and> ?c + W \<le> 0xFFFFFFFFFFFF
       then (word_of_int (?c + W), word_of_int (W + l - r)) else (best0, d0))"
  proof -
    have eq: "0 \<le> ?c + W \<and> ?c + W \<le> 0xFFFFFFFFFFFF \<and> W + l - r < \<bar>l - r\<bar> \<longleftrightarrow>
        2 * (r - l) > W \<and> ?c + W \<le> 0xFFFFFFFFFFFF"
      using bounds by auto
    have "?c + W = Q + 1 * W + l" by simp
    from step [OF this d2] show ?thesis by (simp only: d0 eq)
  qed
  have s3: "seq_window h base win tr 1 (word_of_int (?c - W), word_of_int (W + r - l)) =
      (word_of_int (?c - W), word_of_int (W + r - l))" if "2 * (l - r) > W"
  proof -
    have u: "uint (word_of_int (W + r - l) :: u64) = W + r - l"
      using bounds W by (intro uint_of_int64) auto
    have le: "(W + l - r < W + r - l) = False" using that bounds by auto
    have "?c + W = Q + 1 * W + l" by simp
    from step [OF this d2] show ?thesis by (simp only: u le simp_thms if_False)
  qed
  have u1: "uint (word_of_int (?c - W) :: u64) = ?c - W" if "?c \<ge> W"
    using that bounds W by (intro uint_of_int64) auto
  have u2: "uint (word_of_int (?c + W) :: u64) = ?c + W" if "?c + W \<le> 0xFFFFFFFFFFFF"
    using that bounds W by (intro uint_of_int64) auto
  have sb: "seq_best (2 ^ wb) (uint h) (uint w mod 2 ^ wb) =
      (if ?c \<ge> W \<and> 2 * (l - r) > W then ?c - W
       else if 2 * (r - l) > W \<and> ?c + W \<le> 0xFFFFFFFFFFFF then ?c + W else ?c)"
    unfolding seq_best_def Let_def W_def [symmetric] l_def [symmetric] r_def [symmetric]
    by (simp only: conj_commute h add_diff_cancel_right')
  show ?thesis
  proof (cases "?c \<ge> W \<and> 2 * (l - r) > W")
    case True
    then show ?thesis
      unfolding st s1 sb by (simp only: s3 u1 if_True fst_conv simp_thms)
  next
    case False
    have "uint (fst (seq_window h base win tr 1 (best0, d0))) =
        (if 2 * (r - l) > W \<and> ?c + W \<le> 0xFFFFFFFFFFFF then ?c + W else ?c)"
    proof (cases "2 * (r - l) > W \<and> ?c + W \<le> 0xFFFFFFFFFFFF")
      case True
      then show ?thesis unfolding s2 by (simp only: u2 if_True fst_conv simp_thms)
    next
      case False
      then show ?thesis unfolding s2 by (simp only: b0 if_False fst_conv)
    qed
    with False show ?thesis
      unfolding st s1 sb by (simp only: if_False)
  qed
qed

lemma seq_best_exact_step:
  assumes W: "W = 256 \<or> W = 65536" and b: "0 \<le> r" "r < W" "0 \<le> l" "l < (W::int)"
    and t: "0 \<le> p * W + l" "p * W + l \<le> 0xFFFFFFFFFFFF"
    and d: "2 * \<bar>(p * W + l) - (q * W + r)\<bar> < W"
  shows "(let c = q * W + l in
     if 2 * (l - r) > W \<and> c \<ge> W then c - W
     else if 2 * (r - l) > W \<and> c + W \<le> 0xFFFFFFFFFFFF then c + W else c) = p * W + l"
proof -
  have d': "2 * ((p * W + l) - (q * W + r)) < W" "2 * ((q * W + r) - (p * W + l)) < W"
    using d abs_ge_self [of "(p * W + l) - (q * W + r)"] abs_ge_minus_self [of "(p * W + l) - (q * W + r)"]
    by simp_all
  consider "p \<le> q - 2" | "p = q - 1" | "p = q" | "p = q + 1" | "p \<ge> q + 2" by linarith
  then show ?thesis
  proof cases
    case 1
    then have False using W b d' by auto
    then show ?thesis ..
  next
    case 2
    have "q * W + l \<ge> W" "2 * (l - r) > W" using 2 d' t unfolding 2 left_diff_distrib by simp_all
    then show ?thesis unfolding Let_def 2 left_diff_distrib by simp
  next
    case 3
    have "\<not> 2 * (l - r) > W" "\<not> 2 * (r - l) > W" using 3 d' by simp_all
    then show ?thesis unfolding Let_def using 3 by simp
  next
    case 4
    have "q * W + l + W \<le> 0xFFFFFFFFFFFF" "2 * (r - l) > W" "\<not> 2 * (l - r) > W"
      using 4 d' t b unfolding 4 distrib_right by simp_all
    then show ?thesis unfolding Let_def 4 distrib_right by simp
  next
    case 5
    then have False using W b d' by auto
    then show ?thesis ..
  qed
qed

lemma seq_best_exact:
  assumes W: "W = 256 \<or> W = 65536" and t: "0 \<le> t" "t < 2 ^ 48"
    and d: "2 * \<bar>t - h\<bar> < W"
  shows "seq_best W h (t mod W) = t"
proof -
  have eqs: "h = h div W * W + h mod W" "t = t div W * W + t mod W" by simp_all
  have b: "0 \<le> h mod W" "h mod W < W" "0 \<le> t mod W" "t mod W < W" using W by auto
  have "h - h mod W = h div W * W" by (simp add: minus_mod_eq_div_mult)
  moreover have "t \<le> 0xFFFFFFFFFFFF" using t by simp
  ultimately show ?thesis
    using seq_best_exact_step [OF W b, of "t div W" "h div W"] t d
    unfolding seq_best_def by (simp only: eqs [symmetric])
qed

lemma sequence_number_exact:
  fixes t h :: u64
  assumes wb: "wb = 8 \<or> wb = 16" and t: "uint t < 2 ^ 48" and h: "uint h < 2 ^ 48"
    and d: "2 * \<bar>uint t - uint h\<bar> < 2 ^ wb"
  shows "nd_reconstruct_sequence_number h (ucast t) wb = t"
proof -
  have "uint (ucast t :: u16) mod 2 ^ wb = uint t mod 2 ^ wb"
    using wb by (auto simp: unsigned_ucast_eq take_bit_eq_mod mod_mod_cancel)
  moreover have "seq_best (2 ^ wb) (uint h) (uint t mod 2 ^ wb) = uint t"
    using wb t d by (intro seq_best_exact) auto
  ultimately have "uint (nd_reconstruct_sequence_number h (ucast t) wb) = uint t"
    by (simp only: uint_reconstruct_seq [OF h wb])
  then show ?thesis by (simp only: word_uint_eq_iff)
qed

text \<open>C22: A 48-bit sequence number less than half a window away from the reference is
  reconstructed exactly from the 8 or 16 bits the wire carries.\<close>

theorem reconstruct_sequence_number_exact:
  fixes t h :: u64
  assumes wb: "wb = 8 \<or> wb = 16" and t: "uint t < 2 ^ 48" and h: "uint h < 2 ^ 48"
    and d: "2 * \<bar>uint t - uint h\<bar> < 2 ^ wb"
  shows "nd_reconstruct_sequence_number h (ucast t) wb = t"
  using assms by (rule sequence_number_exact)

theorem reconstruct_sequence_number_exact_witness:
  "nd_reconstruct_sequence_number 0x1FFFE (ucast (0x20001 :: u64)) 8 = 0x20001"
  using reconstruct_sequence_number_exact [of 8 "0x20001" "0x1FFFE"] by simp

end
