(* ===== verification/Replay.thy ===== *)
theory Replay
  imports Prelude
begin

text \<open>
  The anti-replay window of \<^verbatim>\<open>src/replay.c\<close> and \<^verbatim>\<open>include/nanodtls/replay.h\<close>: a 64-bit bitmap
  trailing the highest sequence number accepted. The abstract state is the set of the sequence
  numbers accepted so far. Shown: the bitmap refines the set, the check is exactly "new high-water
  mark, or within 64 of it and not accepted before", a receiver that follows the documented
  check, authenticate, accept order never delivers a number twice, and it delivers every genuine
  record that is not reordered by 64 or more.
\<close>

unbundle bit_operations_syntax

section \<open>The window\<close>

record nd_replay_window =
  highest_seen :: u64
  bitmap :: u64
  has_received_any :: bool

definition nd_replay_window_init :: nd_replay_window where
  "nd_replay_window_init = \<lparr>highest_seen = 0, bitmap = 0, has_received_any = False\<rparr>"

definition nd_replay_window_check :: "nd_replay_window \<Rightarrow> u64 \<Rightarrow> bool" where
  "nd_replay_window_check w seq =
     (if \<not> has_received_any w then True
      else if seq > highest_seen w then True
      else
        let diff = highest_seen w - seq in
        if diff \<ge> 64 then False
        else (drop_bit (unat diff) (bitmap w)) AND 1 = 0)"

definition nd_replay_window_accept :: "nd_replay_window \<Rightarrow> u64 \<Rightarrow> nd_replay_window" where
  "nd_replay_window_accept w seq =
     (if \<not> has_received_any w then
        w\<lparr>highest_seen := seq, bitmap := 1, has_received_any := True\<rparr>
      else if seq > highest_seen w then
        let shift = seq - highest_seen w;
            bm = (if shift \<ge> 64 then 0 else push_bit (unat shift) (bitmap w))
        in w\<lparr>bitmap := bm OR 1, highest_seen := seq\<rparr>
      else
        let diff = highest_seen w - seq in
        if diff < 64 then w\<lparr>bitmap := bitmap w OR push_bit (unat diff) 1\<rparr> else w)"

text \<open>
  The receive discipline that \<^verbatim>\<open>replay.h\<close> prescribes: check first, accept only after the
  record has been authenticated. An arrival is a sequence number and whether its AEAD tag verifies;
  the result lists the delivered numbers and the window afterwards.
\<close>

fun receive_run ::
  "('w \<Rightarrow> 's \<Rightarrow> bool) \<Rightarrow> ('w \<Rightarrow> 's \<Rightarrow> 'w) \<Rightarrow> 'w \<Rightarrow> ('s \<times> bool) list \<Rightarrow> 's list \<times> 'w" where
  "receive_run check accept w [] = ([], w)"
| "receive_run check accept w ((seq, authentic) # arrivals) =
     (if check w seq \<and> authentic then
        let (delivered, w') = receive_run check accept (accept w seq) arrivals
        in (seq # delivered, w')
      else receive_run check accept w arrivals)"

section \<open>The contract of a replay filter\<close>

text \<open>
  \<open>repr w S\<close>: the filter \<open>w\<close> stands for the set \<open>S\<close> of accepted numbers. A filter must refuse
  every accepted number, and may refuse a new one only when it is stale with respect to the set.
\<close>

locale replay_filter =
  fixes start :: 'w and check :: "'w \<Rightarrow> 's \<Rightarrow> bool" and accept :: "'w \<Rightarrow> 's \<Rightarrow> 'w"
    and repr :: "'w \<Rightarrow> 's set \<Rightarrow> bool" and stale :: "'s set \<Rightarrow> 's \<Rightarrow> bool"
  assumes start_empty: "repr start {}"
    and accept_insert: "repr w S \<Longrightarrow> repr (accept w s) (insert s S)"
    and check_iff: "repr w S \<Longrightarrow> check w s \<longleftrightarrow> s \<notin> S \<and> \<not> stale S s"
begin

lemma repr_fold_accept: "repr w S \<Longrightarrow> repr (foldl accept w ss) (S \<union> set ss)"
proof (induction ss arbitrary: w S)
  case (Cons s ss)
  from Cons.IH [OF accept_insert [OF Cons.prems]] show ?case by simp
qed simp

lemma check_history: "check (foldl accept start ss) s \<longleftrightarrow> s \<notin> set ss \<and> \<not> stale (set ss) s"
  using check_iff [OF repr_fold_accept [OF start_empty]] by simp

lemma run_delivers_once:
  assumes "repr w S"
  shows "distinct (fst (receive_run check accept w xs)) \<and>
         set (fst (receive_run check accept w xs)) \<inter> S = {} \<and>
         repr (snd (receive_run check accept w xs)) (S \<union> set (fst (receive_run check accept w xs)))"
  using assms
proof (induction xs arbitrary: w S)
  case (Cons x xs)
  obtain s ok where x: "x = (s, ok)" by (cases x)
  show ?case
  proof (cases "check w s \<and> ok")
    case True
    have fresh: "s \<notin> S" using True Cons.prems check_iff by blast
    show ?thesis
      using Cons.IH [OF accept_insert [OF Cons.prems, of s]] fresh True
      by (auto simp: x split_def Let_def)
  next
    case False
    then show ?thesis using Cons.IH [OF Cons.prems] by (auto simp: x)
  qed
qed simp

lemma run_delivers_all:
  assumes "repr w S" and "distinct ss" and "set ss \<inter> S = {}"
    and "\<And>k. k < length ss \<Longrightarrow> \<not> stale (S \<union> set (take k ss)) (ss ! k)"
  shows "fst (receive_run check accept w (map (\<lambda>s. (s, True)) ss)) = ss"
  using assms
proof (induction ss arbitrary: w S)
  case (Cons s ss)
  have "check w s"
    using Cons.prems(4) [of 0] Cons.prems(3) check_iff [OF Cons.prems(1)] by simp
  moreover have "\<not> stale (insert s S \<union> set (take k ss)) (ss ! k)" if "k < length ss" for k
    using Cons.prems(4) [of "Suc k"] that by simp
  then have "fst (receive_run check accept (accept w s) (map (\<lambda>s. (s, True)) ss)) = ss"
    using Cons.prems by (intro Cons.IH [OF accept_insert [OF Cons.prems(1)]]) auto
  ultimately show ?case by (simp add: split_def Let_def)
qed simp

end

section \<open>The bitmap window is a replay filter\<close>

definition window_repr :: "nd_replay_window \<Rightarrow> u64 set \<Rightarrow> bool" where
  "window_repr w S \<longleftrightarrow>
     has_received_any w = (S \<noteq> {}) \<and>
     (S \<noteq> {} \<longrightarrow> highest_seen w \<in> S) \<and>
     (\<forall>x\<in>S. x \<le> highest_seen w) \<and>
     (S \<noteq> {} \<longrightarrow> (\<forall>i<64. bit (bitmap w) i \<longleftrightarrow> (\<exists>x\<in>S. unat (highest_seen w) = unat x + i)))"

text \<open>A number is stale when some accepted number is 64 or more ahead of it.\<close>

definition window_stale :: "u64 set \<Rightarrow> u64 \<Rightarrow> bool" where
  "window_stale S s \<longleftrightarrow> (\<exists>x\<in>S. unat s + 64 \<le> unat x)"

lemma unat_diff: "s \<le> (h :: u64) \<Longrightarrow> unat (h - s) = unat h - unat s"
  by (simp add: unat_sub)

lemma window_check_iff:
  assumes "window_repr w S"
  shows "nd_replay_window_check w s \<longleftrightarrow> s \<notin> S \<and> \<not> window_stale S s"
proof (cases "S = {} \<or> s > highest_seen w")
  case True
  have "unat x < unat s" if "x \<in> S" for x
    using True assms that by (fastforce simp: window_repr_def word_less_nat_alt word_le_nat_alt)
  then have "s \<notin> S \<and> \<not> window_stale S s" by (fastforce simp: window_stale_def)
  with True assms show ?thesis
    by (auto simp: window_repr_def nd_replay_window_check_def)
next
  case False
  then have le: "s \<le> highest_seen w" and ne: "S \<noteq> {}" by auto
  let ?d = "highest_seen w - s"
  have d: "unat ?d = unat (highest_seen w) - unat s" using le by (rule unat_diff)
  have stale: "window_stale S s \<longleftrightarrow> ?d \<ge> 64"
    using assms ne le d
    by (fastforce simp: window_repr_def window_stale_def word_le_nat_alt)
  have "bit (bitmap w) (unat ?d) \<longleftrightarrow> s \<in> S" if "\<not> ?d \<ge> 64"
  proof -
    have "unat (highest_seen w) = unat x + unat ?d \<longleftrightarrow> x = s" for x
      using le by (auto simp: d word_le_nat_alt word_unat_eq_iff)
    moreover have "unat ?d < 64" using that by (simp add: word_le_nat_alt)
    ultimately show ?thesis using assms ne by (auto simp: window_repr_def)
  qed
  moreover have "(drop_bit n (bitmap w) AND 1 = 0) = (\<not> bit (bitmap w) n)" for n
    by (simp add: and_one_eq odd_iff_mod_2_eq_one [symmetric] bit_iff_odd_drop_bit mod_2_eq_odd)
  ultimately show ?thesis
    using assms ne False stale
    by (auto simp: nd_replay_window_check_def window_repr_def Let_def)
qed

lemma window_repr_newest:
  assumes "window_repr w S" "S \<noteq> {}" "highest_seen w < s"
  shows "window_repr (nd_replay_window_accept w s) (insert s S)"
proof -
  let ?H = "highest_seen w" and ?sh = "s - highest_seen w"
  have sh: "unat ?sh = unat s - unat ?H" using assms(3) by (simp add: unat_diff)
  have lt: "unat ?H < unat s" using assms(3) by (simp add: word_less_nat_alt)
  have top: "\<forall>x\<in>S. unat x \<le> unat ?H"
    and bits: "\<And>i. i < 64 \<Longrightarrow> bit (bitmap w) i \<longleftrightarrow> (\<exists>x\<in>S. unat ?H = unat x + i)"
    and any: "has_received_any w"
    using assms(1,2) by (auto simp: window_repr_def word_le_nat_alt)
  let ?bm = "if ?sh \<ge> 64 then 0 else push_bit (unat ?sh) (bitmap w)"
  have "bit (?bm OR 1) i \<longleftrightarrow> (\<exists>x\<in>insert s S. unat s = unat x + i)" if i: "i < 64" for i
  proof -
    have "bit ?bm i \<longleftrightarrow> unat ?sh \<le> i \<and> bit (bitmap w) (i - unat ?sh)"
      using i by (auto simp: bit_simps word_le_nat_alt)
    also have "\<dots> \<longleftrightarrow> (\<exists>x\<in>S. unat s = unat x + i)"
    proof -
      have "unat s = unat x + i \<longleftrightarrow> unat ?sh \<le> i \<and> unat ?H = unat x + (i - unat ?sh)"
        if "x \<in> S" for x
        using top that sh lt by auto
      then show ?thesis using bits [of "i - unat ?sh"] i by auto
    qed
    finally show ?thesis using i by (auto simp: bit_simps)
  qed
  then show ?thesis
    using any assms(3) top lt
    by (auto simp: window_repr_def nd_replay_window_accept_def Let_def word_le_nat_alt
        intro: order_trans less_imp_le)
qed

lemma window_repr_older:
  assumes "window_repr w S" "S \<noteq> {}" "s \<le> highest_seen w"
  shows "window_repr (nd_replay_window_accept w s) (insert s S)"
proof -
  let ?H = "highest_seen w" and ?d = "highest_seen w - s"
  have d: "unat ?H = unat s + unat ?d" using assms(3) by (simp add: unat_diff word_le_nat_alt)
  have bits: "\<And>i. i < 64 \<Longrightarrow> bit (bitmap w) i \<longleftrightarrow> (\<exists>x\<in>S. unat ?H = unat x + i)"
    using assms(1,2) by (auto simp: window_repr_def)
  have "bit (bitmap (nd_replay_window_accept w s)) i \<longleftrightarrow> (\<exists>x\<in>insert s S. unat ?H = unat x + i)"
    if i: "i < 64" for i
    using assms i d bits [OF i]
    by (auto simp: nd_replay_window_accept_def window_repr_def Let_def bit_simps word_less_nat_alt)
  moreover have "highest_seen (nd_replay_window_accept w s) = ?H"
    "has_received_any (nd_replay_window_accept w s)"
    using assms by (auto simp: nd_replay_window_accept_def window_repr_def Let_def)
  ultimately show ?thesis
    using assms by (auto simp: window_repr_def)
qed

lemma window_accept_insert:
  assumes "window_repr w S"
  shows "window_repr (nd_replay_window_accept w s) (insert s S)"
proof (cases "S = {}")
  case True
  with assms show ?thesis
    by (auto simp: window_repr_def nd_replay_window_accept_def bit_1_iff)
next
  case False
  with assms window_repr_newest window_repr_older show ?thesis
    by (cases "highest_seen w < s") auto
qed

interpretation bitmap_window: replay_filter nd_replay_window_init nd_replay_window_check
  nd_replay_window_accept window_repr window_stale
proof
  show "window_repr nd_replay_window_init {}"
    by (simp add: window_repr_def nd_replay_window_init_def)
qed (simp_all add: window_accept_insert window_check_iff)

section \<open>Properties\<close>

text \<open>C15: After any history of accepted sequence numbers, \<^verbatim>\<open>nd_replay_window_check\<close> accepts a number
  exactly when it was not accepted before and no accepted number is 64 or more ahead of it.\<close>

theorem replay_check_history:
  "nd_replay_window_check (foldl nd_replay_window_accept nd_replay_window_init ss) s \<longleftrightarrow>
     s \<notin> set ss \<and> \<not> (\<exists>x\<in>set ss. unat s + 64 \<le> unat x)"
  by (simp add: bitmap_window.check_history window_stale_def)

text \<open>C16: A receiver that checks the window, authenticates, and then accepts delivers no sequence
  number twice, whatever arrives and whichever arrivals are forged.\<close>

theorem replay_no_duplicate_delivery:
  "distinct (fst (receive_run nd_replay_window_check nd_replay_window_accept
      nd_replay_window_init arrivals))"
  using bitmap_window.run_delivers_once [OF bitmap_window.start_empty] by blast

text \<open>C17: Distinct genuine records of which none arrives after one that is 64 or more ahead of it
  are all delivered, in the order of their arrival.\<close>

theorem replay_delivers_reordered:
  assumes "distinct ss"
    and "\<And>i j. i < j \<Longrightarrow> j < length ss \<Longrightarrow> unat (ss ! i) < unat (ss ! j) + 64"
  shows "fst (receive_run nd_replay_window_check nd_replay_window_accept nd_replay_window_init
           (map (\<lambda>s. (s, True)) ss)) = ss"
proof (rule bitmap_window.run_delivers_all [OF bitmap_window.start_empty])
  fix k assume k: "k < length ss"
  have "unat x < unat (ss ! k) + 64" if "x \<in> set (take k ss)" for x
    using that assms(2) k by (auto simp: in_set_conv_nth)
  then show "\<not> window_stale ({} \<union> set (take k ss)) (ss ! k)"
    by (auto simp: window_stale_def not_le)
qed (use assms in auto)

theorem replay_delivers_reordered_witness:
  "fst (receive_run nd_replay_window_check nd_replay_window_accept nd_replay_window_init
      (map (\<lambda>s. (s, True)) [5, 68, 6])) = [5, 68, 6]"
proof (rule replay_delivers_reordered)
  fix i j :: nat
  assume "i < j" "j < length [5, 68, 6 :: u64]"
  then have "(i, j) \<in> {(0, 1), (0, 2), (1, 2)}" by auto
  then show "unat ([5, 68, 6 :: u64] ! i) < unat ([5, 68, 6 :: u64] ! j) + 64" by auto
qed simp

end
