(* ===== verification/Handshake_Header.thy ===== *)
theory Handshake_Header
  imports Prelude
begin

text \<open>
  The 12-byte DTLS handshake header of \<^verbatim>\<open>src/handshake/header.c\<close> and
  \<^verbatim>\<open>include/nanodtls/handshake.h\<close>. Shown: parser and serializer are inverse to each other in
  both directions, and a parsed header has its three length fields within 24 bits, which is what
  the reassembly of fragments relies on.
\<close>

unbundle bit_operations_syntax

abbreviation (input) ND_HS_CLIENT_HELLO :: byte where "ND_HS_CLIENT_HELLO \<equiv> 1"
abbreviation (input) ND_HS_SERVER_HELLO :: byte where "ND_HS_SERVER_HELLO \<equiv> 2"
abbreviation (input) ND_HS_ENCRYPTED_EXTENSIONS :: byte where "ND_HS_ENCRYPTED_EXTENSIONS \<equiv> 8"
abbreviation (input) ND_HS_CERTIFICATE :: byte where "ND_HS_CERTIFICATE \<equiv> 11"
abbreviation (input) ND_HS_CERTIFICATE_VERIFY :: byte where "ND_HS_CERTIFICATE_VERIFY \<equiv> 15"
abbreviation (input) ND_HS_FINISHED :: byte where "ND_HS_FINISHED \<equiv> 20"

abbreviation (input) ND_HANDSHAKE_HDR_LEN :: nat where "ND_HANDSHAKE_HDR_LEN \<equiv> 12"

record nd_handshake_hdr =
  hs_msg_type :: byte
  hs_length :: u32
  hs_message_seq :: u16
  hs_fragment_offset :: u32
  hs_fragment_length :: u32

fun nd_handshake_parse :: "cbuf \<Rightarrow> (nd_handshake_hdr \<times> byte list) result" where
  "nd_handshake_parse (NULL_buf n) = Inl ND_ERR_BAD_ARG"
| "nd_handshake_parse (Buf buf) =
     (if length buf < ND_HANDSHAKE_HDR_LEN then Inl ND_ERR_TRUNCATED
      else
        let hdr = \<lparr>hs_msg_type = buf ! 0,
                   hs_length = be24 (buf ! 1) (buf ! 2) (buf ! 3),
                   hs_message_seq = be16 (buf ! 4) (buf ! 5),
                   hs_fragment_offset = be24 (buf ! 6) (buf ! 7) (buf ! 8),
                   hs_fragment_length = be24 (buf ! 9) (buf ! 10) (buf ! 11)\<rparr>
        in if unat (hs_fragment_length hdr) > length buf - ND_HANDSHAKE_HDR_LEN
           then Inl ND_ERR_BAD_LENGTH
           else Inr (hdr, slice_of ND_HANDSHAKE_HDR_LEN (unat (hs_fragment_length hdr)) buf))"

fun nd_handshake_serialize :: "nd_handshake_hdr ptr \<Rightarrow> cbuf \<Rightarrow> nat \<Rightarrow> byte list result" where
  "nd_handshake_serialize None fragment out_buf_cap = Inl ND_ERR_BAD_ARG"
| "nd_handshake_serialize (Some hdr) fragment out_buf_cap =
     (let fragment_len = cbuf_len fragment in
      if fragment_len > 0 \<and> cbuf_is_null fragment then Inl ND_ERR_BAD_ARG
      else if hs_length hdr > 0xFFFFFF \<or> hs_fragment_offset hdr > 0xFFFFFF \<or>
              hs_fragment_length hdr > 0xFFFFFF then Inl ND_ERR_BAD_ARG
      else if unat (hs_fragment_length hdr) \<noteq> fragment_len then Inl ND_ERR_BAD_ARG
      else
        let total = ND_HANDSHAKE_HDR_LEN + fragment_len in
        if out_buf_cap < total then Inl ND_ERR_BAD_LENGTH
        else Inr ([hs_msg_type hdr] @ put_be24 (hs_length hdr) @ put_be16 (hs_message_seq hdr) @
                  put_be24 (hs_fragment_offset hdr) @ put_be24 (hs_fragment_length hdr) @
                  cbuf_bytes fragment))"

text \<open>What the wire can carry: the three lengths have 24 bits.\<close>

definition handshake_hdr_wf :: "nd_handshake_hdr \<Rightarrow> bool" where
  "handshake_hdr_wf hdr \<longleftrightarrow>
     hs_length hdr \<le> 0xFFFFFF \<and> hs_fragment_offset hdr \<le> 0xFFFFFF \<and> hs_fragment_length hdr \<le> 0xFFFFFF"

lemma take_bit_24: "(v :: u32) \<le> 0xFFFFFF \<Longrightarrow> take_bit 24 v = v"
  by (rule take_bit_wire) (simp add: word_le_nat_alt)

lemma be24_le: "be24 a b c \<le> 0xFFFFFF"
  using be24_bound [of a b c] by (simp add: word_le_nat_alt)

lemma handshake_parse_wf:
  "nd_handshake_parse (Buf buf) = Inr (hdr, fragment) \<Longrightarrow>
     handshake_hdr_wf hdr \<and> length fragment = unat (hs_fragment_length hdr)"
  by (auto simp: Let_def handshake_hdr_wf_def be24_le slice_of_def)

lemma handshake_serialize_eq:
  "nd_handshake_serialize (Some hdr) (Buf fragment) cap = Inr out \<longleftrightarrow>
     handshake_hdr_wf hdr \<and> unat (hs_fragment_length hdr) = length fragment \<and>
     ND_HANDSHAKE_HDR_LEN + length fragment \<le> cap \<and>
     out = [hs_msg_type hdr] @ put_be24 (hs_length hdr) @ put_be16 (hs_message_seq hdr) @
           put_be24 (hs_fragment_offset hdr) @ put_be24 (hs_fragment_length hdr) @ fragment"
  by (auto simp: Let_def handshake_hdr_wf_def not_less)

text \<open>Parsing a serialized handshake fragment, followed by any further bytes, gives back the
  header and the fragment.\<close>

theorem handshake_parse_serialize:
  assumes "nd_handshake_serialize (Some hdr) (Buf fragment) cap = Inr out"
  shows "nd_handshake_parse (Buf (out @ rest)) = Inr (hdr, fragment)"
  using assms unfolding handshake_serialize_eq
  by (auto simp: put_be24_def put_be16_def be24_put take_bit_24 handshake_hdr_wf_def slice_of_def)

theorem handshake_parse_serialize_witness:
  "nd_handshake_parse (Buf ([1, 0, 1, 2, 0, 7, 0, 0, 16, 0, 0, 2, 0xaa, 0xbb] @ [9])) =
     Inr (\<lparr>hs_msg_type = 1, hs_length = 0x102, hs_message_seq = 7, hs_fragment_offset = 16,
           hs_fragment_length = 2\<rparr>, [0xaa, 0xbb])"
proof (rule handshake_parse_serialize)
  show "nd_handshake_serialize (Some \<lparr>hs_msg_type = 1, hs_length = 0x102, hs_message_seq = 7,
      hs_fragment_offset = 16, hs_fragment_length = 2\<rparr>) (Buf [0xaa, 0xbb]) 14 =
    Inr [1, 0, 1, 2, 0, 7, 0, 0, 16, 0, 0, 2, 0xaa, 0xbb]"
    by code_simp
qed

text \<open>Whatever \<^verbatim>\<open>nd_handshake_parse\<close> accepts is canonical: its length fields have 24 bits, and
  serializing header and fragment reproduces the bytes that were read.\<close>

theorem handshake_serialize_parse:
  assumes "nd_handshake_parse (Buf buf) = Inr (hdr, fragment)"
  shows "handshake_hdr_wf hdr \<and>
         nd_handshake_serialize (Some hdr) (Buf fragment) (length buf) =
           Inr (take (ND_HANDSHAKE_HDR_LEN + length fragment) buf)"
proof -
  let ?b = "\<lambda>i. buf ! i"
  have len: "ND_HANDSHAKE_HDR_LEN \<le> length buf"
    using assms by auto
  have hd12: "take 12 buf = [?b 0, ?b 1, ?b 2, ?b 3, ?b 4, ?b 5, ?b 6, ?b 7, ?b 8, ?b 9, ?b 10, ?b 11]"
    using len by (simp add: take_map_nth upt_rec eval_nat_numeral)
  show ?thesis
    using handshake_parse_wf [OF assms] assms len unfolding handshake_serialize_eq
    by (auto simp: Let_def slice_of_def take_add hd12)
qed

theorem handshake_serialize_parse_witness:
  "nd_handshake_serialize (Some \<lparr>hs_msg_type = 20, hs_length = 2, hs_message_seq = 3,
      hs_fragment_offset = 1, hs_fragment_length = 1\<rparr>) (Buf [0x77]) 13 =
    Inr [20, 0, 0, 2, 0, 3, 0, 0, 1, 0, 0, 1, 0x77]"
proof -
  have "nd_handshake_parse (Buf [20, 0, 0, 2, 0, 3, 0, 0, 1, 0, 0, 1, 0x77]) =
    Inr (\<lparr>hs_msg_type = 20, hs_length = 2, hs_message_seq = 3, hs_fragment_offset = 1,
      hs_fragment_length = 1\<rparr>, [0x77])"
    by (simp add: be24_def be16_def slice_of_def)
  from handshake_serialize_parse [OF this] show ?thesis
    by (simp add: eval_nat_numeral del: nd_handshake_serialize.simps)
qed

end
