(* ===== verification/Reassembly.thy ===== *)
theory Reassembly
  imports Handshake_Header
begin

text \<open>
  Reassembly of fragmented handshake messages: \<^verbatim>\<open>src/reassembly.c\<close> and
  \<^verbatim>\<open>include/nanodtls/reassembly.h\<close>. The two arrays of the C struct are lists of
  \<open>ND_REASSEMBLY_MAX_LEN\<close> bytes; a copy outside them is the result \<open>None\<close> (undefined behaviour in
  C), so that memory safety is a theorem and not an assumption.
  Shown: with headers from the parser no access leaves the arrays; fragments of one message fed in
  any order, with repetitions, leave the message in the buffer, and the completeness test answers
  yes exactly when they cover it; without the 24-bit bound of the parser the bounds check wraps.
\<close>

abbreviation (input) ND_REASSEMBLY_MAX_LEN :: nat where "ND_REASSEMBLY_MAX_LEN \<equiv> 4096"

record nd_reassembly =
  rs_buf :: "byte list"
  rs_received :: "byte list"
  rs_total_len :: nat
  rs_total_len_known :: bool
  rs_msg_type :: byte
  rs_message_seq :: u16
  rs_in_progress :: bool

definition nd_reassembly_init :: "nd_reassembly \<Rightarrow> nd_reassembly" where
  "nd_reassembly_init r =
     r\<lparr>rs_total_len := 0, rs_total_len_known := False, rs_msg_type := 0, rs_message_seq := 0,
       rs_in_progress := False, rs_received := replicate ND_REASSEMBLY_MAX_LEN 0\<rparr>"

text \<open>The copies into \<open>buf\<close> and \<open>received\<close> at the end of \<^verbatim>\<open>nd_reassembly_add_fragment\<close>.\<close>

definition store_fragment ::
  "nd_reassembly \<Rightarrow> nat \<Rightarrow> nat \<Rightarrow> byte list \<Rightarrow> (nd_status \<times> nd_reassembly) option" where
  "store_fragment r off len fragment =
     (if len = 0 then Some (ND_OK, r)
      else if off + len > ND_REASSEMBLY_MAX_LEN \<or> len > length fragment then None
      else Some (ND_OK,
             r\<lparr>rs_buf := memcpy_at (rs_buf r) off (take len fragment),
               rs_received := memcpy_at (rs_received r) off (replicate len 1)\<rparr>))"

text \<open>The branch of \<^verbatim>\<open>nd_reassembly_add_fragment\<close> that starts tracking a message.\<close>

definition begin_message :: "nd_reassembly \<Rightarrow> nd_handshake_hdr \<Rightarrow> nd_reassembly" where
  "begin_message r hdr =
     (let total = unat (hs_length hdr) in
      r\<lparr>rs_msg_type := hs_msg_type hdr, rs_message_seq := hs_message_seq hdr,
        rs_total_len := total, rs_total_len_known := True, rs_in_progress := True,
        rs_received := memcpy_at (rs_received r) 0 (replicate total 0)\<rparr>)"

fun nd_reassembly_add_fragment ::
  "nd_reassembly \<Rightarrow> nd_handshake_hdr ptr \<Rightarrow> byte list ptr \<Rightarrow> (nd_status \<times> nd_reassembly) option" where
  "nd_reassembly_add_fragment r (Some hdr) (Some fragment) =
     (if unat (hs_length hdr) > ND_REASSEMBLY_MAX_LEN then Some (ND_ERR_BAD_LENGTH, r)
      else if hs_fragment_offset hdr + hs_fragment_length hdr > hs_length hdr
           then Some (ND_ERR_BAD_LENGTH, r)
      else if \<not> rs_in_progress r then
        store_fragment (begin_message r hdr)
          (unat (hs_fragment_offset hdr)) (unat (hs_fragment_length hdr)) fragment
      else if hs_msg_type hdr \<noteq> rs_msg_type r \<or> hs_message_seq hdr \<noteq> rs_message_seq r
           then Some (ND_ERR_UNSUPPORTED, r)
      else if unat (hs_length hdr) \<noteq> rs_total_len r then Some (ND_ERR_BAD_LENGTH, r)
      else store_fragment r (unat (hs_fragment_offset hdr)) (unat (hs_fragment_length hdr)) fragment)"
| "nd_reassembly_add_fragment r hdr fragment = Some (ND_ERR_BAD_ARG, r)"

definition nd_reassembly_is_complete :: "nd_reassembly \<Rightarrow> bool" where
  "nd_reassembly_is_complete r =
     (if \<not> rs_in_progress r \<or> \<not> rs_total_len_known r then False
      else list_all (\<lambda>i. rs_received r ! i \<noteq> 0) [0..<rs_total_len r])"

text \<open>Feeding a sequence of parsed fragments; the statuses are collected, as a caller that drops
  rejected fragments would see them.\<close>

fun feed_fragments ::
  "nd_reassembly \<Rightarrow> (nd_handshake_hdr \<times> byte list) list \<Rightarrow> (nd_status list \<times> nd_reassembly) option" where
  "feed_fragments r [] = Some ([], r)"
| "feed_fragments r ((hdr, fragment) # fs) =
     (case nd_reassembly_add_fragment r (Some hdr) (Some fragment) of
        None \<Rightarrow> None
      | Some (st, r') \<Rightarrow> map_option (\<lambda>(sts, r''). (st # sts, r'')) (feed_fragments r' fs))"

section \<open>Specification\<close>

text \<open>A fragment of the message \<open>m\<close> with type \<open>t\<close> and number \<open>s\<close>, as a sender cuts it.\<close>

definition fragment_of :: "byte list \<Rightarrow> byte \<Rightarrow> u16 \<Rightarrow> nd_handshake_hdr \<times> byte list \<Rightarrow> bool" where
  "fragment_of m t s = (\<lambda>(hdr, fragment).
     hs_msg_type hdr = t \<and> hs_message_seq hdr = s \<and> unat (hs_length hdr) = length m \<and>
     handshake_hdr_wf hdr \<and>
     unat (hs_fragment_offset hdr) + unat (hs_fragment_length hdr) \<le> length m \<and>
     fragment = slice_of (unat (hs_fragment_offset hdr)) (unat (hs_fragment_length hdr)) m)"

text \<open>A fragment of some other message.\<close>

definition foreign_to :: "byte \<Rightarrow> u16 \<Rightarrow> nd_handshake_hdr \<times> byte list \<Rightarrow> bool" where
  "foreign_to t s = (\<lambda>(hdr, fragment). hs_msg_type hdr \<noteq> t \<or> hs_message_seq hdr \<noteq> s)"

text \<open>The positions of the message that a list of fragments carries.\<close>

fun covered :: "byte \<Rightarrow> u16 \<Rightarrow> (nd_handshake_hdr \<times> byte list) list \<Rightarrow> nat set" where
  "covered t s [] = {}"
| "covered t s ((hdr, fragment) # fs) =
     (if foreign_to t s (hdr, fragment) then covered t s fs
      else {unat (hs_fragment_offset hdr)..<
              unat (hs_fragment_offset hdr) + unat (hs_fragment_length hdr)} \<union> covered t s fs)"

definition reassembly_wf :: "nd_reassembly \<Rightarrow> bool" where
  "reassembly_wf r \<longleftrightarrow>
     length (rs_buf r) = ND_REASSEMBLY_MAX_LEN \<and> length (rs_received r) = ND_REASSEMBLY_MAX_LEN \<and>
     rs_total_len r \<le> ND_REASSEMBLY_MAX_LEN"

text \<open>The state while message \<open>m\<close> is assembled and the positions \<open>C\<close> have arrived.\<close>

definition assembling :: "byte list \<Rightarrow> byte \<Rightarrow> u16 \<Rightarrow> nat set \<Rightarrow> nd_reassembly \<Rightarrow> bool" where
  "assembling m t s C r \<longleftrightarrow>
     reassembly_wf r \<and> rs_in_progress r \<and> rs_total_len_known r \<and> rs_msg_type r = t \<and>
     rs_message_seq r = s \<and> rs_total_len r = length m \<and>
     (\<forall>i<length m. rs_received r ! i \<noteq> 0 \<longleftrightarrow> i \<in> C) \<and>
     (\<forall>i<length m. i \<in> C \<longrightarrow> rs_buf r ! i = m ! i)"

section \<open>Memory safety\<close>

lemma reassembly_init_wf: "length (rs_buf r) = ND_REASSEMBLY_MAX_LEN \<Longrightarrow> reassembly_wf (nd_reassembly_init r)"
  by (simp add: reassembly_wf_def nd_reassembly_init_def)

lemma store_fragment_safe:
  assumes "reassembly_wf r" "off + len \<le> ND_REASSEMBLY_MAX_LEN" "len \<le> length fragment"
  shows "\<exists>r'. store_fragment r off len fragment = Some (ND_OK, r') \<and> reassembly_wf r'"
  using assms by (auto simp: store_fragment_def reassembly_wf_def)

text \<open>Within 24 bits the sum of the fragment's offset and length does not wrap.\<close>

lemma fragment_sum:
  assumes "handshake_hdr_wf hdr"
  shows "unat (hs_fragment_offset hdr + hs_fragment_length hdr) =
    unat (hs_fragment_offset hdr) + unat (hs_fragment_length hdr)"
proof (rule unat_add_lem [THEN iffD1])
  show "unat (hs_fragment_offset hdr) + unat (hs_fragment_length hdr) < 2 ^ LENGTH(32)"
    using assms by (simp add: handshake_hdr_wf_def word_le_nat_alt)
qed

lemma begin_message_wf:
  "reassembly_wf r \<Longrightarrow> unat (hs_length hdr) \<le> ND_REASSEMBLY_MAX_LEN \<Longrightarrow> reassembly_wf (begin_message r hdr)"
  by (simp add: reassembly_wf_def begin_message_def Let_def)

lemma add_fragment_safe:
  assumes "handshake_hdr_wf hdr" "length fragment = unat (hs_fragment_length hdr)" "reassembly_wf r"
  shows "\<exists>st r'. nd_reassembly_add_fragment r (Some hdr) (Some fragment) = Some (st, r') \<and>
           reassembly_wf r'"
proof -
  let ?off = "unat (hs_fragment_offset hdr)" and ?len = "unat (hs_fragment_length hdr)"
  note sum = fragment_sum [OF assms(1)]
  show ?thesis
  proof (cases "unat (hs_length hdr) \<le> ND_REASSEMBLY_MAX_LEN \<and>
      hs_fragment_offset hdr + hs_fragment_length hdr \<le> hs_length hdr")
    case True
    then have "?off + ?len \<le> ND_REASSEMBLY_MAX_LEN"
      by (simp add: word_le_nat_alt sum)
    then have safe: "\<exists>st r'. store_fragment q ?off ?len fragment = Some (st, r') \<and> reassembly_wf r'"
      if "reassembly_wf q" for q
      using store_fragment_safe [OF that, of ?off ?len fragment] assms(2) by auto
    from safe [OF begin_message_wf [of r hdr]] safe [OF assms(3)] show ?thesis
      using True assms(3) by (cases "rs_in_progress r") (simp_all add: not_less)
  next
    case False
    then show ?thesis using assms(3) by (auto simp: not_le)
  qed
qed

section \<open>Reassembly of a message\<close>

lemma store_assembling:
  assumes "assembling m t s C r" "off + len \<le> length m"
  shows "\<exists>r'. store_fragment r off len (slice_of off len m) = Some (ND_OK, r') \<and>
           assembling m t s ({off..<off + len} \<union> C) r'"
proof (cases "len = 0")
  case True
  then show ?thesis using assms(1) by (simp add: store_fragment_def)
next
  case False
  have wf: "length (rs_buf r) = 4096" "length (rs_received r) = 4096" "length m \<le> 4096"
    using assms(1) by (auto simp: assembling_def reassembly_wf_def)
  let ?src = "take len (slice_of off len m)"
  have src: "length ?src = len" using assms(2) by simp
  have "memcpy_at (rs_received r) off (replicate len 1) ! i =
      (if off \<le> i \<and> i < off + len then 1 else rs_received r ! i)"
    and "memcpy_at (rs_buf r) off ?src ! i =
      (if off \<le> i \<and> i < off + len then m ! i else rs_buf r ! i)" if "i < length m" for i
    using that assms(2) wf src by (auto simp: nth_memcpy_at nth_slice_of)
  then show ?thesis
    using assms False wf src
    by (auto simp: store_fragment_def assembling_def reassembly_wf_def)
qed

lemma add_assembling:
  assumes "assembling m t s C r" "fragment_of m t s (hdr, fragment)"
  shows "\<exists>r'. nd_reassembly_add_fragment r (Some hdr) (Some fragment) = Some (ND_OK, r') \<and>
           assembling m t s (covered t s [(hdr, fragment)] \<union> C) r'"
proof -
  note sum = fragment_sum [of hdr]
  have "nd_reassembly_add_fragment r (Some hdr) (Some fragment) =
      store_fragment r (unat (hs_fragment_offset hdr)) (unat (hs_fragment_length hdr)) fragment"
    using assms sum
    by (simp add: fragment_of_def assembling_def reassembly_wf_def word_less_nat_alt not_less)
  with store_assembling [OF assms(1)] assms(2) show ?thesis
    by (auto simp: fragment_of_def foreign_to_def)
qed

lemma add_foreign:
  assumes "assembling m t s C r" "foreign_to t s (hdr, fragment)"
  shows "\<exists>st. nd_reassembly_add_fragment r (Some hdr) (Some fragment) = Some (st, r) \<and> st \<noteq> ND_OK"
  using assms by (auto simp: assembling_def foreign_to_def)

lemma feed_assembling:
  assumes "assembling m t s C r" "\<forall>f\<in>set fs. fragment_of m t s f \<or> foreign_to t s f"
  shows "\<exists>sts r'. feed_fragments r fs = Some (sts, r') \<and> assembling m t s (covered t s fs \<union> C) r'"
  using assms
proof (induction fs arbitrary: r C)
  case (Cons f fs)
  obtain hdr fragment where f: "f = (hdr, fragment)" by (cases f)
  show ?case
  proof (cases "foreign_to t s f")
    case True
    with add_foreign [OF Cons.prems(1)] Cons.IH [OF Cons.prems(1)] Cons.prems(2) show ?thesis
      by (fastforce simp: f)
  next
    case False
    then have "fragment_of m t s (hdr, fragment)" using Cons.prems(2) f by auto
    from add_assembling [OF Cons.prems(1) this] obtain r1
      where r1: "nd_reassembly_add_fragment r (Some hdr) (Some fragment) = Some (ND_OK, r1)"
        "assembling m t s (covered t s [(hdr, fragment)] \<union> C) r1" by blast
    from Cons.IH [OF r1(2)] Cons.prems(2) r1(1) False show ?thesis
      by (fastforce simp: f Un_ac)
  qed
qed simp

lemma begin_assembling:
  assumes "length (rs_buf r) = ND_REASSEMBLY_MAX_LEN" "length m \<le> ND_REASSEMBLY_MAX_LEN"
    and "fragment_of m t s (hdr, fragment)"
  shows "assembling m t s {} (begin_message (nd_reassembly_init r) hdr)"
  using assms
  by (auto simp: assembling_def begin_message_def nd_reassembly_init_def fragment_of_def Let_def
      reassembly_wf_def nth_memcpy_at)

lemma complete_assembling:
  assumes "assembling m t s C r"
  shows "nd_reassembly_is_complete r \<longleftrightarrow> {..<length m} \<subseteq> C"
    and "{..<length m} \<subseteq> C \<Longrightarrow> take (length m) (rs_buf r) = m"
  using assms
  by (auto simp: assembling_def nd_reassembly_is_complete_def list_all_iff reassembly_wf_def
      intro!: nth_equalityI)

section \<open>Properties\<close>

text \<open>C23: Fragments of one message of at most 4096 bytes, fed in any order with any repetitions and
  interleaved with fragments of other messages after the first one, never touch memory outside the
  arrays; the completeness test succeeds exactly when the fragments cover the message, and the
  buffer then holds the message.\<close>

theorem reassembly_correct:
  assumes "length (rs_buf r) = ND_REASSEMBLY_MAX_LEN" "length m \<le> ND_REASSEMBLY_MAX_LEN"
    and "fragment_of m t s f" "\<forall>g\<in>set fs. fragment_of m t s g \<or> foreign_to t s g"
  shows "\<exists>sts r'. feed_fragments (nd_reassembly_init r) (f # fs) = Some (sts, r') \<and>
           (nd_reassembly_is_complete r' \<longleftrightarrow> {..<length m} \<subseteq> covered t s (f # fs)) \<and>
           (nd_reassembly_is_complete r' \<longrightarrow> take (rs_total_len r') (rs_buf r') = m)"
proof -
  obtain hdr fragment where f: "f = (hdr, fragment)" by (cases f)
  let ?r0 = "nd_reassembly_init r"
  have begun: "assembling m t s {} (begin_message ?r0 hdr)"
    using begin_assembling assms(1-3) f by blast
  have "unat (hs_length hdr) \<le> ND_REASSEMBLY_MAX_LEN"
    "hs_fragment_offset hdr + hs_fragment_length hdr \<le> hs_length hdr"
    using assms(2,3) fragment_sum [of hdr] by (auto simp: f fragment_of_def word_le_nat_alt)
  then have "nd_reassembly_add_fragment ?r0 (Some hdr) (Some fragment) =
      nd_reassembly_add_fragment (begin_message ?r0 hdr) (Some hdr) (Some fragment)"
    by (simp add: nd_reassembly_init_def begin_message_def Let_def)
  then have "feed_fragments ?r0 (f # fs) = feed_fragments (begin_message ?r0 hdr) (f # fs)"
    by (simp add: f)
  with feed_assembling [OF begun, of "f # fs"] assms(3,4) obtain sts r'
    where r': "feed_fragments ?r0 (f # fs) = Some (sts, r')" "assembling m t s (covered t s (f # fs)) r'"
    by auto
  moreover have "rs_total_len r' = length m" using r'(2) by (simp add: assembling_def)
  ultimately show ?thesis using complete_assembling [OF r'(2)] by auto
qed

theorem reassembly_correct_witness:
  "\<exists>sts r'. feed_fragments (nd_reassembly_init \<lparr>rs_buf = replicate 4096 0xff, rs_received = [],
        rs_total_len = 9, rs_total_len_known = True, rs_msg_type = 0, rs_message_seq = 0,
        rs_in_progress = True\<rparr>)
      [(\<lparr>hs_msg_type = 11, hs_length = 3, hs_message_seq = 4, hs_fragment_offset = 2,
         hs_fragment_length = 1\<rparr>, [30]),
       (\<lparr>hs_msg_type = 15, hs_length = 3, hs_message_seq = 5, hs_fragment_offset = 0,
         hs_fragment_length = 1\<rparr>, [77]),
       (\<lparr>hs_msg_type = 11, hs_length = 3, hs_message_seq = 4, hs_fragment_offset = 0,
         hs_fragment_length = 2\<rparr>, [10, 20])] = Some (sts, r') \<and>
     nd_reassembly_is_complete r' \<and> take (rs_total_len r') (rs_buf r') = [10, 20, 30]"
proof -
  have "{..<Suc (Suc (Suc 0))} \<subseteq> {2..<3} \<union> {0..<Suc (Suc 0)}" by auto
  then show ?thesis
    using reassembly_correct [of "\<lparr>rs_buf = replicate 4096 0xff, rs_received = [],
        rs_total_len = 9, rs_total_len_known = True, rs_msg_type = 0, rs_message_seq = 0,
        rs_in_progress = True\<rparr>" "[10, 20, 30]" 11 4
      "(\<lparr>hs_msg_type = 11, hs_length = 3, hs_message_seq = 4, hs_fragment_offset = 2,
         hs_fragment_length = 1\<rparr>, [30])"
      "[(\<lparr>hs_msg_type = 15, hs_length = 3, hs_message_seq = 5, hs_fragment_offset = 0,
         hs_fragment_length = 1\<rparr>, [77]),
       (\<lparr>hs_msg_type = 11, hs_length = 3, hs_message_seq = 4, hs_fragment_offset = 0,
         hs_fragment_length = 2\<rparr>, [10, 20])]"]
    by (simp add: fragment_of_def foreign_to_def handshake_hdr_wf_def slice_of_def
        del: feed_fragments.simps) blast
qed

text \<open>C24: Every fragment that \<^verbatim>\<open>nd_handshake_parse\<close> accepts can be passed on safely: the call
  returns a status and stays inside the arrays, whatever the state of the reassembly.\<close>

theorem reassembly_parsed_safe:
  assumes "nd_handshake_parse (Buf buf) = Inr (hdr, fragment)" "reassembly_wf r"
  shows "\<exists>st r'. nd_reassembly_add_fragment r (Some hdr) (Some fragment) = Some (st, r') \<and>
           reassembly_wf r'"
  using add_fragment_safe handshake_parse_wf [OF assms(1)] assms(2) by blast

theorem reassembly_parsed_safe_witness:
  "\<exists>st r'. nd_reassembly_add_fragment
       \<lparr>rs_buf = replicate 4096 0, rs_received = replicate 4096 0, rs_total_len = 0,
        rs_total_len_known = False, rs_msg_type = 0, rs_message_seq = 0, rs_in_progress = False\<rparr>
       (Some \<lparr>hs_msg_type = 20, hs_length = 2, hs_message_seq = 3, hs_fragment_offset = 1,
          hs_fragment_length = 1\<rparr>) (Some [0x77]) = Some (st, r') \<and> reassembly_wf r'"
proof (rule reassembly_parsed_safe)
  show "nd_handshake_parse (Buf [20, 0, 0, 2, 0, 3, 0, 0, 1, 0, 0, 1, 0x77]) =
    Inr (\<lparr>hs_msg_type = 20, hs_length = 2, hs_message_seq = 3, hs_fragment_offset = 1,
      hs_fragment_length = 1\<rparr>, [0x77])"
    by (simp add: be24_def be16_def slice_of_def)
qed (simp add: reassembly_wf_def)

lemma unat_sum32: "unat (a + b) = (if unat a + unat b < 2 ^ 32 then unat a + unat b else unat a + unat b - 2 ^ 32)" for a b :: u32
  using unat_bound [of a] unat_bound [of b] by (simp add: unat_word_ariths mod_if) 

text \<open>C25: a fragment whose buffer holds the announced bytes makes the copy leave the arrays exactly when the
  message is one the code would store and the sum of offset and length is at least \<open>2\<^sup>3\<^sup>2\<close> and, reduced by
  \<open>2\<^sup>3\<^sup>2\<close>, passes the comparison with the length: the wrap-around of the 32-bit sum is the only way.\<close>

theorem reassembly_out_of_bounds_iff:
  assumes "unat (hs_fragment_length hdr) \<le> length fragment"
  shows "nd_reassembly_add_fragment r (Some hdr) (Some fragment) = None \<longleftrightarrow>
    unat (hs_length hdr) \<le> ND_REASSEMBLY_MAX_LEN \<and>
    (rs_in_progress r \<longrightarrow> hs_msg_type hdr = rs_msg_type r \<and> hs_message_seq hdr = rs_message_seq r \<and>
       unat (hs_length hdr) = rs_total_len r) \<and>
    2 ^ 32 \<le> unat (hs_fragment_offset hdr) + unat (hs_fragment_length hdr) \<and>
    unat (hs_fragment_offset hdr) + unat (hs_fragment_length hdr) - 2 ^ 32 \<le> unat (hs_length hdr)"
proof -
  let ?o = "unat (hs_fragment_offset hdr)" and ?l = "unat (hs_fragment_length hdr)" and ?n = "unat (hs_length hdr)"
  have "hs_fragment_offset hdr + hs_fragment_length hdr > hs_length hdr \<longleftrightarrow>
      ?n < (if ?o + ?l < 2 ^ 32 then ?o + ?l else ?o + ?l - 2 ^ 32)"
    unfolding word_less_nat_alt unat_sum32 by (rule refl)
  moreover have "store_fragment s ?o ?l fragment = None \<longleftrightarrow> ?l \<noteq> 0 \<and> ND_REASSEMBLY_MAX_LEN < ?o + ?l" for s
    using assms by (simp add: store_fragment_def)
  ultimately show ?thesis using unat_bound [of "hs_fragment_offset hdr"] by auto
qed

theorem reassembly_out_of_bounds_iff_witness:
  "nd_reassembly_add_fragment
     (nd_reassembly_init \<lparr>rs_buf = replicate 4096 0, rs_received = replicate 4096 0,
        rs_total_len = 0, rs_total_len_known = False, rs_msg_type = 0, rs_message_seq = 0,
        rs_in_progress = False\<rparr>)
     (Some \<lparr>hs_msg_type = 11, hs_length = 0x100, hs_message_seq = 0,
        hs_fragment_offset = 0xFFFFFFF0, hs_fragment_length = 0x20\<rparr>)
     (Some (replicate 32 0)) = None"
  by (subst reassembly_out_of_bounds_iff) (simp_all add: nd_reassembly_init_def)
end
