(* ===== verification/Ack.thy ===== *)
theory Ack
  imports Prelude
begin

text \<open>
  The ACK message of \<^verbatim>\<open>src/ack.c\<close> and \<^verbatim>\<open>include/nanodtls/ack.h\<close>: a two-byte list length and up
  to 32 pairs of a 64-bit epoch and a 64-bit sequence number. The C array of 32 record numbers is
  the list \<open>ack_records\<close>; only its first \<open>ack_count\<close> entries are meaningful.
  Shown: both round trips, and which bodies the parser refuses and why.
\<close>

unbundle bit_operations_syntax

abbreviation (input) ND_ACK_MAX_RECORDS :: nat where "ND_ACK_MAX_RECORDS \<equiv> 32"

record nd_record_number =
  rn_epoch :: u64
  rn_sequence_number :: u64

record nd_ack =
  ack_records :: "nd_record_number list"
  ack_count :: nat

definition put_u64 :: "u64 \<Rightarrow> byte list" where
  "put_u64 v = map (\<lambda>i. ucast (drop_bit (8 * (7 - i)) v)) [0..<8]"

definition get_u64 :: "byte list \<Rightarrow> u64" where
  "get_u64 bs = foldl (\<lambda>v i. push_bit 8 v OR ucast (bs ! i)) 0 [0..<8]"

definition put_record :: "nd_record_number \<Rightarrow> byte list" where
  "put_record rn = put_u64 (rn_epoch rn) @ put_u64 (rn_sequence_number rn)"

fun nd_ack_serialize :: "nd_ack ptr \<Rightarrow> nat \<Rightarrow> byte list result" where
  "nd_ack_serialize None out_buf_cap = Inl ND_ERR_BAD_ARG"
| "nd_ack_serialize (Some ack) out_buf_cap =
     (if ack_count ack > ND_ACK_MAX_RECORDS then Inl ND_ERR_BAD_ARG
      else
        let list_len = ack_count ack * 16 in
        if 2 + list_len > out_buf_cap then Inl ND_ERR_BAD_LENGTH
        else Inr (put_be16 (of_nat list_len) @
                  concat (map (\<lambda>i. put_record (ack_records ack ! i)) [0..<ack_count ack])))"

definition get_record :: "byte list \<Rightarrow> nat \<Rightarrow> nd_record_number" where
  "get_record buf pos =
     \<lparr>rn_epoch = get_u64 (drop pos buf), rn_sequence_number = get_u64 (drop (pos + 8) buf)\<rparr>"

text \<open>The parser overwrites the first entries of the caller's struct and keeps the others.\<close>

fun nd_ack_parse :: "cbuf \<Rightarrow> nd_ack \<Rightarrow> nd_ack result" where
  "nd_ack_parse (NULL_buf n) out_ack = Inl ND_ERR_BAD_ARG"
| "nd_ack_parse (Buf buf) out_ack =
     (if length buf < 2 then Inl ND_ERR_TRUNCATED
      else
        let list_len = be16 (buf ! 0) (buf ! 1) in
        if unat list_len + 2 \<noteq> length buf then Inl ND_ERR_BAD_LENGTH
        else if list_len mod 16 \<noteq> 0 then Inl ND_ERR_BAD_LENGTH
        else
          let count = unat (list_len div 16) in
          if count > ND_ACK_MAX_RECORDS then Inl ND_ERR_UNSUPPORTED
          else Inr (out_ack\<lparr>ack_records :=
                      map (\<lambda>i. get_record buf (2 + 16 * i)) [0..<count] @
                      drop count (ack_records out_ack),
                    ack_count := count\<rparr>))"

text \<open>What an \<open>nd_ack\<close> says: the record numbers it lists.\<close>

definition ack_list :: "nd_ack \<Rightarrow> nd_record_number list" where
  "ack_list ack = take (ack_count ack) (ack_records ack)"

section \<open>The 64-bit codec\<close>

lemma put_u64_be: "put_u64 v = be_put 8 v"
  by (simp add: put_u64_def upt_rec eval_nat_numeral)

lemma get_u64_be: "8 \<le> length bs \<Longrightarrow> get_u64 bs = be_of (take 8 bs)"
  by (simp add: get_u64_def be_of_def take_map_nth foldl_map)

lemma length_put_u64 [simp, len_simps]: "length (put_u64 v) = 8"
  by (simp add: put_u64_def)

lemma length_put_record [simp, len_simps]: "length (put_record rn) = 16"
  by (simp add: put_record_def)

lemma get_put_u64 [codec_simps]: "get_u64 (put_u64 v @ rest) = v"
  by (simp add: get_u64_be put_u64_be be_of_be_put take_bit_word_eq_self)

lemma put_get_u64 [codec_simps]: "8 \<le> length bs \<Longrightarrow> put_u64 (get_u64 bs) = take 8 bs"
  using be_put_be_of [of "take 8 bs", where 'a = 64] by (simp add: get_u64_be put_u64_be)

lemma get_put_record [codec_simps]:
  "length pre = pos \<Longrightarrow> get_record (pre @ put_record rn @ rest) pos = rn"
  by (simp add: get_record_def put_record_def get_put_u64)

lemma put_get_record [codec_simps]:
  "pos + 16 \<le> length buf \<Longrightarrow> put_record (get_record buf pos) = slice_of pos 16 buf"
  using take_add [of 8 8 "drop pos buf"]
  by (simp add: get_record_def put_record_def put_get_u64 slice_of_def add.commute)

section \<open>Lists of records\<close>

lemma length_concat_records [simp]: "length (concat (map put_record rs)) = 16 * length rs"
  by (induction rs) simp_all

lemma get_records_concat:
  "length pre = p \<Longrightarrow>
   map (\<lambda>i. get_record (pre @ concat (map put_record rs)) (p + 16 * i)) [0..<length rs] = rs"
proof (induction rs arbitrary: pre p)
  case (Cons r rs)
  have "map (\<lambda>i. get_record ((pre @ put_record r) @ concat (map put_record rs)) ((p + 16) + 16 * i))
      [0..<length rs] = rs"
    using Cons.prems by (intro Cons.IH) simp
  then show ?case
    using Cons.prems
    by (simp add: upt_conv_Cons map_Suc_upt [symmetric] get_put_record comp_def algebra_simps
        del: upt_Suc)
qed simp

lemma concat_get_records:
  "p + 16 * n \<le> length buf \<Longrightarrow>
   concat (map (\<lambda>i. put_record (get_record buf (p + 16 * i))) [0..<n]) = slice_of p (16 * n) buf"
proof (induction n)
  case (Suc n)
  then show ?case
    using slice_of_add [of p "16 * n" 16 buf] by (simp add: put_get_record add.commute)
qed (simp add: slice_of_def)

section \<open>Properties\<close>

text \<open>Parsing a serialized ACK into any \<^verbatim>\<open>nd_ack\<close> gives back the same list of record numbers.\<close>

theorem ack_parse_serialize:
  assumes "nd_ack_serialize (Some ack) cap = Inr out"
    and "length (ack_records ack) = ND_ACK_MAX_RECORDS"
  shows "\<exists>ack'. nd_ack_parse (Buf out) out_ack = Inr ack' \<and> ack_list ack' = ack_list ack"
proof -
  let ?n = "ack_count ack" and ?rs = "ack_list ack"
  have n: "?n \<le> 32" and out: "out = put_be16 (of_nat (?n * 16)) @ concat (map put_record ?rs)"
    using assms
    by (auto simp: Let_def ack_list_def take_map_nth comp_def)
  have rs: "length ?rs = ?n" using n assms(2) by (simp add: ack_list_def)
  have len: "unat (of_nat (?n * 16) :: u16) = ?n * 16"
    using n by (intro unat_of_nat16) simp
  have "unat ((of_nat (?n * 16) :: u16) div 16) = ?n" "unat ((of_nat (?n * 16) :: u16) mod 16) = 0"
    by (simp_all add: unat_div unat_mod len del: of_nat_mult)
  then have "nd_ack_parse (Buf out) out_ack =
      Inr (out_ack\<lparr>ack_records := map (\<lambda>i. get_record out (2 + 16 * i)) [0..<?n] @
                                   drop ?n (ack_records out_ack), ack_count := ?n\<rparr>)"
    using n rs len
    by (simp add: out put_be16_def Let_def unat_eq_zero del: of_nat_mult)
  moreover have "map (\<lambda>i. get_record out (2 + 16 * i)) [0..<?n] = ?rs"
    using get_records_concat [of "put_be16 (of_nat (?n * 16))" 2 ?rs] by (simp add: out rs)
  ultimately show ?thesis
    using n assms(2) by (simp add: ack_list_def del: nd_ack_parse.simps)
qed

theorem ack_parse_serialize_witness:
  "\<exists>ack'. nd_ack_parse (Buf ([0, 16] @ [0, 0, 0, 0, 0, 0, 0, 2] @ [0, 0, 0, 0, 0, 0, 0, 5]))
       \<lparr>ack_records = [], ack_count = 7\<rparr> = Inr ack' \<and>
     ack_list ack' = [\<lparr>rn_epoch = 2, rn_sequence_number = 5\<rparr>]"
proof -
  let ?ack = "\<lparr>ack_records = \<lparr>rn_epoch = 2, rn_sequence_number = 5\<rparr> #
    replicate 31 \<lparr>rn_epoch = 0, rn_sequence_number = 0\<rparr>, ack_count = 1\<rparr>"
  have "nd_ack_serialize (Some ?ack) 18 =
    Inr ([0, 16] @ [0, 0, 0, 0, 0, 0, 0, 2] @ [0, 0, 0, 0, 0, 0, 0, 5])"
    by (simp add: put_record_def put_u64_def put_be16_def upt_rec)
  from ack_parse_serialize [OF this] show ?thesis by (simp add: ack_list_def)
qed

text \<open>The parser accepts only canonical bodies: serializing what it read gives back the bytes.\<close>

theorem ack_serialize_parse:
  assumes "nd_ack_parse (Buf buf) out_ack = Inr ack"
  shows "nd_ack_serialize (Some ack) (length buf) = Inr buf"
proof -
  let ?ll = "be16 (buf ! 0) (buf ! 1)"
  let ?n = "unat (?ll div 16)"
  have g: "2 \<le> length buf" "unat ?ll + 2 = length buf" "?ll mod 16 = 0" "?n \<le> 32"
    and recs: "ack_records ack = map (\<lambda>i. get_record buf (2 + 16 * i)) [0..<?n] @
        drop ?n (ack_records out_ack)" and cnt: "ack_count ack = ?n"
    using assms by (auto simp: Let_def)
  have "unat ?ll mod 16 = 0" using arg_cong [OF g(3), of unat] by (simp add: unat_mod)
  then have ll: "unat ?ll = ?n * 16" by (auto simp: unat_div mod_eq_0_iff_dvd)
  have "put_be16 (of_nat (?n * 16)) = [buf ! 0, buf ! 1]"
    unfolding ll [symmetric] by simp
  moreover have "concat (map (\<lambda>i. put_record (ack_records ack ! i)) [0..<?n]) = slice_of 2 (16 * ?n) buf"
  proof -
    have "map (\<lambda>i. put_record (ack_records ack ! i)) [0..<?n] =
        map (\<lambda>i. put_record (get_record buf (2 + 16 * i))) [0..<?n]"
      by (simp add: recs nth_append)
    then show ?thesis using concat_get_records [of 2 ?n buf] g(2) ll by (simp only: mult.commute)
  qed
  moreover have "buf = [buf ! 0, buf ! 1] @ drop 2 buf"
    using g(1) by (cases buf; cases "tl buf") auto
  moreover have "slice_of 2 (16 * ?n) buf = drop 2 buf"
    using g(2) ll by (simp add: slice_of_def)
  ultimately show ?thesis
    using g ll by (simp add: cnt del: of_nat_mult)
qed

theorem ack_serialize_parse_witness:
  "nd_ack_serialize (Some \<lparr>ack_records = [\<lparr>rn_epoch = 0, rn_sequence_number = 0\<rparr>], ack_count = 0\<rparr>) 2 =
     Inr [0, 0]"
proof -
  have "nd_ack_parse (Buf [0, 0])
      \<lparr>ack_records = [\<lparr>rn_epoch = 0, rn_sequence_number = 0\<rparr>], ack_count = 5\<rparr> =
    Inr \<lparr>ack_records = [\<lparr>rn_epoch = 0, rn_sequence_number = 0\<rparr>], ack_count = 0\<rparr>"
    by (simp add: be16_def)
  from ack_serialize_parse [OF this] show ?thesis
    by (simp add: eval_nat_numeral del: nd_ack_serialize.simps)
qed

end
