(* ===== verification/Bytes_IO.thy ===== *)
theory Bytes_IO
  imports Prelude
begin

text \<open>
  The byte writer and byte reader that \<^verbatim>\<open>src/handshake/hello.c\<close> and
  \<^verbatim>\<open>src/handshake/messages.c\<close> each define for themselves (the two copies are identical; the 24-bit
  functions exist in the second only).

  A writer is the prefix of the output buffer written so far, its capacity and the sticky overflow
  flag. A reader is the bytes between its position and its end. Shown: a sequence of writes with
  nested length prefixes that are reserved first and patched afterwards emits exactly the
  concatenation of the fields with correct lengths, or reports overflow exactly when that does not
  fit; readers invert the fields.
\<close>

unbundle bit_operations_syntax

section \<open>The writer\<close>

record writer =
  w_buf :: "byte list"
  w_cap :: nat
  w_overflow :: bool

definition w_init :: "nat \<Rightarrow> writer" where
  "w_init cap = \<lparr>w_buf = [], w_cap = cap, w_overflow = False\<rparr>"

definition w_bytes :: "byte list \<Rightarrow> writer \<Rightarrow> writer" where
  "w_bytes data w =
     (if w_overflow w \<or> length (w_buf w) + length data > w_cap w then w\<lparr>w_overflow := True\<rparr>
      else w\<lparr>w_buf := w_buf w @ data\<rparr>)"

definition w_u8 :: "byte \<Rightarrow> writer \<Rightarrow> writer" where
  "w_u8 v = w_bytes [v]"

definition w_u16 :: "u16 \<Rightarrow> writer \<Rightarrow> writer" where
  "w_u16 v = w_bytes [ucast (drop_bit 8 v), ucast v]"

definition w_reserve_u8_len :: "writer \<Rightarrow> nat \<times> writer" where
  "w_reserve_u8_len w = (length (w_buf w), w_u8 0 w)"

definition w_patch_u8_len :: "nat \<Rightarrow> writer \<Rightarrow> writer" where
  "w_patch_u8_len pos w =
     (if w_overflow w then w
      else let body = length (w_buf w) - pos - 1 in w\<lparr>w_buf := (w_buf w)[pos := of_nat body]\<rparr>)"

definition w_reserve_u16_len :: "writer \<Rightarrow> nat \<times> writer" where
  "w_reserve_u16_len w = (length (w_buf w), w_u16 0 w)"

definition w_patch_u16_len :: "nat \<Rightarrow> writer \<Rightarrow> writer" where
  "w_patch_u16_len pos w =
     (if w_overflow w then w
      else let body = length (w_buf w) - pos - 2 in
        w\<lparr>w_buf := (w_buf w)[pos := of_nat (body div 2 ^ 8), pos + 1 := of_nat body]\<rparr>)"

definition w_reserve_u24_len :: "writer \<Rightarrow> nat \<times> writer" where
  "w_reserve_u24_len w = (length (w_buf w), w_bytes [0, 0, 0] w)"

definition w_patch_u24_len :: "nat \<Rightarrow> writer \<Rightarrow> writer" where
  "w_patch_u24_len pos w =
     (if w_overflow w then w
      else let body = length (w_buf w) - pos - 3 in
        w\<lparr>w_buf := (w_buf w)[pos := of_nat (body div 2 ^ 16), pos + 1 := of_nat (body div 2 ^ 8),
                              pos + 2 := of_nat body]\<rparr>)"

text \<open>
  The serializers use the reserve and patch functions in matched pairs around the writes of a
  body; \<open>w_seq\<close> is a sequence of statements on the writer.
\<close>

fun w_seq :: "(writer \<Rightarrow> writer) list \<Rightarrow> writer \<Rightarrow> writer" where
  "w_seq [] w = w"
| "w_seq (f # fs) w = w_seq fs (f w)"

definition w_vec8 :: "(writer \<Rightarrow> writer) list \<Rightarrow> writer \<Rightarrow> writer" where
  "w_vec8 body w = (let (pos, w1) = w_reserve_u8_len w in w_patch_u8_len pos (w_seq body w1))"

definition w_vec16 :: "(writer \<Rightarrow> writer) list \<Rightarrow> writer \<Rightarrow> writer" where
  "w_vec16 body w = (let (pos, w1) = w_reserve_u16_len w in w_patch_u16_len pos (w_seq body w1))"

definition w_vec24 :: "(writer \<Rightarrow> writer) list \<Rightarrow> writer \<Rightarrow> writer" where
  "w_vec24 body w = (let (pos, w1) = w_reserve_u24_len w in w_patch_u24_len pos (w_seq body w1))"

text \<open>\<^verbatim>\<open>if (w.overflow) return ND_ERR_BAD_LENGTH; *out_len = w.len; return ND_OK;\<close>\<close>

definition w_finish :: "writer \<Rightarrow> byte list result" where
  "w_finish w = (if w_overflow w then Inl ND_ERR_BAD_LENGTH else Inr (w_buf w))"

section \<open>The reader\<close>

type_synonym reader = "byte list"

definition r_bytes :: "reader \<Rightarrow> nat \<Rightarrow> (byte list \<times> reader) option" where
  "r_bytes r n = (if n > length r then None else Some (take n r, drop n r))"

definition r_u8 :: "reader \<Rightarrow> (byte \<times> reader) option" where
  "r_u8 r = map_option (\<lambda>(bs, r'). (bs ! 0, r')) (r_bytes r 1)"

definition r_u16 :: "reader \<Rightarrow> (u16 \<times> reader) option" where
  "r_u16 r = map_option (\<lambda>(bs, r'). (be16 (bs ! 0) (bs ! 1), r')) (r_bytes r 2)"

definition r_u24 :: "reader \<Rightarrow> (u32 \<times> reader) option" where
  "r_u24 r = map_option (\<lambda>(bs, r'). (be24 (bs ! 0) (bs ! 1) (bs ! 2), r')) (r_bytes r 3)"

definition r_skip :: "reader \<Rightarrow> nat \<Rightarrow> reader option" where
  "r_skip r n = (if n > length r then None else Some (drop n r))"

definition r_view :: "reader \<Rightarrow> nat \<Rightarrow> (byte list \<times> reader) option" where
  "r_view r n = (if n > length r then None else Some (take n r, drop n r))"

section \<open>What a writer emits\<close>

text \<open>
  \<open>emits f bs\<close>: on a writer with room \<open>f\<close> appends exactly \<open>bs\<close>; without room, or after an earlier
  overflow, it leaves the overflow flag set.
\<close>

definition emits :: "(writer \<Rightarrow> writer) \<Rightarrow> byte list \<Rightarrow> bool" where
  "emits f bs \<longleftrightarrow>
     (\<forall>w. (w_overflow w \<longrightarrow> w_overflow (f w)) \<and>
          (\<not> w_overflow w \<and> length (w_buf w) \<le> w_cap w \<longrightarrow>
             (if length (w_buf w) + length bs \<le> w_cap w then f w = w\<lparr>w_buf := w_buf w @ bs\<rparr>
              else w_overflow (f w))))"

named_theorems emits_intros \<open>what each writing function emits\<close>

lemma emits_finish:
  assumes "emits f bs"
  shows "w_finish (f (w_init cap)) = (if cap < length bs then Inl ND_ERR_BAD_LENGTH else Inr bs)"
  using assms [unfolded emits_def, rule_format, of "w_init cap"]
  by (auto simp: w_finish_def w_init_def not_less split: if_splits)

lemma emits_bytes [emits_intros]: "emits (w_bytes bs) bs"
  by (auto simp: emits_def w_bytes_def)

lemma emits_u8 [emits_intros]: "emits (w_u8 v) [v]"
  unfolding w_u8_def by (rule emits_bytes)

lemma emits_u16 [emits_intros]: "emits (w_u16 v) (put_be16 v)"
  unfolding w_u16_def put_be16_def by (rule emits_bytes)

lemma emits_nil [emits_intros]: "emits (w_seq []) []"
  by (simp add: emits_def)

lemma emits_compose:
  assumes f: "emits f a" and g: "emits g b"
  shows "emits (\<lambda>w. g (f w)) (a @ b)"
proof -
  note f' = f [unfolded emits_def, rule_format] and g' = g [unfolded emits_def, rule_format]
  have "(w_overflow w \<longrightarrow> w_overflow (g (f w))) \<and>
      (\<not> w_overflow w \<and> length (w_buf w) \<le> w_cap w \<longrightarrow>
        (if length (w_buf w) + length (a @ b) \<le> w_cap w then g (f w) = w\<lparr>w_buf := w_buf w @ a @ b\<rparr>
         else w_overflow (g (f w))))" for w
    using f' [of w] g' [of "f w"] by (auto split: if_splits)
  then show ?thesis by (simp add: emits_def)
qed

lemma emits_seq [emits_intros]:
  assumes "emits f a" "emits (w_seq fs) b"
  shows "emits (w_seq (f # fs)) (a @ b)"
  using emits_compose [OF assms] by (simp add: emits_def)

text \<open>A length prefix that is reserved with zeros and patched once the body is written.\<close>

lemma emits_reserved:
  fixes patch :: "nat \<Rightarrow> writer \<Rightarrow> writer"
  assumes body: "emits f bs"
    and patch: "\<And>w pre. \<not> w_overflow w \<Longrightarrow> w_buf w = pre @ z @ bs \<Longrightarrow>
        patch (length pre) w = w\<lparr>w_buf := pre @ p @ bs\<rparr>"
    and sticky: "\<And>pos w. w_overflow w \<Longrightarrow> patch pos w = w"
    and len: "length z = length p"
  shows "emits (\<lambda>w. patch (length (w_buf w)) (f (w_bytes z w))) (p @ bs)"
proof -
  note zf = emits_compose [OF emits_bytes [of z] body, unfolded emits_def, rule_format]
  show ?thesis
    unfolding emits_def
  proof (intro allI conjI impI)
    fix w :: writer assume "w_overflow w"
    with zf [of w] show "w_overflow (patch (length (w_buf w)) (f (w_bytes z w)))"
      by (auto simp: sticky)
  next
    fix w :: writer assume no: "\<not> w_overflow w \<and> length (w_buf w) \<le> w_cap w"
    show "if length (w_buf w) + length (p @ bs) \<le> w_cap w
      then patch (length (w_buf w)) (f (w_bytes z w)) = w\<lparr>w_buf := w_buf w @ p @ bs\<rparr>
      else w_overflow (patch (length (w_buf w)) (f (w_bytes z w)))"
      using zf [of w] no len patch [of "f (w_bytes z w)" "w_buf w"]
      by (auto simp: sticky)
  qed
qed

lemma of_nat_byte16: "[of_nat (n div 2 ^ 8), of_nat n] = put_be16 (of_nat n)"
  unfolding drop_bit_eq_div [symmetric] put_be16_def
  by (auto intro!: bit_word_eqI simp: bit_simps)

lemma of_nat_byte24:
  "[of_nat (n div 2 ^ 16), of_nat (n div 2 ^ 8), of_nat n] = put_be24 (of_nat n)"
  unfolding drop_bit_eq_div [symmetric] put_be24_def
  by (auto intro!: bit_word_eqI simp: bit_simps)

lemma emits_vec8 [emits_intros]:
  assumes "emits (w_seq body) bs"
  shows "emits (w_vec8 body) (of_nat (length bs) # bs)"
proof -
  have "w_vec8 body = (\<lambda>w. w_patch_u8_len (length (w_buf w)) (w_seq body (w_bytes [0] w)))"
    by (simp add: w_vec8_def w_reserve_u8_len_def w_u8_def fun_eq_iff)
  moreover have "emits \<dots> ([of_nat (length bs)] @ bs)"
    using assms by (rule emits_reserved) (simp_all add: w_patch_u8_len_def Let_def)
  ultimately show ?thesis by simp
qed

lemma emits_vec16 [emits_intros]:
  assumes "emits (w_seq body) bs"
  shows "emits (w_vec16 body) (put_be16 (of_nat (length bs)) @ bs)"
proof -
  have "w_vec16 body = (\<lambda>w. w_patch_u16_len (length (w_buf w)) (w_seq body (w_bytes [0, 0] w)))"
    by (simp add: w_vec16_def w_reserve_u16_len_def w_u16_def fun_eq_iff)
  moreover have "emits \<dots> (put_be16 (of_nat (length bs)) @ bs)"
    using assms
    by (rule emits_reserved)
      (simp_all add: w_patch_u16_len_def Let_def list_update_append of_nat_byte16 [symmetric])
  ultimately show ?thesis by simp
qed

lemma emits_vec24 [emits_intros]:
  assumes "emits (w_seq body) bs"
  shows "emits (w_vec24 body) (put_be24 (of_nat (length bs)) @ bs)"
proof -
  have "w_vec24 body = (\<lambda>w. w_patch_u24_len (length (w_buf w)) (w_seq body (w_bytes [0, 0, 0] w)))"
    by (simp add: w_vec24_def w_reserve_u24_len_def fun_eq_iff)
  moreover have "emits \<dots> (put_be24 (of_nat (length bs)) @ bs)"
    using assms
    by (rule emits_reserved)
      (simp_all add: w_patch_u24_len_def Let_def list_update_append of_nat_byte24 [symmetric])
  ultimately show ?thesis by simp
qed

section \<open>Readers invert the fields\<close>

named_theorems reads \<open>what the reading functions return on the bytes of a field\<close>

lemma r_bytes_append [reads]: "n = length bs \<Longrightarrow> r_bytes (bs @ rest) n = Some (bs, rest)"
  by (simp add: r_bytes_def)

lemma r_view_append [reads]: "n = length bs \<Longrightarrow> r_view (bs @ rest) n = Some (bs, rest)"
  by (simp add: r_view_def)

lemma r_skip_append [reads]: "n = length bs \<Longrightarrow> r_skip (bs @ rest) n = Some rest"
  by (simp add: r_skip_def)

lemma r_u8_Cons [reads]: "r_u8 (b # rest) = Some (b, rest)"
  by (simp add: r_u8_def r_bytes_def)

lemma r_u16_append [reads]: "r_u16 (put_be16 v @ rest) = Some (v, rest)"
  by (simp add: r_u16_def r_bytes_def put_be16_def)

lemma r_u24_append [reads]: "r_u24 (put_be24 v @ rest) = Some (take_bit 24 v, rest)"
  by (simp add: r_u24_def r_bytes_def put_be24_def be24_put numeral_3_eq_3)

text \<open>Every successful read moves forward, which is why the parsing loops end.\<close>

lemma r_u16_shorter: "r_u16 r = Some (v, r') \<Longrightarrow> length r' < length r"
  by (auto simp: r_u16_def r_bytes_def split: if_splits)

lemma r_u24_shorter: "r_u24 r = Some (v, r') \<Longrightarrow> length r' < length r"
  by (auto simp: r_u24_def r_bytes_def split: if_splits)

lemma r_view_shorter: "r_view r n = Some (bs, r') \<Longrightarrow> length r' \<le> length r"
  by (auto simp: r_view_def split: if_splits)

lemma r_skip_shorter: "r_skip r n = Some r' \<Longrightarrow> length r' \<le> length r"
  by (auto simp: r_skip_def split: if_splits)

lemmas reader_shorter = r_u16_shorter r_u24_shorter r_view_shorter r_skip_shorter

end
