(* ===== verification/Hello.thy ===== *)
theory Hello
  imports Bytes_IO
begin

text \<open>
  ClientHello and ServerHello: \<^verbatim>\<open>src/handshake/hello.c\<close> and \<^verbatim>\<open>include/nanodtls/hello.h\<close>.
  Shown: the serializers write exactly the wire structure of their message or report that it does
  not fit; the extension scan is a lookup in the list of extensions, whatever else the peer sends
  and in whatever order; on every well-formed message the two parsers accept exactly when the
  suite, version and X25519 share are offered, and return the peer's key; the two sides agree.
\<close>

unbundle bit_operations_syntax

abbreviation (input) ND_RANDOM_LEN :: nat where "ND_RANDOM_LEN \<equiv> 32"
abbreviation (input) ND_X25519_LEN :: nat where "ND_X25519_LEN \<equiv> 32"
abbreviation (input) ND_CIPHER_SUITE_CHACHA20_POLY1305_SHA256 :: u16
  where "ND_CIPHER_SUITE_CHACHA20_POLY1305_SHA256 \<equiv> 0x1303"
abbreviation (input) ND_NAMED_GROUP_X25519 :: u16 where "ND_NAMED_GROUP_X25519 \<equiv> 0x001D"
abbreviation (input) ND_DTLS_1_3_VERSION :: u16 where "ND_DTLS_1_3_VERSION \<equiv> 0xfefc"
abbreviation (input) ND_DTLS_1_2_LEGACY_VERSION :: u16 where "ND_DTLS_1_2_LEGACY_VERSION \<equiv> 0xfefd"

section \<open>Serializers\<close>

record nd_client_hello_params =
  chp_random :: "byte list"
  chp_x25519_public_key :: "byte list"

fun nd_client_hello_serialize :: "nd_client_hello_params ptr \<Rightarrow> nat \<Rightarrow> byte list result" where
  "nd_client_hello_serialize None out_buf_cap = Inl ND_ERR_BAD_ARG"
| "nd_client_hello_serialize (Some params) out_buf_cap = w_finish (w_seq
     [w_u16 ND_DTLS_1_2_LEGACY_VERSION,
      w_bytes (chp_random params),
      w_vec8 [],
      w_vec8 [],
      w_vec16 [w_u16 ND_CIPHER_SUITE_CHACHA20_POLY1305_SHA256],
      w_vec8 [w_u8 0x00],
      w_vec16
        [w_u16 43, w_vec16 [w_vec8 [w_u16 ND_DTLS_1_3_VERSION]],
         w_u16 10, w_vec16 [w_vec16 [w_u16 ND_NAMED_GROUP_X25519]],
         w_u16 51, w_vec16 [w_vec16 [w_u16 ND_NAMED_GROUP_X25519,
                                     w_vec16 [w_bytes (chp_x25519_public_key params)]]],
         w_u16 13, w_vec16 [w_vec16 [w_u16 0x0403, w_u16 0x0804, w_u16 0x0807]]]]
     (w_init out_buf_cap))"

record nd_server_hello_params =
  shp_random :: "byte list"
  shp_x25519_public_key :: "byte list"

fun nd_server_hello_serialize :: "nd_server_hello_params ptr \<Rightarrow> nat \<Rightarrow> byte list result" where
  "nd_server_hello_serialize None out_buf_cap = Inl ND_ERR_BAD_ARG"
| "nd_server_hello_serialize (Some params) out_buf_cap = w_finish (w_seq
     [w_u16 ND_DTLS_1_2_LEGACY_VERSION,
      w_bytes (shp_random params),
      w_vec8 [],
      w_u16 ND_CIPHER_SUITE_CHACHA20_POLY1305_SHA256,
      w_u8 0x00,
      w_vec16
        [w_u16 43, w_vec16 [w_u16 ND_DTLS_1_3_VERSION],
         w_u16 51, w_vec16 [w_u16 ND_NAMED_GROUP_X25519,
                            w_vec16 [w_bytes (shp_x25519_public_key params)]]]]
     (w_init out_buf_cap))"

section \<open>Parsers\<close>

function find_extension :: "reader \<Rightarrow> u16 \<Rightarrow> byte list option" where
  "find_extension r want_type =
     (if r = [] then None
      else case r_u16 r of None \<Rightarrow> None | Some (ext_type, r1) \<Rightarrow>
        (case r_u16 r1 of None \<Rightarrow> None | Some (ext_len, r2) \<Rightarrow>
          (case r_view r2 (unat ext_len) of None \<Rightarrow> None | Some (data, r3) \<Rightarrow>
            if ext_type = want_type then Some data else find_extension r3 want_type)))"
  by pat_completeness auto
termination
  by (relation "measure (\<lambda>(r, t). length r)") (auto dest!: reader_shorter)

text \<open>The last part of \<^verbatim>\<open>nd_server_hello_parse\<close>: the single key share entry of the server.\<close>

definition read_server_share :: "byte list \<Rightarrow> byte list result" where
  "read_server_share ks_data =
     then_ok (or_fail ND_ERR_UNSUPPORTED (r_u16 ks_data)) (\<lambda>(grp, ksr).
     then_ok (or_fail ND_ERR_UNSUPPORTED (r_u16 ksr)) (\<lambda>(key_len, ksr).
     then_ok (or_fail ND_ERR_UNSUPPORTED (r_view ksr (unat key_len))) (\<lambda>(key, ksr).
     if grp \<noteq> ND_NAMED_GROUP_X25519 \<or> unat key_len \<noteq> ND_X25519_LEN then Inl ND_ERR_UNSUPPORTED
     else Inr key)))"

record nd_server_hello =
  sh_random :: "byte list"
  sh_cipher_suite :: u16
  sh_selected_version :: u16
  sh_key_share :: "byte list"

fun nd_server_hello_parse :: "cbuf \<Rightarrow> nd_server_hello result" where
  "nd_server_hello_parse (NULL_buf n) = Inl ND_ERR_BAD_ARG"
| "nd_server_hello_parse (Buf buf) =
     then_ok (or_fail ND_ERR_TRUNCATED (r_u16 buf)) (\<lambda>(legacy_version, r).
     then_ok (or_fail ND_ERR_TRUNCATED (r_bytes r ND_RANDOM_LEN)) (\<lambda>(random, r).
     then_ok (or_fail ND_ERR_TRUNCATED (r_u8 r)) (\<lambda>(session_id_echo_len, r).
     then_ok (or_fail ND_ERR_TRUNCATED (r_skip r (unat session_id_echo_len))) (\<lambda>r.
     then_ok (or_fail ND_ERR_TRUNCATED (r_u16 r)) (\<lambda>(cipher_suite, r).
     then_ok (or_fail ND_ERR_TRUNCATED (r_u8 r)) (\<lambda>(legacy_compression_method, r).
     then_ok (or_fail ND_ERR_TRUNCATED (r_u16 r)) (\<lambda>(ext_list_len, r).
     then_ok (or_fail ND_ERR_BAD_LENGTH (r_view r (unat ext_list_len))) (\<lambda>(ext_block, r).
     then_ok (or_fail ND_ERR_UNSUPPORTED (find_extension ext_block 43)) (\<lambda>sv_data.
     if length sv_data \<noteq> 2 then Inl ND_ERR_UNSUPPORTED
     else let selected_version = be16 (sv_data ! 0) (sv_data ! 1) in
     if selected_version \<noteq> ND_DTLS_1_3_VERSION then Inl ND_ERR_UNSUPPORTED
     else
     then_ok (or_fail ND_ERR_UNSUPPORTED (find_extension ext_block 51)) (\<lambda>ks_data.
     then_ok (read_server_share ks_data) (\<lambda>key.
     Inr \<lparr>sh_random = random, sh_cipher_suite = cipher_suite,
          sh_selected_version = selected_version, sh_key_share = key\<rparr>)))))))))))"

record nd_client_hello =
  ch_random :: "byte list"
  ch_x25519_public_key :: "byte list"

text \<open>The three loops of \<^verbatim>\<open>nd_client_hello_parse\<close>, with the flag or key found so far.\<close>

function scan_suites :: "reader \<Rightarrow> bool \<Rightarrow> bool result" where
  "scan_suites csr found =
     (if csr = [] then Inr found
      else case r_u16 csr of None \<Rightarrow> Inl ND_ERR_BAD_LENGTH | Some (suite, csr') \<Rightarrow>
        scan_suites csr'
          (if suite = ND_CIPHER_SUITE_CHACHA20_POLY1305_SHA256 then True else found))"
  by pat_completeness auto
termination
  by (relation "measure (\<lambda>(r, t). length r)") (auto dest!: reader_shorter)

function scan_versions :: "byte list \<Rightarrow> nat \<Rightarrow> bool \<Rightarrow> bool" where
  "scan_versions sv_data i found =
     (if i + 1 < length sv_data
      then scan_versions sv_data (i + 2)
             (if be16 (sv_data ! i) (sv_data ! (i + 1)) = ND_DTLS_1_3_VERSION then True else found)
      else found)"
  by pat_completeness auto
termination
  by (relation "measure (\<lambda>(sv, i, f). length sv - i)") auto

function scan_key_shares :: "reader \<Rightarrow> byte list option \<Rightarrow> (byte list option) result" where
  "scan_key_shares lr found =
     (if lr = [] then Inr found
      else case r_u16 lr of None \<Rightarrow> Inl ND_ERR_UNSUPPORTED | Some (grp, lr1) \<Rightarrow>
        (case r_u16 lr1 of None \<Rightarrow> Inl ND_ERR_UNSUPPORTED | Some (key_len, lr2) \<Rightarrow>
          (case r_view lr2 (unat key_len) of None \<Rightarrow> Inl ND_ERR_UNSUPPORTED | Some (key, lr3) \<Rightarrow>
            scan_key_shares lr3
              (if grp = ND_NAMED_GROUP_X25519 \<and> unat key_len = ND_X25519_LEN then Some key
               else found))))"
  by pat_completeness auto
termination
  by (relation "measure (\<lambda>(r, f). length r)") (auto dest!: reader_shorter)

text \<open>The blocks of \<^verbatim>\<open>nd_client_hello_parse\<close> that read the two extensions.\<close>

definition offers_dtls13 :: "byte list \<Rightarrow> bool" where
  "offers_dtls13 sv_data =
     (if length sv_data < 1 then False
      else if unat (sv_data ! 0) + 1 \<noteq> length sv_data \<or> sv_data ! 0 mod 2 \<noteq> 0 then False
      else scan_versions sv_data 1 False)"

definition read_client_shares :: "byte list \<Rightarrow> byte list result" where
  "read_client_shares ks_data =
     then_ok (or_fail ND_ERR_UNSUPPORTED (r_u16 ks_data)) (\<lambda>(list_len, ksr).
     then_ok (or_fail ND_ERR_UNSUPPORTED (r_view ksr (unat list_len))) (\<lambda>(list_data, ksr).
     then_ok (scan_key_shares list_data None) (\<lambda>found.
     case found of None \<Rightarrow> Inl ND_ERR_UNSUPPORTED | Some key \<Rightarrow> Inr key)))"

fun nd_client_hello_parse :: "cbuf \<Rightarrow> nd_client_hello result" where
  "nd_client_hello_parse (NULL_buf n) = Inl ND_ERR_BAD_ARG"
| "nd_client_hello_parse (Buf buf) =
     then_ok (or_fail ND_ERR_TRUNCATED (r_u16 buf)) (\<lambda>(legacy_version, r).
     then_ok (or_fail ND_ERR_TRUNCATED (r_bytes r ND_RANDOM_LEN)) (\<lambda>(random, r).
     then_ok (or_fail ND_ERR_TRUNCATED (r_u8 r)) (\<lambda>(session_id_len, r).
     then_ok (or_fail ND_ERR_TRUNCATED (r_skip r (unat session_id_len))) (\<lambda>r.
     then_ok (or_fail ND_ERR_TRUNCATED (r_u8 r)) (\<lambda>(cookie_len, r).
     then_ok (or_fail ND_ERR_TRUNCATED (r_skip r (unat cookie_len))) (\<lambda>r.
     then_ok (or_fail ND_ERR_TRUNCATED (r_u16 r)) (\<lambda>(cs_len, r).
     then_ok (or_fail ND_ERR_BAD_LENGTH (r_view r (unat cs_len))) (\<lambda>(cs_data, r).
     then_ok (scan_suites cs_data False) (\<lambda>found.
     if \<not> found then Inl ND_ERR_UNSUPPORTED
     else
     then_ok (or_fail ND_ERR_TRUNCATED (r_u8 r)) (\<lambda>(comp_len, r).
     then_ok (or_fail ND_ERR_TRUNCATED (r_skip r (unat comp_len))) (\<lambda>r.
     then_ok (or_fail ND_ERR_TRUNCATED (r_u16 r)) (\<lambda>(ext_list_len, r).
     then_ok (or_fail ND_ERR_BAD_LENGTH (r_view r (unat ext_list_len))) (\<lambda>(ext_block, r).
     then_ok (or_fail ND_ERR_UNSUPPORTED (find_extension ext_block 43)) (\<lambda>sv_data.
     if \<not> offers_dtls13 sv_data then Inl ND_ERR_UNSUPPORTED
     else
     then_ok (or_fail ND_ERR_UNSUPPORTED (find_extension ext_block 51)) (\<lambda>ks_data.
     then_ok (read_client_shares ks_data) (\<lambda>key.
     Inr \<lparr>ch_random = random, ch_x25519_public_key = key\<rparr>))))))))))))))))"

declare find_extension.simps [simp del] scan_suites.simps [simp del]
  scan_versions.simps [simp del] scan_key_shares.simps [simp del]

section \<open>The wire structures\<close>

text \<open>Extensions, and likewise key share entries: a 16-bit tag and data with a 16-bit length.\<close>

definition tagged_bytes :: "(u16 \<times> byte list) list \<Rightarrow> byte list" where
  "tagged_bytes es = concat (map (\<lambda>(t, d). put_be16 t @ put_be16 (of_nat (length d)) @ d) es)"

definition u16_list_bytes :: "u16 list \<Rightarrow> byte list" where
  "u16_list_bytes vs = concat (map put_be16 vs)"

definition vec8 :: "byte list \<Rightarrow> byte list" where
  "vec8 bs = of_nat (length bs) # bs"

definition vec16 :: "byte list \<Rightarrow> byte list" where
  "vec16 bs = put_be16 (of_nat (length bs)) @ bs"

record client_hello_wire =
  cw_version :: u16
  cw_random :: "byte list"
  cw_session_id :: "byte list"
  cw_cookie :: "byte list"
  cw_suites :: "u16 list"
  cw_compression :: "byte list"
  cw_extensions :: "(u16 \<times> byte list) list"

definition client_hello_bytes :: "client_hello_wire \<Rightarrow> byte list" where
  "client_hello_bytes m =
     put_be16 (cw_version m) @ cw_random m @ vec8 (cw_session_id m) @ vec8 (cw_cookie m) @
     vec16 (u16_list_bytes (cw_suites m)) @ vec8 (cw_compression m) @
     vec16 (tagged_bytes (cw_extensions m))"

definition client_hello_wire_wf :: "client_hello_wire \<Rightarrow> bool" where
  "client_hello_wire_wf m \<longleftrightarrow>
     length (cw_random m) = ND_RANDOM_LEN \<and> length (cw_session_id m) \<le> 255 \<and>
     length (cw_cookie m) \<le> 255 \<and> 2 * length (cw_suites m) \<le> 0xFFFF \<and>
     length (cw_compression m) \<le> 255 \<and> length (tagged_bytes (cw_extensions m)) \<le> 0xFFFF"

record server_hello_wire =
  sw_version :: u16
  sw_random :: "byte list"
  sw_session_id :: "byte list"
  sw_suite :: u16
  sw_compression :: byte
  sw_extensions :: "(u16 \<times> byte list) list"

definition server_hello_bytes :: "server_hello_wire \<Rightarrow> byte list" where
  "server_hello_bytes m =
     put_be16 (sw_version m) @ sw_random m @ vec8 (sw_session_id m) @ put_be16 (sw_suite m) @
     [sw_compression m] @ vec16 (tagged_bytes (sw_extensions m))"

definition server_hello_wire_wf :: "server_hello_wire \<Rightarrow> bool" where
  "server_hello_wire_wf m \<longleftrightarrow>
     length (sw_random m) = ND_RANDOM_LEN \<and> length (sw_session_id m) \<le> 255 \<and>
     length (tagged_bytes (sw_extensions m)) \<le> 0xFFFF"

text \<open>The key of the last usable X25519 entry among the client's key shares.\<close>

definition x25519_share :: "(u16 \<times> byte list) list \<Rightarrow> byte list option" where
  "x25519_share es =
     map_of (rev (filter (\<lambda>(g, k). g = ND_NAMED_GROUP_X25519 \<and> length k = ND_X25519_LEN) es))
       ND_NAMED_GROUP_X25519"

text \<open>What a client should make of a ServerHello with these extensions.\<close>

definition server_hello_spec :: "server_hello_wire \<Rightarrow> nd_server_hello result" where
  "server_hello_spec m =
     (case (map_of (sw_extensions m) 43, map_of (sw_extensions m) 51) of
        (Some sv, Some ks) \<Rightarrow>
          if sv = put_be16 ND_DTLS_1_3_VERSION \<and> 36 \<le> length ks \<and>
             take 4 ks = put_be16 ND_NAMED_GROUP_X25519 @ put_be16 32
          then Inr \<lparr>sh_random = sw_random m, sh_cipher_suite = sw_suite m,
                    sh_selected_version = ND_DTLS_1_3_VERSION, sh_key_share = slice_of 4 32 ks\<rparr>
          else Inl ND_ERR_UNSUPPORTED
      | _ \<Rightarrow> Inl ND_ERR_UNSUPPORTED)"

text \<open>What a server should make of a ClientHello that offers the versions \<open>vs\<close> and the key shares
  \<open>ks\<close>; \<open>None\<close> is an absent extension.\<close>

definition client_hello_spec ::
  "client_hello_wire \<Rightarrow> u16 list option \<Rightarrow> (u16 \<times> byte list) list option \<Rightarrow> nd_client_hello result" where
  "client_hello_spec m vs ks =
     (if ND_CIPHER_SUITE_CHACHA20_POLY1305_SHA256 \<in> set (cw_suites m) \<and>
         (case vs of None \<Rightarrow> False | Some l \<Rightarrow> ND_DTLS_1_3_VERSION \<in> set l)
      then (case Option.bind ks x25519_share of
              None \<Rightarrow> Inl ND_ERR_UNSUPPORTED
            | Some k \<Rightarrow> Inr \<lparr>ch_random = cw_random m, ch_x25519_public_key = k\<rparr>)
      else Inl ND_ERR_UNSUPPORTED)"

text \<open>The messages that the serializers are meant to produce.\<close>

definition offered_client_hello :: "nd_client_hello_params \<Rightarrow> client_hello_wire" where
  "offered_client_hello p =
     \<lparr>cw_version = ND_DTLS_1_2_LEGACY_VERSION, cw_random = chp_random p, cw_session_id = [],
      cw_cookie = [], cw_suites = [ND_CIPHER_SUITE_CHACHA20_POLY1305_SHA256], cw_compression = [0],
      cw_extensions =
        [(43, vec8 (u16_list_bytes [ND_DTLS_1_3_VERSION])),
         (10, vec16 (u16_list_bytes [ND_NAMED_GROUP_X25519])),
         (51, vec16 (tagged_bytes [(ND_NAMED_GROUP_X25519, chp_x25519_public_key p)])),
         (13, vec16 (u16_list_bytes [0x0403, 0x0804, 0x0807]))]\<rparr>"

definition selected_server_hello :: "nd_server_hello_params \<Rightarrow> server_hello_wire" where
  "selected_server_hello p =
     \<lparr>sw_version = ND_DTLS_1_2_LEGACY_VERSION, sw_random = shp_random p, sw_session_id = [],
      sw_suite = ND_CIPHER_SUITE_CHACHA20_POLY1305_SHA256, sw_compression = 0,
      sw_extensions =
        [(43, put_be16 ND_DTLS_1_3_VERSION),
         (51, tagged_bytes [(ND_NAMED_GROUP_X25519, shp_x25519_public_key p)])]\<rparr>"

section \<open>Loops as functions of the wire structure\<close>

lemma length_vec [simp, len_simps]:
  "length (vec8 bs) = Suc (length bs)" "length (vec16 bs) = 2 + length bs"
  by (simp_all add: vec8_def vec16_def)

lemma length_u16_list_bytes [simp, len_simps]: "length (u16_list_bytes vs) = 2 * length vs"
  by (induction vs) (simp_all add: u16_list_bytes_def)

lemma tagged_bytes_simps [simp]:
  "tagged_bytes [] = []"
  "tagged_bytes ((t, d) # es) = put_be16 t @ put_be16 (of_nat (length d)) @ d @ tagged_bytes es"
  by (simp_all add: tagged_bytes_def)

lemma put_be16_neq_Nil [simp]: "put_be16 v \<noteq> []"
  by (simp add: put_be16_def)

lemma unat_of_nat8: "n \<le> 255 \<Longrightarrow> unat (of_nat n :: byte) = n"
  by (simp add: unat_of_nat)

lemma r_skip_vec8:
  "length bs \<le> 255 \<Longrightarrow> r_u8 (vec8 bs @ rest) = Some (of_nat (length bs), bs @ rest) \<and>
     r_skip (bs @ rest) (unat (of_nat (length bs) :: byte)) = Some rest"
  by (simp add: vec8_def reads unat_of_nat8)

lemma r_view_vec16:
  "length bs \<le> 0xFFFF \<Longrightarrow> r_u16 (vec16 bs @ rest) = Some (of_nat (length bs), bs @ rest) \<and>
     r_view (bs @ rest) (unat (of_nat (length bs) :: u16)) = Some (bs, rest)"
  by (simp add: vec16_def reads unat_of_nat16)

lemma find_extension_map_of:
  "length (tagged_bytes es) \<le> 0xFFFF \<Longrightarrow> find_extension (tagged_bytes es) t = map_of es t"
proof (induction es)
  case Nil
  then show ?case by (simp add: find_extension.simps)
next
  case (Cons e es)
  obtain t' d where "e = (t', d)" by (cases e)
  then show ?case
    using Cons by (subst find_extension.simps) (simp add: reads unat_of_nat16)
qed

lemma scan_suites_list:
  "scan_suites (u16_list_bytes vs) found =
     Inr (found \<or> ND_CIPHER_SUITE_CHACHA20_POLY1305_SHA256 \<in> set vs)"
proof (induction vs arbitrary: found)
  case Nil
  then show ?case by (simp add: u16_list_bytes_def scan_suites.simps)
next
  case (Cons v vs)
  have "u16_list_bytes (v # vs) = put_be16 v @ u16_list_bytes vs" by (simp add: u16_list_bytes_def)
  then show ?case using Cons.IH by (subst scan_suites.simps) (auto simp: reads)
qed

lemma scan_versions_list:
  "scan_versions (pre @ u16_list_bytes vs) (length pre) found \<longleftrightarrow>
     found \<or> ND_DTLS_1_3_VERSION \<in> set vs"
proof (induction vs arbitrary: pre found)
  case Nil
  then show ?case by (simp add: u16_list_bytes_def scan_versions.simps)
next
  case (Cons v vs)
  have split: "pre @ u16_list_bytes (v # vs) = (pre @ put_be16 v) @ u16_list_bytes vs"
    by (simp add: u16_list_bytes_def)
  have "be16 ((pre @ u16_list_bytes (v # vs)) ! length pre)
      ((pre @ u16_list_bytes (v # vs)) ! (length pre + 1)) = v"
    by (simp add: u16_list_bytes_def put_be16_def nth_append)
  moreover note Cons.IH [of "pre @ put_be16 v"]
  ultimately show ?case
    by (subst scan_versions.simps) (auto simp: split)
qed

lemma scan_key_shares_list:
  "length (tagged_bytes es) \<le> 0xFFFF \<Longrightarrow>
   scan_key_shares (tagged_bytes es) found =
     Inr (case x25519_share es of None \<Rightarrow> found | Some k \<Rightarrow> Some k)"
proof (induction es arbitrary: found)
  case Nil
  then show ?case by (simp add: scan_key_shares.simps x25519_share_def)
next
  case (Cons e es)
  obtain g k where "e = (g, k)" by (cases e)
  then show ?case
    using Cons
    by (subst scan_key_shares.simps)
      (auto simp: reads unat_of_nat16 x25519_share_def map_add_def split: option.splits)
qed

section \<open>Parsers on well-formed messages\<close>

lemma be16_eq_iff: "be16 a b = v \<longleftrightarrow> [a, b] = put_be16 v"
proof
  assume "be16 a b = v"
  then show "[a, b] = put_be16 v" using put_be_be(1) [of a b] by (simp only:)
next
  assume "[a, b] = put_be16 v"
  then show "be16 a b = v" by (simp add: put_be16_def)
qed

lemma two_bytes_be16: "length bs = 2 \<and> be16 (bs ! 0) (bs ! 1) = v \<longleftrightarrow> bs = put_be16 v"
proof
  assume "length bs = 2 \<and> be16 (bs ! 0) (bs ! 1) = v"
  moreover have "bs = [bs ! 0, bs ! 1]" if "length bs = 2"
    using that by (auto simp: numeral_2_eq_2 length_Suc_conv)
  ultimately show "bs = put_be16 v" by (metis be16_eq_iff)
qed (simp add: put_be16_def)

lemma read_server_share_eq:
  "read_server_share ks =
   (if 36 \<le> length ks \<and> take 4 ks = put_be16 ND_NAMED_GROUP_X25519 @ put_be16 32
    then Inr (slice_of 4 32 ks) else Inl ND_ERR_UNSUPPORTED)"
proof (cases "4 \<le> length ks")
  case True
  have t4: "take 4 ks = [ks ! 0, ks ! 1] @ [ks ! 2, ks ! 3]"
    using True by (simp add: take_map_nth upt_rec eval_nat_numeral)
  have eq: "take 4 ks = put_be16 ND_NAMED_GROUP_X25519 @ put_be16 32 \<longleftrightarrow>
      be16 (ks ! 0) (ks ! 1) = ND_NAMED_GROUP_X25519 \<and> be16 (ks ! 2) (ks ! 3) = 32"
    unfolding t4 be16_eq_iff by (subst append_eq_append_conv) simp_all
  have "unat (be16 (ks ! 2) (ks ! 3)) = 32 \<longleftrightarrow> be16 (ks ! 2) (ks ! 3) = 32"
    unfolding word_unat_eq_iff by simp
  then show ?thesis
    unfolding eq using True
    by (auto simp: read_server_share_def r_u16_def r_bytes_def r_view_def slice_of_def)
next
  case False
  then show ?thesis by (auto simp: read_server_share_def r_u16_def r_bytes_def)
qed

lemma offers_dtls13_list:
  assumes "length vs \<le> 127"
  shows "offers_dtls13 (vec8 (u16_list_bytes vs)) \<longleftrightarrow> ND_DTLS_1_3_VERSION \<in> set vs"
proof -
  have "even (of_nat (2 * length vs) :: byte)" by simp
  then have "(of_nat (2 * length vs) :: byte) mod 2 = 0" by (simp only: even_iff_mod_2_eq_zero)
  then show ?thesis
    using assms scan_versions_list [of "[of_nat (2 * length vs)]" vs False]
    by (simp add: offers_dtls13_def vec8_def unat_of_nat8 del: of_nat_mult)
qed

lemma read_client_shares_list:
  "length (tagged_bytes l) \<le> 0xFFFF \<Longrightarrow>
   read_client_shares (vec16 (tagged_bytes l)) = or_fail ND_ERR_UNSUPPORTED (x25519_share l)"
  using r_view_vec16 [of "tagged_bytes l" "[]"]
  by (simp add: read_client_shares_def scan_key_shares_list split: option.splits)

text \<open>The parsers on a well-formed message, up to the lookups of the two extensions.\<close>

lemma server_hello_parse_extensions:
  assumes "server_hello_wire_wf m"
  shows "nd_server_hello_parse (Buf (server_hello_bytes m @ rest)) =
      then_ok (or_fail ND_ERR_UNSUPPORTED (map_of (sw_extensions m) 43)) (\<lambda>sv.
        if length sv \<noteq> 2 then Inl ND_ERR_UNSUPPORTED
        else if be16 (sv ! 0) (sv ! 1) \<noteq> ND_DTLS_1_3_VERSION then Inl ND_ERR_UNSUPPORTED
        else then_ok (or_fail ND_ERR_UNSUPPORTED (map_of (sw_extensions m) 51)) (\<lambda>ks.
          then_ok (read_server_share ks) (\<lambda>key.
            Inr \<lparr>sh_random = sw_random m, sh_cipher_suite = sw_suite m,
              sh_selected_version = be16 (sv ! 0) (sv ! 1), sh_key_share = key\<rparr>)))"
proof -
  have sid: "length (sw_session_id m) \<le> 255" and ext: "length (tagged_bytes (sw_extensions m)) \<le> 0xFFFF"
    and rnd: "length (sw_random m) = 32"
    using assms by (auto simp: server_hello_wire_wf_def)
  show ?thesis
    by (simp add: server_hello_bytes_def reads rnd r_skip_vec8 [OF sid] r_view_vec16 [OF ext]
        find_extension_map_of [OF ext] Let_def cong: if_cong)
qed

lemma client_hello_parse_extensions:
  assumes "client_hello_wire_wf m"
  shows "nd_client_hello_parse (Buf (client_hello_bytes m @ rest)) =
      (if ND_CIPHER_SUITE_CHACHA20_POLY1305_SHA256 \<notin> set (cw_suites m) then Inl ND_ERR_UNSUPPORTED
       else then_ok (or_fail ND_ERR_UNSUPPORTED (map_of (cw_extensions m) 43)) (\<lambda>sv_data.
         if \<not> offers_dtls13 sv_data then Inl ND_ERR_UNSUPPORTED
         else then_ok (or_fail ND_ERR_UNSUPPORTED (map_of (cw_extensions m) 51)) (\<lambda>ks_data.
           then_ok (read_client_shares ks_data) (\<lambda>key.
             Inr \<lparr>ch_random = cw_random m, ch_x25519_public_key = key\<rparr>))))"
proof -
  have wf: "length (cw_session_id m) \<le> 255" "length (cw_cookie m) \<le> 255"
      "length (u16_list_bytes (cw_suites m)) \<le> 0xFFFF" "length (cw_compression m) \<le> 255"
      "length (tagged_bytes (cw_extensions m)) \<le> 0xFFFF" "length (cw_random m) = 32"
    using assms(1) by (auto simp: client_hello_wire_wf_def)
  show ?thesis
    by (simp add: client_hello_bytes_def reads wf(6) r_skip_vec8 [OF wf(1)] r_skip_vec8 [OF wf(2)]
        r_view_vec16 [OF wf(3)] r_skip_vec8 [OF wf(4)] r_view_vec16 [OF wf(5)] scan_suites_list
        find_extension_map_of [OF wf(5)] cong: if_cong del: length_u16_list_bytes)
qed

section \<open>Serializers write the messages\<close>

lemma length_tagged_one [simp]: "length (tagged_bytes [(t, d)]) = 4 + length d"
  by simp

lemma client_hello_serialize_eq:
  "nd_client_hello_serialize (Some p) cap =
     (let out = client_hello_bytes (offered_client_hello p) in
      if cap < length out then Inl ND_ERR_BAD_LENGTH else Inr out)"
  unfolding nd_client_hello_serialize.simps Let_def
  by (rule emits_finish, rule back_subst [of "emits _"], (rule emits_intros)+)
    (simp add: client_hello_bytes_def offered_client_hello_def vec8_def vec16_def u16_list_bytes_def)

lemma server_hello_serialize_eq:
  "nd_server_hello_serialize (Some p) cap =
     (let out = server_hello_bytes (selected_server_hello p) in
      if cap < length out then Inl ND_ERR_BAD_LENGTH else Inr out)"
  unfolding nd_server_hello_serialize.simps Let_def
  by (rule emits_finish, rule back_subst [of "emits _"], (rule emits_intros)+)
    (simp add: server_hello_bytes_def selected_server_hello_def vec8_def vec16_def u16_list_bytes_def)

section \<open>Properties\<close>

text \<open>C26: On every well-formed ServerHello, with any session id, any extensions in any order and any
  trailing bytes, \<^verbatim>\<open>nd_server_hello_parse\<close> returns what the specification says: the fields and the
  32-byte X25519 share when the selected version is DTLS 1.3 and the share is for X25519, and
  \<^verbatim>\<open>ND_ERR_UNSUPPORTED\<close> otherwise.\<close>

theorem server_hello_parse_wire:
  assumes "server_hello_wire_wf m"
  shows "nd_server_hello_parse (Buf (server_hello_bytes m @ rest)) = server_hello_spec m"
  using two_bytes_be16 [of "the (map_of (sw_extensions m) 43)" ND_DTLS_1_3_VERSION]
  unfolding server_hello_parse_extensions [OF assms]
  by (cases "map_of (sw_extensions m) 43"; cases "map_of (sw_extensions m) 51")
    (auto simp: server_hello_spec_def read_server_share_eq)

theorem server_hello_parse_wire_witness:
  "nd_server_hello_parse (Buf (server_hello_bytes \<lparr>sw_version = 0xfefd, sw_random = replicate 32 7,
       sw_session_id = [1, 2], sw_suite = 0x1303, sw_compression = 0,
       sw_extensions = [(99, [5]), (51, [0, 0x1d, 0, 32] @ replicate 32 9), (43, [0xfe, 0xfc])]\<rparr> @ [])) =
     Inr \<lparr>sh_random = replicate 32 7, sh_cipher_suite = 0x1303, sh_selected_version = 0xfefc,
       sh_key_share = replicate 32 9\<rparr>"
  by (subst server_hello_parse_wire)
    (simp_all add: server_hello_wire_wf_def server_hello_spec_def put_be16_def slice_of_def)

text \<open>C27: On every well-formed ClientHello, with any session id, cookie, suites, compression methods
  and extensions in any order and any trailing bytes, \<^verbatim>\<open>nd_client_hello_parse\<close> accepts exactly when
  the ChaCha20-Poly1305 suite, DTLS 1.3 and a 32-byte X25519 share are offered, and returns the
  random and the key of the last such share; otherwise it returns \<^verbatim>\<open>ND_ERR_UNSUPPORTED\<close>.\<close>

theorem client_hello_parse_wire:
  assumes "client_hello_wire_wf m"
    and "map_of (cw_extensions m) 43 = map_option (\<lambda>l. vec8 (u16_list_bytes l)) vs"
    and "map_of (cw_extensions m) 51 = map_option (\<lambda>l. vec16 (tagged_bytes l)) ks"
    and "\<And>l. vs = Some l \<Longrightarrow> length l \<le> 127"
    and "\<And>l. ks = Some l \<Longrightarrow> length (tagged_bytes l) \<le> 0xFFFF"
  shows "nd_client_hello_parse (Buf (client_hello_bytes m @ rest)) = client_hello_spec m vs ks"
proof -
  have "offers_dtls13 (vec8 (u16_list_bytes l)) \<longleftrightarrow> ND_DTLS_1_3_VERSION \<in> set l"
    if "vs = Some l" for l
    using assms(4) [OF that] by (rule offers_dtls13_list)
  moreover have "read_client_shares (vec16 (tagged_bytes l)) = or_fail ND_ERR_UNSUPPORTED (x25519_share l)"
    if "ks = Some l" for l
    using assms(5) [OF that] by (rule read_client_shares_list)
  ultimately show ?thesis
    unfolding client_hello_parse_extensions [OF assms(1)]
    by (cases vs; cases ks) (auto simp: assms(2,3) client_hello_spec_def split: option.splits)
qed

theorem client_hello_parse_wire_witness:
  "nd_client_hello_parse (Buf (client_hello_bytes \<lparr>cw_version = 0xfefd, cw_random = replicate 32 7,
       cw_session_id = [1, 2], cw_cookie = [3], cw_suites = [0x1301, 0x1303], cw_compression = [0],
       cw_extensions = [(51, vec16 (tagged_bytes [(0x17, [4]), (0x1d, replicate 32 9)])),
         (43, vec8 (u16_list_bytes [0xfefd, 0xfefc]))]\<rparr> @ [])) =
     Inr \<lparr>ch_random = replicate 32 7, ch_x25519_public_key = replicate 32 9\<rparr>"
  by (subst client_hello_parse_wire [where vs = "Some [0xfefd, 0xfefc]" and
        ks = "Some [(0x17, [4]), (0x1d, replicate 32 9)]"])
    (simp_all add: client_hello_wire_wf_def client_hello_spec_def x25519_share_def)

text \<open>C28: The two sides agree: the server's parser reads from the client's serialized ClientHello the
  client's random and public key, and the client's parser reads from the server's serialized
  ServerHello the server's random, suite and public key.\<close>

theorem hello_agreement:
  assumes "length (chp_random cp) = ND_RANDOM_LEN" "length (chp_x25519_public_key cp) = ND_X25519_LEN"
    and "length (shp_random sp) = ND_RANDOM_LEN" "length (shp_x25519_public_key sp) = ND_X25519_LEN"
  shows "\<exists>ch sh. nd_client_hello_serialize (Some cp) 512 = Inr ch \<and>
      nd_client_hello_parse (Buf ch) =
        Inr \<lparr>ch_random = chp_random cp, ch_x25519_public_key = chp_x25519_public_key cp\<rparr> \<and>
      nd_server_hello_serialize (Some sp) 512 = Inr sh \<and>
      nd_server_hello_parse (Buf sh) =
        Inr \<lparr>sh_random = shp_random sp, sh_cipher_suite = ND_CIPHER_SUITE_CHACHA20_POLY1305_SHA256,
             sh_selected_version = ND_DTLS_1_3_VERSION, sh_key_share = shp_x25519_public_key sp\<rparr>"
proof -
  have "client_hello_wire_wf (offered_client_hello cp)" "server_hello_wire_wf (selected_server_hello sp)"
    using assms
    by (simp_all add: client_hello_wire_wf_def offered_client_hello_def server_hello_wire_wf_def
        selected_server_hello_def)
  note parse = client_hello_parse_extensions [OF this(1), of "[]"]
    server_hello_parse_extensions [OF this(2), of "[]"]
  have "length (client_hello_bytes (offered_client_hello cp)) \<le> 512"
    "length (server_hello_bytes (selected_server_hello sp)) \<le> 512"
    using assms
    by (simp_all add: client_hello_bytes_def offered_client_hello_def server_hello_bytes_def
        selected_server_hello_def)
  moreover have "nd_client_hello_parse (Buf (client_hello_bytes (offered_client_hello cp))) =
      Inr \<lparr>ch_random = chp_random cp, ch_x25519_public_key = chp_x25519_public_key cp\<rparr>"
    using parse(1) assms offers_dtls13_list [of "[ND_DTLS_1_3_VERSION]"]
      read_client_shares_list [of "[(ND_NAMED_GROUP_X25519, chp_x25519_public_key cp)]"]
    by (simp add: offered_client_hello_def x25519_share_def del: nd_client_hello_parse.simps)
  moreover have "nd_server_hello_parse (Buf (server_hello_bytes (selected_server_hello sp))) =
      Inr \<lparr>sh_random = shp_random sp, sh_cipher_suite = ND_CIPHER_SUITE_CHACHA20_POLY1305_SHA256,
           sh_selected_version = ND_DTLS_1_3_VERSION, sh_key_share = shp_x25519_public_key sp\<rparr>"
    using parse(2) assms two_bytes_be16 [of "put_be16 ND_DTLS_1_3_VERSION" ND_DTLS_1_3_VERSION]
    by (simp add: selected_server_hello_def read_server_share_eq slice_of_def
        del: nd_server_hello_parse.simps)
  ultimately show ?thesis
    by (simp add: client_hello_serialize_eq server_hello_serialize_eq Let_def not_less
        del: nd_client_hello_parse.simps nd_server_hello_parse.simps
          nd_client_hello_serialize.simps nd_server_hello_serialize.simps)
qed

theorem hello_agreement_witness:
  "\<exists>ch sh. nd_client_hello_serialize (Some \<lparr>chp_random = replicate 32 1,
        chp_x25519_public_key = replicate 32 2\<rparr>) 512 = Inr ch \<and>
      nd_client_hello_parse (Buf ch) =
        Inr \<lparr>ch_random = replicate 32 1, ch_x25519_public_key = replicate 32 2\<rparr> \<and>
      nd_server_hello_serialize (Some \<lparr>shp_random = replicate 32 3,
        shp_x25519_public_key = replicate 32 4\<rparr>) 512 = Inr sh \<and>
      nd_server_hello_parse (Buf sh) =
        Inr \<lparr>sh_random = replicate 32 3, sh_cipher_suite = 0x1303,
             sh_selected_version = 0xfefc, sh_key_share = replicate 32 4\<rparr>"
  using hello_agreement [of "\<lparr>chp_random = replicate 32 1, chp_x25519_public_key = replicate 32 2\<rparr>"
      "\<lparr>shp_random = replicate 32 3, shp_x25519_public_key = replicate 32 4\<rparr>"]
  by (simp del: nd_client_hello_parse.simps nd_server_hello_parse.simps
      nd_client_hello_serialize.simps nd_server_hello_serialize.simps)

end
