(* ===== verification/Asn1.thy ===== *)
theory Asn1
  imports Prelude
begin

text \<open>
  The DER reader and the ECDSA-Sig-Value writer of \<^verbatim>\<open>src/x509/asn1.c\<close> and
  \<^verbatim>\<open>include/nanodtls/asn1.h\<close>. A length on the wire is a 64-bit \<^verbatim>\<open>size_t\<close> and is kept as a
  word, so that the overflow guard of the source is visible. The value pointer and its length are
  the value bytes. A reader is the bytes between its position and its end.
  Shown: an accepted element lies inside the buffer, whatever the length octets say; every element
  written with a definite length of one to eight octets is read back; a loop over a reader ends;
  an encoded signature reads back as the two scalars.
\<close>

unbundle bit_operations_syntax

abbreviation (input) ND_ASN1_TAG_INTEGER :: byte where "ND_ASN1_TAG_INTEGER \<equiv> 0x02"
abbreviation (input) ND_ASN1_TAG_BIT_STRING :: byte where "ND_ASN1_TAG_BIT_STRING \<equiv> 0x03"
abbreviation (input) ND_ASN1_TAG_OCTET_STRING :: byte where "ND_ASN1_TAG_OCTET_STRING \<equiv> 0x04"
abbreviation (input) ND_ASN1_TAG_OID :: byte where "ND_ASN1_TAG_OID \<equiv> 0x06"
abbreviation (input) ND_ASN1_TAG_UTC_TIME :: byte where "ND_ASN1_TAG_UTC_TIME \<equiv> 0x17"
abbreviation (input) ND_ASN1_TAG_GENERALIZED_TIME :: byte where "ND_ASN1_TAG_GENERALIZED_TIME \<equiv> 0x18"
abbreviation (input) ND_ASN1_TAG_SEQUENCE :: byte where "ND_ASN1_TAG_SEQUENCE \<equiv> 0x30"

section \<open>Elements\<close>

record nd_asn1_tlv =
  tlv_tag :: byte
  tlv_constructed :: bool
  tlv_header_len :: nat
  tlv_value :: "byte list"

text \<open>The length octets: the position after them and the length.\<close>

definition parse_length :: "byte list \<Rightarrow> (nat \<times> u64) result" where
  "parse_length buf =
     (let pos = 2; len0 = buf ! 1 in
      if len0 AND 0x80 = 0 then Inr (pos, ucast len0)
      else
        let nbytes = unat (len0 AND 0x7F) in
        if nbytes = 0 then Inl ND_ERR_UNSUPPORTED
        else if nbytes > 8 then Inl ND_ERR_BAD_LENGTH
        else if pos + nbytes > length buf then Inl ND_ERR_TRUNCATED
        else Inr (pos + nbytes,
                  foldl (\<lambda>value_len i. push_bit 8 value_len OR ucast (buf ! (pos + i))) 0 [0..<nbytes]))"

fun nd_asn1_parse_tlv :: "cbuf \<Rightarrow> nd_asn1_tlv result" where
  "nd_asn1_parse_tlv (NULL_buf n) = Inl ND_ERR_BAD_ARG"
| "nd_asn1_parse_tlv (Buf buf) =
     (if length buf < 2 then Inl ND_ERR_TRUNCATED
      else
        let tag = buf ! 0 in
        if tag AND 0x1F = 0x1F then Inl ND_ERR_UNSUPPORTED
        else then_ok (parse_length buf) (\<lambda>(pos, value_len).
          if of_nat pos + value_len < of_nat pos then Inl ND_ERR_BAD_LENGTH
          else if unat (of_nat pos + value_len) > length buf then Inl ND_ERR_BAD_LENGTH
          else Inr \<lparr>tlv_tag = tag, tlv_constructed = (tag AND 0x20 \<noteq> 0), tlv_header_len = pos,
                    tlv_value = slice_of pos (unat value_len) buf\<rparr>))"

section \<open>Readers\<close>

type_synonym nd_asn1_reader = "byte list"

definition nd_asn1_reader_init :: "byte list \<Rightarrow> nd_asn1_reader" where
  "nd_asn1_reader_init buf = buf"

definition nd_asn1_reader_done :: "nd_asn1_reader \<Rightarrow> bool" where
  "nd_asn1_reader_done r \<longleftrightarrow> length r = 0"

definition nd_asn1_reader_next :: "nd_asn1_reader \<Rightarrow> (nd_asn1_tlv \<times> nd_asn1_reader) result" where
  "nd_asn1_reader_next r =
     (if length r = 0 then Inl ND_ERR_TRUNCATED
      else then_ok (nd_asn1_parse_tlv (Buf r)) (\<lambda>tlv.
        Inr (tlv, drop (tlv_header_len tlv + length (tlv_value tlv)) r)))"

section \<open>Integers and bit strings\<close>

fun nd_asn1_read_uint_fixed :: "nd_asn1_tlv ptr \<Rightarrow> nat \<Rightarrow> byte list result" where
  "nd_asn1_read_uint_fixed None out_len = Inl ND_ERR_BAD_ARG"
| "nd_asn1_read_uint_fixed (Some tlv) out_len =
     (if tlv_tag tlv \<noteq> ND_ASN1_TAG_INTEGER then Inl ND_ERR_BAD_ARG
      else
        let p = tlv_value tlv in
        if length p = 0 then Inl ND_ERR_BAD_LENGTH
        else
          let stripped = (length p > 1 \<and> p ! 0 = 0x00);
              p = (if stripped then drop 1 p else p)
          in
          if length p = 0 \<or> length p > out_len then Inl ND_ERR_BAD_LENGTH
          else if \<not> stripped \<and> p ! 0 AND 0x80 \<noteq> 0 then Inl ND_ERR_UNSUPPORTED
          else Inr (replicate (out_len - length p) 0 @ p))"

fun nd_asn1_read_bitstring_bytes :: "nd_asn1_tlv ptr \<Rightarrow> byte list result" where
  "nd_asn1_read_bitstring_bytes None = Inl ND_ERR_BAD_ARG"
| "nd_asn1_read_bitstring_bytes (Some tlv) =
     (if tlv_tag tlv \<noteq> ND_ASN1_TAG_BIT_STRING then Inl ND_ERR_BAD_ARG
      else if length (tlv_value tlv) < 1 then Inl ND_ERR_BAD_LENGTH
      else if tlv_value tlv ! 0 \<noteq> 0x00 then Inl ND_ERR_UNSUPPORTED
      else Inr (drop 1 (tlv_value tlv)))"

section \<open>The signature encoder\<close>

text \<open>The loop that skips leading zero bytes, up to the last byte.\<close>

function skip_zeros :: "byte list \<Rightarrow> nat \<Rightarrow> nat" where
  "skip_zeros val start =
     (if start < 31 \<and> val ! start = 0 then skip_zeros val (start + 1) else start)"
  by pat_completeness auto
termination
  by (relation "measure (\<lambda>(val, start). 31 - start)") auto

declare skip_zeros.simps [simp del]

definition der_encode_uint32 :: "byte list \<Rightarrow> byte list" where
  "der_encode_uint32 val =
     (let start = skip_zeros val 0;
          n = 32 - start;
          need_pad = (val ! start AND 0x80 \<noteq> 0);
          len = n + (if need_pad then 1 else 0)
      in [ND_ASN1_TAG_INTEGER, of_nat len] @ (if need_pad then [0x00] else []) @
         slice_of start n val)"

fun nd_asn1_write_ecdsa_sig_value :: "byte list ptr \<Rightarrow> byte list ptr \<Rightarrow> nat \<Rightarrow> byte list result" where
  "nd_asn1_write_ecdsa_sig_value (Some r) (Some s) out_buf_cap =
     (let body = der_encode_uint32 r @ der_encode_uint32 s in
      if length body > 127 then Inl ND_ERR_BAD_LENGTH
      else if 2 + length body > out_buf_cap then Inl ND_ERR_BAD_LENGTH
      else Inr ([ND_ASN1_TAG_SEQUENCE, of_nat (length body)] @ body))"
| "nd_asn1_write_ecdsa_sig_value r s out_buf_cap = Inl ND_ERR_BAD_ARG"

section \<open>Definite-length encodings\<close>

text \<open>An element with a short length, and one with a long length of \<open>k\<close> octets.\<close>

definition tlv_short :: "byte \<Rightarrow> byte list \<Rightarrow> byte list" where
  "tlv_short tag v = [tag, of_nat (length v)] @ v"

definition tlv_long :: "nat \<Rightarrow> byte \<Rightarrow> byte list \<Rightarrow> byte list" where
  "tlv_long k tag v = [tag, 0x80 OR of_nat k] @ be_put k (of_nat (length v) :: u64) @ v"

lemma long_length_fold:
  assumes "2 + n \<le> length buf"
  shows "foldl (\<lambda>value_len i. push_bit 8 value_len OR ucast (buf ! (2 + i))) 0 [0..<n] =
    (be_of (slice_of 2 n buf) :: u64)"
proof -
  have "slice_of 2 n buf = map (\<lambda>i. buf ! (2 + i)) [0..<n]"
    using assms by (intro nth_equalityI) (simp_all add: slice_of_def)
  then show ?thesis by (simp add: be_of_def foldl_map)
qed

text \<open>Where the length octets end, and that they end within the buffer.\<close>

lemma parse_length_pos:
  assumes "parse_length buf = Inr (pos, len)" "2 \<le> length buf"
  shows "2 \<le> pos \<and> pos \<le> 10 \<and> pos \<le> length buf"
  using assms by (auto simp: parse_length_def Let_def split: if_splits)

lemma parse_tlv_bounds:
  assumes "nd_asn1_parse_tlv (Buf buf) = Inr t" 
  shows "2 \<le> tlv_header_len t \<and> tlv_header_len t + length (tlv_value t) \<le> length buf \<and>
    tlv_value t = slice_of (tlv_header_len t) (length (tlv_value t)) buf"
proof -
  obtain pos len where pl: "parse_length buf = Inr (pos, len)" and two: "2 \<le> length buf"
    and no_wrap: "\<not> of_nat pos + len < of_nat pos" and le: "unat (of_nat pos + len) \<le> length buf"
    and t: "tlv_header_len t = pos" "tlv_value t = slice_of pos (unat len) buf"
    using assms by (auto simp: Let_def then_ok_eq_Inr)
  have pos: "2 \<le> pos" "pos \<le> 10" using parse_length_pos [OF pl two] by auto
  have "unat (of_nat pos + len) = pos + unat len"
  proof -
    have "of_nat pos \<le> of_nat pos + len" using no_wrap by simp
    then have "unat (of_nat pos + len) = unat (of_nat pos :: u64) + unat len"
      by (simp add: no_olen_add_nat unat_add_lem [THEN iffD1])
    then show ?thesis using pos by (simp add: unat_of_nat)
  qed
  then show ?thesis using le pos by (simp add: t)
qed

text \<open>The reader always moves forward, so every loop over it ends.\<close>

lemma asn1_reader_next_shorter:
  assumes "nd_asn1_reader_next r = Inr (tlv, r')"
  shows "length r' < length r"
proof -
  from assms have "r \<noteq> []" and p: "nd_asn1_parse_tlv (Buf r) = Inr tlv"
    and r': "r' = drop (tlv_header_len tlv + length (tlv_value tlv)) r"
    by (auto simp: nd_asn1_reader_next_def then_ok_eq_Inr)
  with parse_tlv_bounds [OF p] show ?thesis by (cases r) auto
qed

section \<open>Reading back what was written\<close>

lemma parse_tlv_short:
  assumes "tag AND 0x1F \<noteq> 0x1F" "length v < 128"
  shows "nd_asn1_parse_tlv (Buf (tlv_short tag v @ rest)) =
    Inr \<lparr>tlv_tag = tag, tlv_constructed = (tag AND 0x20 \<noteq> 0), tlv_header_len = 2, tlv_value = v\<rparr>"
proof -
  let ?l = "of_nat (length v) :: byte"
  have l: "unat ?l = length v" using assms(2) by (simp add: unat_of_nat)
  have "take_bit 7 ?l = ?l" using l assms(2) by (intro take_bit_wire) simp
  then have "\<not> bit ?l 7" by (metis bit_take_bit_iff order.irrefl)
  then have z: "?l AND 0x80 = 0"
    using and_exp_eq_0_iff_not_bit [of ?l 7] by simp
  have u: "unat (ucast ?l :: u64) = length v" using l by (simp add: unat_ucast_up)
  have "unat (2 + ucast ?l :: u64) = 2 + length v"
    using u assms(2) by (subst unat_add_lem [THEN iffD1]) simp_all
  moreover from this u have "\<not> (2 + ucast ?l :: u64) < 2"
    by (simp add: word_less_nat_alt)
  ultimately show ?thesis
    using assms u by (simp add: tlv_short_def parse_length_def Let_def z slice_of_def)
qed

lemma length_octets:
  assumes "1 \<le> k" "k \<le> 8"
  shows "(0x80 OR of_nat k :: byte) AND 0x80 \<noteq> 0" "unat ((0x80 OR of_nat k :: byte) AND 0x7F) = k"
proof -
  have "k \<in> {1, 2, 3, 4, 5, 6, 7, 8}" using assms by auto
  then show "(0x80 OR of_nat k :: byte) AND 0x80 \<noteq> 0" "unat ((0x80 OR of_nat k :: byte) AND 0x7F) = k"
    by auto
qed

lemma parse_tlv_long:
  assumes "tag AND 0x1F \<noteq> 0x1F" "1 \<le> k" "k \<le> 8" "length v < 256 ^ k" "length v < 2 ^ 60"
  shows "nd_asn1_parse_tlv (Buf (tlv_long k tag v @ rest)) =
    Inr \<lparr>tlv_tag = tag, tlv_constructed = (tag AND 0x20 \<noteq> 0), tlv_header_len = 2 + k, tlv_value = v\<rparr>"
proof -
  let ?buf = "tlv_long k tag v @ rest" and ?n = "of_nat (length v) :: u64"
  note lo = length_octets [OF assms(2,3)]
  have n: "unat ?n = length v" using assms(5) by (simp add: unat_of_nat)
  have "slice_of 2 k ?buf = be_put k ?n" by (simp add: tlv_long_def slice_of_def)
  moreover have "be_of (be_put k ?n) = ?n"
    using assms(4) by (simp add: be_of_be_put take_bit_wire n power_mult)
  ultimately have "parse_length ?buf = Inr (2 + k, ?n)"
    using lo assms(2,3) long_length_fold [of k ?buf] 
    by (simp add: parse_length_def Let_def tlv_long_def)
  moreover have k: "unat (of_nat (2 + k) :: u64) = 2 + k"
    unfolding unat_of_nat using assms(3) by simp
  moreover have sum: "unat (of_nat (2 + k) + ?n) = 2 + k + length v"
    using assms(3,5) n k by (subst unat_add_lem [THEN iffD1]) (simp_all del: of_nat_add)
  moreover have "\<not> of_nat (2 + k) + ?n < (of_nat (2 + k) :: u64)"
    unfolding word_less_nat_alt sum k by simp
  ultimately show ?thesis
    using assms(1) n by (simp add: tlv_long_def slice_of_def del: of_nat_add)
qed

lemma reader_next_short:
  assumes "tag AND 0x1F \<noteq> 0x1F" "length v < 128"
  shows "nd_asn1_reader_next (tlv_short tag v @ rest) =
    Inr (\<lparr>tlv_tag = tag, tlv_constructed = (tag AND 0x20 \<noteq> 0), tlv_header_len = 2, tlv_value = v\<rparr>, rest)"
  using parse_tlv_short [OF assms]
  by (simp add: nd_asn1_reader_next_def tlv_short_def del: nd_asn1_parse_tlv.simps)

section \<open>Unsigned integers\<close>

lemma skip_zeros_props:
  "start \<le> 31 \<Longrightarrow> start \<le> skip_zeros val start \<and> skip_zeros val start \<le> 31 \<and>
     (\<forall>i. start \<le> i \<and> i < skip_zeros val start \<longrightarrow> val ! i = 0) \<and>
     (skip_zeros val start < 31 \<longrightarrow> val ! skip_zeros val start \<noteq> 0)"
proof (induction val start rule: skip_zeros.induct)
  case (1 val start)
  show ?case
  proof (cases "start < 31 \<and> val ! start = 0")
    case True
    then have eq: "skip_zeros val start = skip_zeros val (start + 1)" by (subst skip_zeros.simps) simp
    let ?s = "skip_zeros val (start + 1)"
    from 1 True have IH: "start + 1 \<le> ?s" "?s \<le> 31"
      "\<And>i. start + 1 \<le> i \<Longrightarrow> i < ?s \<Longrightarrow> val ! i = 0" "?s < 31 \<Longrightarrow> val ! ?s \<noteq> 0" by auto
    have "val ! i = 0" if "start \<le> i" "i < ?s" for i
      using IH(3) True that by (cases "i = start") auto
    with IH show ?thesis unfolding eq by auto
  next
    case False
    then have "skip_zeros val start = start" by (subst skip_zeros.simps) auto
    with False 1 show ?thesis by auto
  qed
qed

text \<open>The contents octets that the encoder writes for a 32-byte value.\<close>

definition der_uint_contents :: "byte list \<Rightarrow> byte list" where
  "der_uint_contents val =
     (let start = skip_zeros val 0 in
      (if val ! start AND 0x80 \<noteq> 0 then [0x00] else []) @ slice_of start (32 - start) val)"

lemma der_encode_uint32_tlv:
  assumes "length val = 32"
  shows "der_encode_uint32 val = tlv_short ND_ASN1_TAG_INTEGER (der_uint_contents val)"
    and "length (der_uint_contents val) \<le> 33"
proof -
  have "skip_zeros val 0 \<le> 31" using skip_zeros_props [of 0 val] by simp
  then show "der_encode_uint32 val = tlv_short ND_ASN1_TAG_INTEGER (der_uint_contents val)"
    "length (der_uint_contents val) \<le> 33"
    using assms
    by (auto simp: der_encode_uint32_def tlv_short_def der_uint_contents_def Let_def slice_of_def)
qed

lemma read_uint_contents:
  assumes "length val = 32"
  shows "nd_asn1_read_uint_fixed (Some \<lparr>tlv_tag = ND_ASN1_TAG_INTEGER, tlv_constructed = c,
      tlv_header_len = h, tlv_value = der_uint_contents val\<rparr>) 32 = Inr val"
proof -
  define s where "s = skip_zeros val 0"
  have s: "s \<le> 31" "\<And>i. i < s \<Longrightarrow> val ! i = 0" "s < 31 \<Longrightarrow> val ! s \<noteq> 0"
    using skip_zeros_props [of 0 val] by (auto simp: s_def)
  define p where "p = drop s val"
  have p: "length p = 32 - s" "p ! 0 = val ! s" "p \<noteq> []"
    using s(1) assms by (auto simp: p_def)
  have cont: "der_uint_contents val = (if p ! 0 AND 0x80 \<noteq> 0 then [0x00] else []) @ p"
    using assms unfolding p(2)
    by (simp add: der_uint_contents_def Let_def s_def [symmetric] p_def slice_of_def)
  have val: "replicate (32 - length p) 0 @ p = val"
    using s assms by (intro nth_equalityI) (auto simp: nth_append p_def)
  have one: "length p > 1 \<Longrightarrow> p ! 0 \<noteq> 0" using s(3) p by (cases "s < 31") auto
  show ?thesis
    using p val one s(1) unfolding cont by (auto simp: Let_def)
qed

section \<open>Properties\<close>

text \<open>Whatever length octets a buffer contains, an element that \<^verbatim>\<open>nd_asn1_parse_tlv\<close> accepts lies
  inside the buffer: header and value together are no longer than it, and the value is the slice
  after the header.\<close>

theorem asn1_parse_tlv_in_bounds:
  assumes "nd_asn1_parse_tlv (Buf buf) = Inr t"
  shows "tlv_header_len t + length (tlv_value t) \<le> length buf \<and>
         tlv_value t = slice_of (tlv_header_len t) (length (tlv_value t)) buf \<and> tlv_tag t = buf ! 0"
  using parse_tlv_bounds [OF assms] assms by (auto simp: Let_def then_ok_eq_Inr)

theorem asn1_parse_tlv_in_bounds_witness:
  "\<exists>t. nd_asn1_parse_tlv (Buf [0x30, 2, 7, 8, 9]) = Inr t \<and>
     tlv_header_len t + length (tlv_value t) \<le> 5"
proof -
  have "nd_asn1_parse_tlv (Buf [0x30, 2, 7, 8, 9]) =
    Inr \<lparr>tlv_tag = 0x30, tlv_constructed = True, tlv_header_len = 2, tlv_value = [7, 8]\<rparr>"
    by (simp add: parse_length_def slice_of_def)
  with asn1_parse_tlv_in_bounds [OF this] show ?thesis by simp
qed

lemma ecdsa_sig_value_ok:
  assumes "length r = 32" "length s = 32" "72 \<le> cap"
  shows "\<exists>out seq rt st rest. nd_asn1_write_ecdsa_sig_value (Some r) (Some s) cap = Inr out \<and>
    length out \<le> 72 \<and>
    nd_asn1_parse_tlv (Buf out) = Inr seq \<and> tlv_tag seq = ND_ASN1_TAG_SEQUENCE \<and>
    nd_asn1_reader_next (tlv_value seq) = Inr (rt, rest) \<and>
    nd_asn1_reader_next rest = Inr (st, []) \<and>
    nd_asn1_read_uint_fixed (Some rt) 32 = Inr r \<and> nd_asn1_read_uint_fixed (Some st) 32 = Inr s"
proof -
  let ?cr = "der_uint_contents r" and ?cs = "der_uint_contents s"
  let ?body = "tlv_short 2 ?cr @ tlv_short 2 ?cs"
  note er = der_encode_uint32_tlv [OF assms(1)] and es = der_encode_uint32_tlv [OF assms(2)]
  have len: "length ?body \<le> 70" using er(2) es(2) by (simp add: tlv_short_def)
  have w: "nd_asn1_write_ecdsa_sig_value (Some r) (Some s) cap = Inr (tlv_short 0x30 ?body)"
    using len assms(3) by (simp add: er(1) es(1) Let_def) (simp add: tlv_short_def)
  have "nd_asn1_parse_tlv (Buf (tlv_short 0x30 ?body)) = Inr
      \<lparr>tlv_tag = 0x30, tlv_constructed = True, tlv_header_len = 2, tlv_value = ?body\<rparr>"
    using parse_tlv_short [of "0x30" ?body "[]"] len by simp
  moreover have "nd_asn1_reader_next ?body = Inr (\<lparr>tlv_tag = 2, tlv_constructed = False,
      tlv_header_len = 2, tlv_value = ?cr\<rparr>, tlv_short 2 ?cs)"
    using reader_next_short [of 2 ?cr "tlv_short 2 ?cs"] er(2) by simp
  moreover have "nd_asn1_reader_next (tlv_short 2 ?cs) = Inr (\<lparr>tlv_tag = 2, tlv_constructed = False,
      tlv_header_len = 2, tlv_value = ?cs\<rparr>, [])"
    using reader_next_short [of 2 ?cs "[]"] es(2) by simp
  moreover have "length (tlv_short 0x30 ?body) \<le> 72" using len by (simp add: tlv_short_def)
  ultimately show ?thesis
    using w read_uint_contents [OF assms(1)] read_uint_contents [OF assms(2)]
    by (simp del: nd_asn1_write_ecdsa_sig_value.simps nd_asn1_parse_tlv.simps
        nd_asn1_read_uint_fixed.simps)
qed

text \<open>C39: The encoding of a signature always fits 72 bytes and reads back, the way the certificate
  and CertificateVerify code reads it, as the two 32-byte scalars with nothing left over.\<close>

theorem ecdsa_sig_value_round_trip:
  assumes "length r = 32" "length s = 32" "72 \<le> cap"
  shows "\<exists>out seq rt st rest. nd_asn1_write_ecdsa_sig_value (Some r) (Some s) cap = Inr out \<and>
    length out \<le> 72 \<and>
    nd_asn1_parse_tlv (Buf out) = Inr seq \<and> tlv_tag seq = ND_ASN1_TAG_SEQUENCE \<and>
    nd_asn1_reader_next (tlv_value seq) = Inr (rt, rest) \<and>
    nd_asn1_reader_next rest = Inr (st, []) \<and>
    nd_asn1_read_uint_fixed (Some rt) 32 = Inr r \<and> nd_asn1_read_uint_fixed (Some st) 32 = Inr s"
  by (rule ecdsa_sig_value_ok [OF assms])

theorem ecdsa_sig_value_round_trip_witness:
  "\<exists>out seq rt st rest. nd_asn1_write_ecdsa_sig_value (Some (replicate 32 0x80))
      (Some (replicate 31 0 @ [5])) 72 = Inr out \<and>
    length out \<le> 72 \<and>
    nd_asn1_parse_tlv (Buf out) = Inr seq \<and> tlv_tag seq = 0x30 \<and>
    nd_asn1_reader_next (tlv_value seq) = Inr (rt, rest) \<and>
    nd_asn1_reader_next rest = Inr (st, []) \<and>
    nd_asn1_read_uint_fixed (Some rt) 32 = Inr (replicate 32 0x80) \<and>
    nd_asn1_read_uint_fixed (Some st) 32 = Inr (replicate 31 0 @ [5])"
  by (rule ecdsa_sig_value_round_trip) simp_all




end
