(* ===== verification/Sha256.thy ===== *)
theory Sha256
  imports Prelude "HOL-Library.While_Combinator"
begin

text \<open>
  SHA-256: \<^verbatim>\<open>src/crypto/sha256.c\<close> and \<^verbatim>\<open>include/nanodtls/sha256.h\<close>. The context's block buffer
  is represented by the bytes it holds, \<^verbatim>\<open>buf[0 .. buf_len)\<close>; the stale bytes behind them are never
  read. The two \<^verbatim>\<open>while\<close> loops of the source are \<open>while\<close> of the library, and are shown to end.
  Shown: the round loop computes the compression function of FIPS 180-4, whose constants are roots of
  primes; feeding a message in any pieces and finishing gives that function iterated over the blocks of
  the padded message, so the digest depends only on the message; and the contract of a streaming hash,
  on which HMAC, HKDF and the transcript rest.
\<close>

unbundle bit_operations_syntax

abbreviation (input) ND_SHA256_BLOCK_LEN :: nat where "ND_SHA256_BLOCK_LEN \<equiv> 64"
abbreviation (input) ND_SHA256_DIGEST_LEN :: nat where "ND_SHA256_DIGEST_LEN \<equiv> 32"

section \<open>The compression function\<close>

definition sha256_K :: "u32 list" where
  "sha256_K = concat
    [[0x428a2f98, 0x71374491, 0xb5c0fbcf, 0xe9b5dba5, 0x3956c25b, 0x59f111f1, 0x923f82a4, 0xab1c5ed5],
     [0xd807aa98, 0x12835b01, 0x243185be, 0x550c7dc3, 0x72be5d74, 0x80deb1fe, 0x9bdc06a7, 0xc19bf174],
     [0xe49b69c1, 0xefbe4786, 0x0fc19dc6, 0x240ca1cc, 0x2de92c6f, 0x4a7484aa, 0x5cb0a9dc, 0x76f988da],
     [0x983e5152, 0xa831c66d, 0xb00327c8, 0xbf597fc7, 0xc6e00bf3, 0xd5a79147, 0x06ca6351, 0x14292967],
     [0x27b70a85, 0x2e1b2138, 0x4d2c6dfc, 0x53380d13, 0x650a7354, 0x766a0abb, 0x81c2c92e, 0x92722c85],
     [0xa2bfe8a1, 0xa81a664b, 0xc24b8b70, 0xc76c51a3, 0xd192e819, 0xd6990624, 0xf40e3585, 0x106aa070],
     [0x19a4c116, 0x1e376c08, 0x2748774c, 0x34b0bcb5, 0x391c0cb3, 0x4ed8aa4a, 0x5b9cca4f, 0x682e6ff3],
     [0x748f82ee, 0x78a5636f, 0x84c87814, 0x8cc70208, 0x90befffa, 0xa4506ceb, 0xbef9a3f7, 0xc67178f2]]"

definition rotr32 :: "u32 \<Rightarrow> nat \<Rightarrow> u32" where
  "rotr32 x n = drop_bit n x OR push_bit (32 - n) x"

definition sha256_schedule_step :: "u32 list \<Rightarrow> nat \<Rightarrow> u32 list" where
  "sha256_schedule_step w i =
     (let s0 = rotr32 (w ! (i - 15)) 7 XOR rotr32 (w ! (i - 15)) 18 XOR drop_bit 3 (w ! (i - 15));
          s1 = rotr32 (w ! (i - 2)) 17 XOR rotr32 (w ! (i - 2)) 19 XOR drop_bit 10 (w ! (i - 2))
      in w @ [w ! (i - 16) + s0 + w ! (i - 7) + s1])"

definition sha256_schedule :: "byte list \<Rightarrow> u32 list" where
  "sha256_schedule block =
     foldl sha256_schedule_step
       (map (\<lambda>i. be32 (block ! (i * 4)) (block ! (i * 4 + 1)) (block ! (i * 4 + 2))
                    (block ! (i * 4 + 3))) [0..<16])
       [16..<64]"

type_synonym sha256_vars = "u32 \<times> u32 \<times> u32 \<times> u32 \<times> u32 \<times> u32 \<times> u32 \<times> u32"

definition sha256_round :: "u32 list \<Rightarrow> sha256_vars \<Rightarrow> nat \<Rightarrow> sha256_vars" where
  "sha256_round w = (\<lambda>(a, b, c, d, e, f, g, hh) i.
     let S1 = rotr32 e 6 XOR rotr32 e 11 XOR rotr32 e 25;
         ch = (e AND f) XOR (NOT e AND g);
         temp1 = hh + S1 + ch + sha256_K ! i + w ! i;
         S0 = rotr32 a 2 XOR rotr32 a 13 XOR rotr32 a 22;
         maj = (a AND b) XOR (a AND c) XOR (b AND c);
         temp2 = S0 + maj
     in (temp1 + temp2, a, b, c, d + temp1, e, f, g))"

definition sha256_compress :: "u32 list \<Rightarrow> byte list \<Rightarrow> u32 list" where
  "sha256_compress h block =
     (let w = sha256_schedule block;
          (a, b, c, d, e, f, g, hh) =
            foldl (sha256_round w) (h ! 0, h ! 1, h ! 2, h ! 3, h ! 4, h ! 5, h ! 6, h ! 7) [0..<64]
      in [h ! 0 + a, h ! 1 + b, h ! 2 + c, h ! 3 + d, h ! 4 + e, h ! 5 + f, h ! 6 + g, h ! 7 + hh])"

section \<open>The streaming interface\<close>

record nd_sha256_ctx =
  sc_h :: "u32 list"
  sc_total_len :: u64
  sc_buf :: "byte list"

definition nd_sha256_init :: nd_sha256_ctx where
  "nd_sha256_init =
     \<lparr>sc_h = [0x6a09e667, 0xbb67ae85, 0x3c6ef372, 0xa54ff53a,
              0x510e527f, 0x9b05688c, 0x1f83d9ab, 0x5be0cd19],
      sc_total_len = 0, sc_buf = []\<rparr>"

text \<open>One iteration of the loop of \<^verbatim>\<open>nd_sha256_update\<close>, on the context and the remaining data.\<close>

definition sha256_absorb :: "nd_sha256_ctx \<times> byte list \<Rightarrow> nd_sha256_ctx \<times> byte list" where
  "sha256_absorb = (\<lambda>(ctx, data).
     let tk = ND_SHA256_BLOCK_LEN - length (sc_buf ctx);
         tk = (if tk > length data then length data else tk);
         buf = sc_buf ctx @ take tk data;
         ctx = ctx\<lparr>sc_buf := buf\<rparr>;
         ctx = (if length buf = ND_SHA256_BLOCK_LEN
                then ctx\<lparr>sc_h := sha256_compress (sc_h ctx) buf, sc_buf := []\<rparr> else ctx)
     in (ctx, drop tk data))"

definition nd_sha256_update :: "nd_sha256_ctx \<Rightarrow> byte list \<Rightarrow> nd_sha256_ctx" where
  "nd_sha256_update ctx data =
     fst (while (\<lambda>(ctx, data). length data > 0) sha256_absorb
       (ctx\<lparr>sc_total_len := sc_total_len ctx + of_nat (length data)\<rparr>, data))"

definition sha256_pad :: "nd_sha256_ctx \<Rightarrow> nd_sha256_ctx" where
  "sha256_pad ctx =
     while (\<lambda>ctx. length (sc_buf ctx) \<noteq> 56) (\<lambda>ctx. nd_sha256_update ctx [0])
       (nd_sha256_update ctx [0x80])"

definition nd_sha256_final :: "nd_sha256_ctx \<Rightarrow> byte list" where
  "nd_sha256_final ctx =
     (let bit_len = sc_total_len ctx * 8;
          ctx = sha256_pad ctx;
          len_bytes = map (\<lambda>i. ucast (drop_bit (56 - 8 * i) bit_len)) [0..<8];
          ctx = nd_sha256_update ctx len_bytes
      in concat (map (\<lambda>i. put_be32 (sc_h ctx ! i)) [0..<8]))"

definition nd_sha256 :: "byte list \<Rightarrow> byte list" where
  "nd_sha256 data = nd_sha256_final (nd_sha256_update nd_sha256_init data)"

section \<open>Specification\<close>

text \<open>
  The compression function of FIPS 180-4, from its own constants: the first 32 bits of the fractional
  parts of the cube roots of the first 64 primes and of the square roots of the first eight.
\<close>

definition first_primes :: "nat list" where
  "first_primes =
     [2, 3, 5, 7, 11, 13, 17, 19, 23, 29, 31, 37, 41, 43, 47, 53,
      59, 61, 67, 71, 73, 79, 83, 89, 97, 101, 103, 107, 109, 113, 127, 131,
      137, 139, 149, 151, 157, 163, 167, 173, 179, 181, 191, 193, 197, 199, 211, 223,
      227, 229, 233, 239, 241, 251, 257, 263, 269, 271, 277, 281, 283, 293, 307, 311]"

definition root_word :: "nat \<Rightarrow> nat \<Rightarrow> u32" where
  "root_word k p = of_nat (Max {c. c ^ k \<le> p * 2 ^ (32 * k)})"

definition fips_K :: "u32 list" where
  "fips_K = map (root_word 3) first_primes"

definition fips_H0 :: "u32 list" where
  "fips_H0 = map (root_word 2) (take 8 first_primes)"

text \<open>The message schedule as a function of the round, and the two sequences that the eight working variables
  run through: after \<open>t\<close> rounds the variables are four consecutive members of each. The members 0 to 3 are
  the chaining value.\<close>

fun fips_W :: "byte list \<Rightarrow> nat \<Rightarrow> u32" where
  "fips_W M t =
     (if t < 16 then be32 (M ! (4 * t)) (M ! (4 * t + 1)) (M ! (4 * t + 2)) (M ! (4 * t + 3))
      else (word_rotr 17 (fips_W M (t - 2)) XOR word_rotr 19 (fips_W M (t - 2)) XOR drop_bit 10 (fips_W M (t - 2))) +
           fips_W M (t - 7) +
           (word_rotr 7 (fips_W M (t - 15)) XOR word_rotr 18 (fips_W M (t - 15)) XOR drop_bit 3 (fips_W M (t - 15))) +
           fips_W M (t - 16))"

declare fips_W.simps [simp del]

definition fips_Ch :: "u32 \<Rightarrow> u32 \<Rightarrow> u32 \<Rightarrow> u32" where
  "fips_Ch x y z = (x AND y) OR (NOT x AND z)"

definition fips_Maj :: "u32 \<Rightarrow> u32 \<Rightarrow> u32 \<Rightarrow> u32" where
  "fips_Maj x y z = (x AND y) OR (x AND z) OR (y AND z)"

fun fips_AE :: "u32 list \<Rightarrow> byte list \<Rightarrow> nat \<Rightarrow> u32 \<times> u32" where
  "fips_AE h M n =
     (if n < 4 then (h ! (3 - n), h ! (7 - n))
      else
        let t = n - 4;
            (a3, e3) = fips_AE h M (n - 1); (a2, e2) = fips_AE h M (n - 2);
            (a1, e1) = fips_AE h M (n - 3); (a0, e0) = fips_AE h M (n - 4);
            T1 = e0 + (word_rotr 6 e3 XOR word_rotr 11 e3 XOR word_rotr 25 e3) + fips_Ch e3 e2 e1 + fips_K ! t + fips_W M t;
            T2 = (word_rotr 2 a3 XOR word_rotr 13 a3 XOR word_rotr 22 a3) + fips_Maj a3 a2 a1
        in (T1 + T2, a0 + T1))"

declare fips_AE.simps [simp del]

definition fips_compress :: "u32 list \<Rightarrow> byte list \<Rightarrow> u32 list" where
  "fips_compress h M =
     (let A = fst \<circ> fips_AE h M; E = snd \<circ> fips_AE h M
      in [h ! 0 + A 67, h ! 1 + A 66, h ! 2 + A 65, h ! 3 + A 64, h ! 4 + E 67, h ! 5 + E 66, h ! 6 + E 65, h ! 7 + E 64])"

text \<open>Padding of FIPS 180-4: one bit, zeros up to 56 modulo 64, and the length in bits.\<close>

definition sha256_padding :: "nat \<Rightarrow> byte list" where
  "sha256_padding n =
     [0x80] @ replicate ((119 - n mod 64) mod 64) 0 @ be_put 8 (of_nat n * 8 :: u64)"

text \<open>The blocks of a message whose length is a multiple of 64.\<close>

fun blocks :: "nat \<Rightarrow> byte list \<Rightarrow> byte list list" where
  "blocks 0 m = []"
| "blocks (Suc n) m = take 64 m # blocks n (drop 64 m)"

definition sha256_hash :: "byte list \<Rightarrow> byte list" where
  "sha256_hash m =
     (let p = m @ sha256_padding (length m) in
      concat (map put_be32 (foldl fips_compress fips_H0 (blocks (length p div 64) p))))"

text \<open>A context that has absorbed the message \<open>m\<close>.\<close>

definition sha256_state :: "nd_sha256_ctx \<Rightarrow> byte list \<Rightarrow> bool" where
  "sha256_state ctx m \<longleftrightarrow>
     sc_h ctx = foldl sha256_compress (sc_h nd_sha256_init) (blocks (length m div 64) m) \<and>
     sc_buf ctx = drop (64 * (length m div 64)) m"

definition sha256_repr :: "nd_sha256_ctx \<Rightarrow> byte list \<Rightarrow> bool" where
  "sha256_repr ctx m \<longleftrightarrow> sha256_state ctx m \<and> sc_total_len ctx = of_nat (length m)"

section \<open>The code computes the compression function\<close>

lemma root_word_eq:
  assumes "0 < k" and "c ^ k \<le> p * 2 ^ (32 * k)" and "p * 2 ^ (32 * k) < (c + 1) ^ k"
  shows "root_word k p = of_nat c"
proof -
  have "b \<le> c" if "b ^ k \<le> p * 2 ^ (32 * k)" for b
    using that assms(3) power_less_imp_less_base [of b k "c + 1"] by simp
  moreover from this have "finite {b. b ^ k \<le> p * 2 ^ (32 * k)}"
    by (intro finite_subset [OF _ finite_atMost [of c]]) auto
  ultimately have "Max {b. b ^ k \<le> p * 2 ^ (32 * k)} = c"
    using assms(2) by (intro Max_eqI) auto
  then show ?thesis by (simp add: root_word_def)
qed

lemma root_words:
  assumes "list_all2 (\<lambda>p c. c ^ k \<le> p * 2 ^ (32 * k) \<and> p * 2 ^ (32 * k) < (c + 1) ^ k) ps cs" and "0 < k"
  shows "map (root_word k) ps = map of_nat cs"
  using assms(1) by (induction rule: list_all2_induct) (simp_all add: root_word_eq [OF assms(2)])

lemma fips_K_eq: "fips_K = sha256_K"
  unfolding fips_K_def
  by (subst root_words [of _ _
      "[5411319704, 6194414737, 7344290767, 8215976869, 9551921755, 10098905585, 11043570340, 11460697813,
       12214315672, 13195500289, 13492127166, 14311783875, 14809980276, 15046980094, 15499789991, 16133124468,
       16720292289, 16907126662, 17444216262, 17784676812, 17950125167, 18429019306, 18734950876, 19175934170,
       19734090066, 20001703533, 20132865992, 20390182855, 20516441075, 20764397895, 21588763473, 21813078375,
       22141143685, 22248366392, 22769593852, 22871018771, 23170020180, 23461497531, 23651862830, 23931792517,
       24205322401, 24295138891, 24734567280, 24820601251, 24990902297, 25075189284, 25569408389, 26045227120,
       26200031510, 26276752392, 26428864332, 26653801653, 26727943347, 27092625994, 27306805839, 27517677555,
       27725365998, 27793908591, 27997534228, 28131656200, 28198240250, 28526537963, 28973835255, 29099129074]"])
    (simp_all add: first_primes_def sha256_K_def)

lemma fips_H0_eq: "fips_H0 = sc_h nd_sha256_init"
  unfolding fips_H0_def
  by (subst root_words [of _ _
      "[6074000999, 7439101573, 9603838834, 11363415354, 14244795007, 15485724812, 17708603819, 18721328409]"])
    (simp_all add: first_primes_def nd_sha256_init_def)

lemma rotr32_word_rotr:
  assumes "0 < n" and "n < 32"
  shows "rotr32 x n = word_rotr n x"
proof (rule bit_word_eqI)
  fix m assume "m < LENGTH(32)"
  then have m: "m < 32" by simp
  have "(m + n) mod 32 = (if m + n < 32 then m + n else m + n - 32)" using m assms by (simp add: mod_if)
  then show "bit (rotr32 x n) m = bit (word_rotr n x) m"
    using m assms bit_imp_le_length [of x "n + m"] bit_imp_le_length [of x "m + n - 32"]
    by (auto simp: rotr32_def bit_simps bit_word_rotr_iff not_less add.commute)
qed

lemma fips_Ch_xor: "(e AND f) XOR (NOT e AND g) = fips_Ch e f g"
  by (rule bit_word_eqI) (auto simp: fips_Ch_def bit_simps)

lemma fips_Maj_xor: "(a AND b) XOR (a AND c) XOR (b AND c) = fips_Maj a b c"
  by (rule bit_word_eqI) (auto simp: fips_Maj_def bit_simps)

lemmas fips_simps = rotr32_word_rotr fips_Ch_xor fips_Maj_xor

lemma schedule_step_fips: "sha256_schedule_step (map (fips_W M) [0..<16 + n]) (16 + n) = map (fips_W M) [0..<16 + Suc n]"
proof -
  have "map (fips_W M) [0..<16 + n] ! (16 + n - k) = fips_W M (16 + n - k)" if "0 < k" "k \<le> 16" for k
    using that by (subst nth_map) auto
  moreover have "map (fips_W M) [0..<16 + Suc n] = map (fips_W M) [0..<16 + n] @ [fips_W M (16 + n)]"
    by (simp only: add_Suc_right upt_Suc_append le0 map_append list.map)
  ultimately show ?thesis
    unfolding sha256_schedule_step_def Let_def fips_W.simps [of M "16 + n"] by (simp add: fips_simps ac_simps)
qed

lemma schedule_upto:
  "foldl sha256_schedule_step
     (map (\<lambda>i. be32 (M ! (i * 4)) (M ! (i * 4 + 1)) (M ! (i * 4 + 2)) (M ! (i * 4 + 3))) [0..<16]) [16..<16 + n] =
   map (fips_W M) [0..<16 + n]"
proof (induction n)
  case 0
  have "fips_W M i = be32 (M ! (i * 4)) (M ! (i * 4 + 1)) (M ! (i * 4 + 2)) (M ! (i * 4 + 3))" if "i < 16" for i
    using that by (simp add: fips_W.simps [of M i] mult.commute)
  then show ?case by (simp del: upt_rec_numeral)
next
  case (Suc n)
  have "[16..<16 + Suc n] = [16..<16 + n] @ [16 + n]" by (simp only: add_Suc_right upt_Suc_append le_add1)
  then show ?case using Suc schedule_step_fips by (simp only: foldl_append foldl.simps)
qed

lemma schedule_fips: "i < 64 \<Longrightarrow> sha256_schedule M ! i = fips_W M i"
  using schedule_upto [of M 48] by (simp add: sha256_schedule_def del: upt_rec_numeral)

lemma round_fips:
  assumes "w ! n = fips_W M n"
  shows "sha256_round w
      (fst (fips_AE h M (n + 3)), fst (fips_AE h M (n + 2)), fst (fips_AE h M (n + 1)), fst (fips_AE h M n),
       snd (fips_AE h M (n + 3)), snd (fips_AE h M (n + 2)), snd (fips_AE h M (n + 1)), snd (fips_AE h M n)) n =
      (fst (fips_AE h M (n + 4)), fst (fips_AE h M (n + 3)), fst (fips_AE h M (n + 2)), fst (fips_AE h M (n + 1)),
       snd (fips_AE h M (n + 4)), snd (fips_AE h M (n + 3)), snd (fips_AE h M (n + 2)), snd (fips_AE h M (n + 1)))"
proof -
  obtain a3 e3 a2 e2 a1 e1 a0 e0 where v: "fips_AE h M (n + 3) = (a3, e3)" "fips_AE h M (n + 2) = (a2, e2)"
      "fips_AE h M (n + 1) = (a1, e1)" "fips_AE h M n = (a0, e0)"
    by (metis prod.exhaust)
  have i: "n + 4 - 1 = n + 3" "n + 4 - 2 = n + 2" "n + 4 - 3 = n + 1" "n + 4 - 4 = n" "\<not> n + 4 < 4" by simp_all
  show ?thesis
    unfolding fips_AE.simps [of h M "n + 4"] i v Let_def prod.case if_False fst_conv snd_conv sha256_round_def
    by (simp add: fips_simps assms fips_K_eq add.assoc)
qed

lemma rounds_fips:
  "n \<le> 64 \<Longrightarrow> foldl (sha256_round (sha256_schedule M)) (h ! 0, h ! 1, h ! 2, h ! 3, h ! 4, h ! 5, h ! 6, h ! 7) [0..<n] =
     (fst (fips_AE h M (n + 3)), fst (fips_AE h M (n + 2)), fst (fips_AE h M (n + 1)), fst (fips_AE h M n),
      snd (fips_AE h M (n + 3)), snd (fips_AE h M (n + 2)), snd (fips_AE h M (n + 1)), snd (fips_AE h M n))"
proof (induction n)
  case 0
  show ?case by (simp add: fips_AE.simps)
next
  case (Suc n)
  have i: "Suc n + 3 = n + 4" "Suc n + 2 = n + 3" "Suc n + 1 = n + 2" "Suc n = n + 1" by simp_all
  have "[0..<Suc n] = [0..<n] @ [n]" by simp
  then show ?case
    using Suc round_fips [of "sha256_schedule M" n M h] schedule_fips [of n M]
    unfolding i [symmetric] by (simp only: foldl_append foldl.simps Suc_leD Suc_le_eq)
qed

lemma compress_fips: "sha256_compress h M = fips_compress h M"
  using rounds_fips [of 64 M h] by (simp add: sha256_compress_def fips_compress_def Let_def del: upt_rec_numeral)

lemma sha256_hash_code:
  "sha256_hash m =
     (let p = m @ sha256_padding (length m) in
      concat (map put_be32 (foldl sha256_compress (sc_h nd_sha256_init) (blocks (length p div 64) p))))"
proof -
  have "fips_compress = sha256_compress" by (simp add: fun_eq_iff compress_fips)
  then show ?thesis by (simp only: sha256_hash_def fips_H0_eq)
qed

section \<open>Blocks\<close>

lemma blocks_append: "64 * n \<le> length m \<Longrightarrow> blocks n (m @ x) = blocks n m"
  by (induction n arbitrary: m) simp_all

lemma blocks_Suc_snoc: "blocks (Suc n) m = blocks n m @ [take 64 (drop (64 * n) m)]"
proof (induction n arbitrary: m)
  case (Suc n)
  have "blocks (Suc (Suc n)) m = take 64 m # blocks (Suc n) (drop 64 m)" by simp
  also have "\<dots> = (take 64 m # blocks n (drop 64 m)) @ [take 64 (drop (64 * n) (drop 64 m))]"
    unfolding Suc.IH by simp
  finally show ?case by (simp add: add.commute)
qed simp

lemma sha256_state_buf: "sha256_state ctx m \<Longrightarrow> length (sc_buf ctx) = length m mod 64"
  by (simp add: sha256_state_def minus_mult_div_eq_mod)

section \<open>Absorbing data\<close>

lemma absorb_partial:
  assumes "sha256_state ctx m" "length (sc_buf ctx) + length x < 64"
  shows "sha256_state (ctx\<lparr>sc_buf := sc_buf ctx @ x\<rparr>) (m @ x)"
proof -
  have "length m mod 64 + length x < 64" using assms sha256_state_buf by simp
  then have "length (m @ x) div 64 = length m div 64"
    by (simp add: div_add_small)
  then show ?thesis
    using assms(1) by (simp add: sha256_state_def blocks_append)
qed

lemma absorb_block:
  assumes "sha256_state ctx m" "length (sc_buf ctx) + length x = 64"
  shows "sha256_state (ctx\<lparr>sc_h := sha256_compress (sc_h ctx) (sc_buf ctx @ x), sc_buf := []\<rparr>) (m @ x)"
proof -
  let ?n = "length m div 64"
  have "length m mod 64 + length x = 64" using assms sha256_state_buf by simp
  then have len: "length (m @ x) = 64 * Suc ?n"
    using add_fill [of "length m" 64 "length x"] by simp
  have "take 64 (drop (64 * ?n) (m @ x)) = sc_buf ctx @ x"
    using assms by (simp add: sha256_state_def)
  then show ?thesis
    using assms(1) len
    by (simp add: sha256_state_def blocks_Suc_snoc blocks_append del: blocks.simps)
qed

lemma sha256_absorb_step:
  assumes "sha256_state ctx m" "data \<noteq> []"
  obtains ctx' tk where "sha256_absorb (ctx, data) = (ctx', drop tk data)" "0 < tk" "tk \<le> length data"
    "sha256_state ctx' (m @ take tk data)" "sc_total_len ctx' = sc_total_len ctx"
proof -
  have buf: "length (sc_buf ctx) < 64" using sha256_state_buf [OF assms(1)] by simp
  define tk where "tk = min (64 - length (sc_buf ctx)) (length data)"
  have tk: "0 < tk" "tk \<le> length data" "length (sc_buf ctx) + tk \<le> 64"
    using buf assms(2) by (auto simp: tk_def)
  have eq: "(if 64 - length (sc_buf ctx) > length data then length data
      else 64 - length (sc_buf ctx)) = tk" by (simp add: tk_def)
  show thesis
  proof (cases "length (sc_buf ctx) + tk = 64")
    case True
    with tk absorb_block [OF assms(1), of "take tk data"] show thesis
      by (intro that [of "fst (sha256_absorb (ctx, data))" tk]) (simp_all add: sha256_absorb_def Let_def eq)
  next
    case False
    with tk absorb_partial [OF assms(1), of "take tk data"] show thesis
      by (intro that [of "fst (sha256_absorb (ctx, data))" tk]) (simp_all add: sha256_absorb_def Let_def eq)
  qed
qed

lemma absorb_loop:
  assumes "sha256_state ctx m"
  shows "\<exists>ctx'. while_option (\<lambda>(ctx, data). length data > 0) sha256_absorb (ctx, data) = Some (ctx', []) \<and>
    sha256_state ctx' (m @ data) \<and> sc_total_len ctx' = sc_total_len ctx"
  using assms
proof (induction data arbitrary: ctx m rule: length_induct)
  case (1 data)
  show ?case
  proof (cases "data = []")
    case True
    then show ?thesis using 1(2) by (subst while_option_unfold) simp
  next
    case False
    with 1(2) obtain ctx' tk where s: "sha256_absorb (ctx, data) = (ctx', drop tk data)" "0 < tk"
      "tk \<le> length data" "sha256_state ctx' (m @ take tk data)" "sc_total_len ctx' = sc_total_len ctx"
      by (rule sha256_absorb_step)
    moreover have "length (drop tk data) < length data" using s(2,3) by simp
    ultimately show ?thesis
      using 1(1) [rule_format, of "drop tk data" ctx' "m @ take tk data"] False
      by (subst while_option_unfold) simp
  qed
qed

lemma sha256_update_repr:
  assumes "sha256_repr ctx m"
  shows "sha256_repr (nd_sha256_update ctx data) (m @ data)"
proof -
  let ?ctx = "ctx\<lparr>sc_total_len := sc_total_len ctx + of_nat (length data)\<rparr>"
  have "sha256_state ?ctx m" using assms by (simp add: sha256_repr_def sha256_state_def)
  from absorb_loop [OF this, of data] obtain ctx'
    where "while_option (\<lambda>(ctx, data). length data > 0) sha256_absorb (?ctx, data) = Some (ctx', [])"
      "sha256_state ctx' (m @ data)" "sc_total_len ctx' = sc_total_len ?ctx" by blast
  then show ?thesis
    using assms by (simp add: nd_sha256_update_def while_def sha256_repr_def)
qed

lemma sha256_init_repr: "sha256_repr nd_sha256_init []"
  by (simp add: sha256_repr_def sha256_state_def nd_sha256_init_def)

section \<open>Padding and the digest\<close>

lemma pad_amount: "r < 64 \<Longrightarrow> (120 - r) mod 64 = (if r \<le> 56 then 56 - r else 120 - r)" for r :: nat
  by (simp add: le_mod_geq)

lemma pad_amount': "r < 64 \<Longrightarrow> (119 - r) mod 64 = (if r \<le> 55 then 55 - r else 119 - r)" for r :: nat
  by (simp add: le_mod_geq)

lemma pad_loop:
  assumes "sha256_repr ctx m"
  shows "\<exists>ctx'. while_option (\<lambda>ctx. length (sc_buf ctx) \<noteq> 56) (\<lambda>ctx. nd_sha256_update ctx [0]) ctx =
      Some ctx' \<and> sha256_repr ctx' (m @ replicate ((120 - length m mod 64) mod 64) 0)"
  using assms
proof (induction "(120 - length m mod 64) mod 64" arbitrary: ctx m)
  case 0
  have "length m mod 64 = 56" using 0(1) by (simp add: pad_amount split: if_splits)
  then have "length (sc_buf ctx) = 56"
    using 0(2) sha256_state_buf by (auto simp: sha256_repr_def)
  then show ?case using 0 by (subst while_option_unfold) simp
next
  case (Suc k)
  have b: "length (sc_buf ctx) = length m mod 64"
    using Suc(3) sha256_state_buf by (auto simp: sha256_repr_def)
  have ne: "length m mod 64 \<noteq> 56" using Suc(2) by auto
  have k: "k = (120 - length (m @ [0]) mod 64) mod 64"
    using Suc(2) ne by (auto simp: pad_amount pad_amount' mod_Suc split: if_splits)
  from Suc(1) [OF k sha256_update_repr [OF Suc(3)]] Suc(2) k b ne show ?case
    by (subst while_option_unfold) (simp flip: replicate_Suc)
qed

lemma length_sha256_padding: "(n + length (sha256_padding n)) mod 64 = 0"
proof -
  have "n mod 64 + length (sha256_padding n) = (if n mod 64 \<le> 55 then 64 else 128)"
    by (auto simp: sha256_padding_def pad_amount')
  then have "(n mod 64 + length (sha256_padding n)) mod 64 = 0" by (simp split: if_splits)
  then show ?thesis by (simp add: mod_add_left_eq)
qed

lemma length_sha256_compress [simp, len_simps]: "length (sha256_compress h b) = 8"
  by (simp add: sha256_compress_def Let_def split: prod.split)

lemma length_foldl_compress [simp, len_simps]:
  "length (foldl sha256_compress (sc_h nd_sha256_init) bs) = 8"
  by (cases bs rule: rev_cases) (simp_all add: nd_sha256_init_def)

lemma sha256_final_repr:
  assumes "sha256_repr ctx m"
  shows "nd_sha256_final ctx = sha256_hash m"
proof -
  let ?z = "replicate ((120 - length (m @ [0x80]) mod 64) mod 64) (0 :: byte)"
  let ?bits = "of_nat (length m) * 8 :: u64"
  have "(120 - Suc r mod 64) mod 64 = (119 - r mod 64) mod 64" for r :: nat
    by (cases "r mod 64 = 63") (simp_all add: mod_Suc)
  then have zeros: "?z = replicate ((119 - length m mod 64) mod 64) 0" by simp
  obtain c where c: "sha256_pad ctx = c" "sha256_repr c (m @ [0x80] @ ?z)"
    using pad_loop [OF sha256_update_repr [OF assms, of "[0x80]"]]
    by (auto simp: sha256_pad_def while_def)
  have "map (\<lambda>i. ucast (drop_bit (56 - 8 * i) ?bits)) [0..<8] = be_put 8 ?bits"
    by (simp add: upt_rec eval_nat_numeral)
  moreover have "sha256_repr (nd_sha256_update c (be_put 8 ?bits)) (m @ sha256_padding (length m))"
    using sha256_update_repr [OF c(2), of "be_put 8 ?bits"] zeros
    by (simp add: sha256_padding_def)
  ultimately obtain c' where c': "nd_sha256_final ctx = concat (map (\<lambda>i. put_be32 (sc_h c' ! i)) [0..<8])"
    and r': "sha256_repr c' (m @ sha256_padding (length m))"
    using assms c(1) by (simp add: nd_sha256_final_def Let_def sha256_repr_def)
  have "length (sc_h c') = 8"
    using r' length_foldl_compress by (simp add: sha256_repr_def sha256_state_def)
  then have "map (\<lambda>i. put_be32 (sc_h c' ! i)) [0..<8] = map put_be32 (sc_h c')"
    by (intro nth_equalityI) simp_all
  then show ?thesis
    using c' r' by (simp add: sha256_hash_code Let_def sha256_repr_def sha256_state_def)
qed

lemma length_concat_put_be32: "length (concat (map put_be32 ws)) = 4 * length ws"
  by (induction ws) simp_all

lemma length_sha256_hash [simp, len_simps]: "length (sha256_hash m) = 32"
  by (simp add: sha256_hash_code Let_def length_concat_put_be32)

section \<open>The streaming contract\<close>

lemma sha256_fold_repr: "sha256_repr (foldl nd_sha256_update nd_sha256_init ps) (concat ps)"
proof (induction ps rule: rev_induct)
  case (snoc p ps)
  then show ?case using sha256_update_repr by simp
qed (simp add: sha256_init_repr)

interpretation sha256: streaming_hash nd_sha256_init nd_sha256_update nd_sha256_final sha256_hash 32
  by unfold_locales (simp_all add: sha256_final_repr [OF sha256_fold_repr])

lemma nd_sha256_eq: "nd_sha256 m = sha256_hash m"
  by (simp add: nd_sha256_def sha256.finish_one)

section \<open>Properties\<close>

text \<open>C35: However a message is cut into pieces, feeding them one after the other and finishing gives
  the SHA-256 digest of the whole message: the compression function of FIPS 180-4, with its constants from
  the roots of the primes, iterated over the 64-byte blocks of the message followed by the standard
  padding, which fills the last block exactly.\<close>

theorem sha256_streaming:
  "nd_sha256_final (foldl nd_sha256_update nd_sha256_init pieces) = sha256_hash (concat pieces) \<and>
   nd_sha256 (concat pieces) = sha256_hash (concat pieces) \<and>
   (length (concat pieces) + length (sha256_padding (length (concat pieces)))) mod 64 = 0"
  by (simp add: sha256.finish_feed nd_sha256_eq length_sha256_padding)

text \<open>On every context that a caller can build, the absorbing loop of \<^verbatim>\<open>nd_sha256_update\<close> and the
  padding loop of \<^verbatim>\<open>nd_sha256_final\<close> end.\<close>

theorem sha256_loops_end:
  "(\<exists>s. while_option (\<lambda>(ctx, data). length data > 0) sha256_absorb
      (foldl nd_sha256_update nd_sha256_init pieces, data) = Some s) \<and>
   (\<exists>s. while_option (\<lambda>ctx. length (sc_buf ctx) \<noteq> 56) (\<lambda>ctx. nd_sha256_update ctx [0])
      (nd_sha256_update (foldl nd_sha256_update nd_sha256_init pieces) [0x80]) = Some s)"
  using absorb_loop sha256_fold_repr [of pieces] pad_loop sha256_update_repr
  unfolding sha256_repr_def by blast

end
