(* ===== verification/Hmac.thy ===== *)
theory Hmac
  imports Sha256
begin

text \<open>
  HMAC-SHA256: \<^verbatim>\<open>src/crypto/hmac_sha256.c\<close>. Shown: it is the HMAC construction over the digest,
  for keys of any length.
\<close>

unbundle bit_operations_syntax

definition nd_hmac_sha256 :: "byte list \<Rightarrow> byte list \<Rightarrow> byte list" where
  "nd_hmac_sha256 key data =
     (let key_block = replicate ND_SHA256_BLOCK_LEN 0;
          key_block = (if length key > ND_SHA256_BLOCK_LEN then memcpy_at key_block 0 (nd_sha256 key)
                       else memcpy_at key_block 0 key);
          ipad = map (\<lambda>i. key_block ! i XOR 0x36) [0..<ND_SHA256_BLOCK_LEN];
          opad = map (\<lambda>i. key_block ! i XOR 0x5c) [0..<ND_SHA256_BLOCK_LEN];
          ctx = nd_sha256_update (nd_sha256_update nd_sha256_init ipad) data;
          inner = nd_sha256_final ctx;
          ctx = nd_sha256_update (nd_sha256_update nd_sha256_init opad) inner
      in nd_sha256_final ctx)"

text \<open>The construction, for a hash \<open>H\<close> with blocks of \<open>B\<close> bytes.\<close>

definition hmac_key :: "(byte list \<Rightarrow> byte list) \<Rightarrow> nat \<Rightarrow> byte list \<Rightarrow> byte list" where
  "hmac_key H B k = (let k' = (if length k > B then H k else k) in k' @ replicate (B - length k') 0)"

definition hmac :: "(byte list \<Rightarrow> byte list) \<Rightarrow> nat \<Rightarrow> byte list \<Rightarrow> byte list \<Rightarrow> byte list" where
  "hmac H B k m =
     H (map (\<lambda>b. b XOR 0x5c) (hmac_key H B k) @ H (map (\<lambda>b. b XOR 0x36) (hmac_key H B k) @ m))"

lemma memcpy_zeros:
  "length k \<le> n \<Longrightarrow> memcpy_at (replicate n 0) 0 k = k @ replicate (n - length k) 0"
  by (simp add: memcpy_at_def)

lemma hmac_sha256_eq: "nd_hmac_sha256 key data = hmac sha256_hash 64 key data"
proof -
  let ?kb = "hmac_key sha256_hash 64 key"
  have kb: "(if length key > 64 then memcpy_at (replicate 64 0) 0 (nd_sha256 key)
      else memcpy_at (replicate 64 0) 0 key) = ?kb"
    by (simp add: hmac_key_def memcpy_zeros nd_sha256_eq)
  have "length ?kb = 64" by (simp add: hmac_key_def Let_def)
  then have "map (\<lambda>i. ?kb ! i XOR c) [0..<64] = map (\<lambda>b. b XOR c) ?kb" for c
    by (intro nth_equalityI) simp_all
  then show ?thesis
    by (simp add: nd_hmac_sha256_def Let_def kb hmac_def sha256.finish_two)
qed

lemma length_hmac [simp, len_simps]: "length (nd_hmac_sha256 key data) = 32"
  by (simp add: hmac_sha256_eq hmac_def)

text \<open>\<^verbatim>\<open>nd_hmac_sha256\<close> is the HMAC construction over the SHA-256 digest: keys longer than a block
  are hashed, shorter ones padded with zeros, and the two pads are XORed in.\<close>

theorem hmac_sha256_correct:
  "nd_hmac_sha256 key data = hmac sha256_hash 64 key data \<and>
   length (nd_hmac_sha256 key data) = ND_SHA256_DIGEST_LEN"
  by (simp add: hmac_sha256_eq hmac_def)

end
