(* ===== verification/Hkdf.thy ===== *)
theory Hkdf
  imports Hmac
begin

text \<open>
  HKDF and its TLS 1.3 labels: \<^verbatim>\<open>src/crypto/hkdf.c\<close> and \<^verbatim>\<open>include/nanodtls/hkdf.h\<close>. A C string is
  the list of its bytes. Shown: the expansion loop ends and produces the prefix of the chain T(1),
  T(2), ... that RFC 5869 defines, for every length up to its limit, with the counter never
  wrapping; and the label encoding is injective, so that different labels, contexts or lengths never
  give the same input to the expansion.
\<close>

unbundle bit_operations_syntax

abbreviation (input) ND_HASH_LEN :: nat where "ND_HASH_LEN \<equiv> 32"
abbreviation (input) ND_HKDF_INFO_MAX :: nat where "ND_HKDF_INFO_MAX \<equiv> 200"
abbreviation (input) ND_HKDF_LABEL_MAX :: nat where "ND_HKDF_LABEL_MAX \<equiv> 64"
abbreviation (input) ND_HKDF_CONTEXT_MAX :: nat where "ND_HKDF_CONTEXT_MAX \<equiv> 64"

definition cstr :: "string \<Rightarrow> byte list" where
  "cstr s = map of_char s"

definition ND_HKDF_LABEL_PREFIX_DTLS13 :: "byte list" where
  "ND_HKDF_LABEL_PREFIX_DTLS13 = cstr ''dtls13''"

section \<open>Extract and expand\<close>

definition nd_hkdf_extract :: "cbuf \<Rightarrow> cbuf \<Rightarrow> byte list result" where
  "nd_hkdf_extract salt ikm =
     (if cbuf_len ikm > 0 \<and> cbuf_is_null ikm then Inl ND_ERR_BAD_ARG
      else
        let use_salt = (if cbuf_is_null salt \<or> cbuf_len salt = 0 then replicate ND_HASH_LEN 0
                        else cbuf_bytes salt)
        in Inr (nd_hmac_sha256 use_salt (cbuf_bytes ikm)))"

text \<open>The loop of \<^verbatim>\<open>nd_hkdf_expand\<close>: \<open>t\<close> is the previous block, \<open>out\<close> what has been generated.\<close>

function hkdf_expand_loop ::
  "byte list \<Rightarrow> byte list \<Rightarrow> nat \<Rightarrow> byte list \<Rightarrow> byte \<Rightarrow> byte list \<Rightarrow> byte list" where
  "hkdf_expand_loop prk info out_len t counter out =
     (if length out < out_len then
        let t = nd_hmac_sha256 prk (t @ info @ [counter]);
            tk = out_len - length out;
            tk = (if tk > ND_HASH_LEN then ND_HASH_LEN else tk)
        in hkdf_expand_loop prk info out_len t (counter + 1) (out @ take tk t)
      else out)"
  by pat_completeness auto
termination
  by (relation "measure (\<lambda>(prk, info, out_len, t, counter, out). out_len - length out)") auto

declare hkdf_expand_loop.simps [simp del]

definition nd_hkdf_expand :: "cbuf \<Rightarrow> cbuf \<Rightarrow> nat \<Rightarrow> byte list result" where
  "nd_hkdf_expand prk info out_len =
     (if cbuf_is_null prk \<or> (cbuf_len info > 0 \<and> cbuf_is_null info) then Inl ND_ERR_BAD_ARG
      else if out_len > 255 * ND_HASH_LEN then Inl ND_ERR_BAD_ARG
      else if cbuf_len info > ND_HKDF_INFO_MAX then Inl ND_ERR_BAD_ARG
      else Inr (hkdf_expand_loop (cbuf_bytes prk) (cbuf_bytes info) out_len [] 1 []))"

section \<open>Labels\<close>

definition hkdf_label :: "nat \<Rightarrow> byte list \<Rightarrow> byte list \<Rightarrow> byte list \<Rightarrow> byte list" where
  "hkdf_label out_len label_prefix label context =
     [of_nat (out_len div 2 ^ 8), of_nat out_len, of_nat (length label_prefix + length label)] @
     label_prefix @ label @ [of_nat (length context)] @ context"

fun nd_hkdf_expand_label ::
  "cbuf \<Rightarrow> byte list ptr \<Rightarrow> byte list ptr \<Rightarrow> cbuf \<Rightarrow> nat \<Rightarrow> byte list result" where
  "nd_hkdf_expand_label secret (Some label_prefix) (Some label) context out_len =
     (if cbuf_is_null secret \<or> (cbuf_len context > 0 \<and> cbuf_is_null context) then Inl ND_ERR_BAD_ARG
      else if length label_prefix + length label > ND_HKDF_LABEL_MAX \<or>
              cbuf_len context > ND_HKDF_CONTEXT_MAX then Inl ND_ERR_BAD_ARG
      else if out_len > 0xFFFF then Inl ND_ERR_BAD_ARG
      else nd_hkdf_expand secret
             (Buf (hkdf_label out_len label_prefix label (cbuf_bytes context))) out_len)"
| "nd_hkdf_expand_label secret label_prefix label context out_len = Inl ND_ERR_BAD_ARG"

definition nd_derive_secret ::
  "cbuf \<Rightarrow> byte list ptr \<Rightarrow> byte list ptr \<Rightarrow> cbuf \<Rightarrow> byte list result" where
  "nd_derive_secret secret label_prefix label transcript_hash =
     nd_hkdf_expand_label secret label_prefix label transcript_hash ND_HASH_LEN"

section \<open>Specification of the expansion\<close>

fun hkdf_T :: "byte list \<Rightarrow> byte list \<Rightarrow> nat \<Rightarrow> byte list" where
  "hkdf_T prk info 0 = []"
| "hkdf_T prk info (Suc i) =
     hmac sha256_hash 64 prk (hkdf_T prk info i @ info @ [of_nat (Suc i)])"

definition hkdf_okm :: "byte list \<Rightarrow> byte list \<Rightarrow> nat \<Rightarrow> byte list" where
  "hkdf_okm prk info l = take l (concat (map (hkdf_T prk info) [1..<256]))"

text \<open>The structure HkdfLabel of RFC 8446: a 16-bit length and two vectors with 8-bit lengths.\<close>

definition opaque8 :: "byte list \<Rightarrow> byte list" where
  "opaque8 v = of_nat (length v) # v"

definition rfc_hkdf_label :: "nat \<Rightarrow> byte list \<Rightarrow> byte list \<Rightarrow> byte list" where
  "rfc_hkdf_label l full_label context = put_be16 (of_nat l) @ opaque8 full_label @ opaque8 context"

lemma hkdf_label_rfc: "hkdf_label l label_prefix label context = rfc_hkdf_label l (label_prefix @ label) context"
proof -
  have "[of_nat (l div 2 ^ 8), of_nat l] = put_be16 (of_nat l)"
    unfolding drop_bit_eq_div [symmetric] put_be16_def by (auto intro!: bit_word_eqI simp: bit_simps)
  then show ?thesis by (simp add: hkdf_label_def rfc_hkdf_label_def opaque8_def put_be16_def)
qed

lemma length_hkdf_T: "0 < i \<Longrightarrow> length (hkdf_T prk info i) = 32"
  using length_hmac by (cases i) (simp_all flip: hmac_sha256_eq)

lemma length_hkdf_chain: "length (concat (map (hkdf_T prk info) [1..<Suc n])) = 32 * n"
  by (induction n) (simp_all add: length_hkdf_T del: hkdf_T.simps)

lemma expand_loop_chain:
  assumes "n \<le> 255" "out_len \<le> 255 * 32"
    and "out = take out_len (concat (map (hkdf_T prk info) [1..<Suc n]))"
  shows "hkdf_expand_loop prk info out_len (hkdf_T prk info n) (of_nat (Suc n)) out = hkdf_okm prk info out_len"
  using assms
proof (induction "255 - n" arbitrary: n out)
  case 0
  then have n: "n = 255" by simp
  have "out = hkdf_okm prk info out_len" using 0 n by (simp add: hkdf_okm_def)
  moreover have "length out = out_len"
    using 0(3,4) length_hkdf_chain [of prk info n] unfolding n by simp
  ultimately show ?case by (simp add: hkdf_expand_loop.simps)
next
  case (Suc k)
  let ?chain = "\<lambda>n. concat (map (hkdf_T prk info) [1..<Suc n])"
  show ?case
  proof (cases "length out < out_len")
    case True
    then have len: "length out = 32 * n" "32 * n < out_len"
      using Suc(5) length_hkdf_chain [of prk info n] by auto
    let ?tk = "if out_len - length out > 32 then 32 else out_len - length out"
    have "out = ?chain n" using Suc(5) len length_hkdf_chain [of prk info n] by simp
    moreover have "take out_len (?chain (Suc n)) = ?chain n @ take (out_len - 32 * n) (hkdf_T prk info (Suc n))"
      using len length_hkdf_chain [of prk info n] by simp
    moreover have "take (out_len - 32 * n) (hkdf_T prk info (Suc n)) = take ?tk (hkdf_T prk info (Suc n))"
      using len length_hkdf_T [of "Suc n" prk info] by (simp del: hkdf_T.simps)
    ultimately have "out @ take ?tk (hkdf_T prk info (Suc n)) = take out_len (?chain (Suc n))"
      by simp
    then have "hkdf_expand_loop prk info out_len (hkdf_T prk info (Suc n)) (of_nat (Suc (Suc n)))
        (out @ take ?tk (hkdf_T prk info (Suc n))) = hkdf_okm prk info out_len"
      using Suc(2,4) by (intro Suc(1)) auto
    then show ?thesis
      using True by (subst hkdf_expand_loop.simps) (simp add: hmac_sha256_eq add.commute)
  next
    case False
    have "out = hkdf_okm prk info out_len"
    proof -
      have le: "out_len \<le> 32 * n" using False Suc(5) length_hkdf_chain [of prk info n] by auto
      have "map (hkdf_T prk info) [1..<256] = map (hkdf_T prk info) [1..<Suc n] @ map (hkdf_T prk info) [Suc n..<256]"
        using Suc(3) upt_add_eq_append [of 1 "Suc n" "255 - n"] by simp
      then show ?thesis
        using le length_hkdf_chain [of prk info n] by (simp add: hkdf_okm_def Suc(5) del: upt_Suc)
    qed
    then show ?thesis using False by (simp add: hkdf_expand_loop.simps)
  qed
qed

lemma hkdf_expand_eq:
  assumes "out_len \<le> 255 * ND_HASH_LEN" "length info \<le> ND_HKDF_INFO_MAX"
  shows "nd_hkdf_expand (Buf prk) (Buf info) out_len = Inr (hkdf_okm prk info out_len)"
  using expand_loop_chain [of 0 out_len "[]" prk info] assms by (simp add: nd_hkdf_expand_def)

lemma length_hkdf_okm [simp, len_simps]: "l \<le> 255 * 32 \<Longrightarrow> length (hkdf_okm prk info l) = l"
  using length_hkdf_chain [of prk info 255] by (simp add: hkdf_okm_def)

lemma hkdf_expand_label_eq:
  assumes "length label_prefix + length label \<le> ND_HKDF_LABEL_MAX"
    and "cbuf_len context \<le> ND_HKDF_CONTEXT_MAX" "\<not> cbuf_is_null context \<or> cbuf_len context = 0"
    and "out_len \<le> 255 * ND_HASH_LEN"
  shows "nd_hkdf_expand_label (Buf secret) (Some label_prefix) (Some label) context out_len =
    Inr (hkdf_okm secret (hkdf_label out_len label_prefix label (cbuf_bytes context)) out_len)"
proof -
  have "length (cbuf_bytes context) \<le> 64" using assms(2) by (cases "context") auto
  then have "length (hkdf_label out_len label_prefix label (cbuf_bytes context)) \<le> 200"
    using assms(1) by (simp add: hkdf_label_def)
  then show ?thesis using assms hkdf_expand_eq by auto
qed

lemma hkdf_label_inj:
  assumes eq: "hkdf_label l p a c = hkdf_label l' p' a' c'"
    and b: "l \<le> 0xFFFF" "l' \<le> 0xFFFF" "length (p @ a) \<le> 255" "length (p' @ a') \<le> 255"
  shows "l = l' \<and> p @ a = p' @ a' \<and> c = c'"
proof -
  have heads: "(of_nat (l div 2 ^ 8) :: byte) = of_nat (l' div 2 ^ 8)" "(of_nat l :: byte) = of_nat l'"
    "(of_nat (length (p @ a)) :: byte) = of_nat (length (p' @ a'))"
    and tails: "(p @ a) @ [of_nat (length c)] @ c = (p' @ a') @ [of_nat (length c')] @ c'"
    using eq by (simp_all add: hkdf_label_def)
  have "length (p @ a) = length (p' @ a')"
    using arg_cong [OF heads(3), of unat] b(3,4) by (simp add: unat_of_nat del: of_nat_add length_append)
  then have "p @ a = p' @ a' \<and> c = c'"
    using tails append_eq_append_conv [of "p @ a" "p' @ a'"] by auto
  moreover have "l div 256 = l' div 256"
    using arg_cong [OF heads(1), of unat] b(1,2) by (simp add: unat_of_nat)
  moreover have "l mod 256 = l' mod 256"
    using arg_cong [OF heads(2), of unat] by (simp add: unat_of_nat)
  ultimately show ?thesis by (metis div_mult_mod_eq)
qed

section \<open>Properties\<close>

text \<open>For every length up to the limit of RFC 5869 and every info that fits, \<^verbatim>\<open>nd_hkdf_expand\<close>
  returns exactly that many bytes of the chain T(1), T(2), ..., where each T is the HMAC of the
  previous one, the info and a counter that does not wrap.\<close>

theorem hkdf_expand_correct:
  assumes "out_len \<le> 255 * ND_HASH_LEN" "length info \<le> ND_HKDF_INFO_MAX"
  shows "nd_hkdf_expand (Buf prk) (Buf info) out_len = Inr (hkdf_okm prk info out_len) \<and>
         length (hkdf_okm prk info out_len) = out_len"
  using hkdf_expand_eq [OF assms] assms by simp

theorem hkdf_expand_correct_witness:
  "nd_hkdf_expand (Buf [1, 2]) (Buf [3]) 40 = Inr (hkdf_okm [1, 2] [3] 40)"
  using hkdf_expand_correct [of 40 "[3]" "[1, 2]"] by simp

text \<open>C36: The encoding of labels separates domains: two calls with the same HKDF info agree on the
  output length, on the full label and on the context.\<close>

theorem hkdf_label_separates:
  assumes "hkdf_label l p a c = hkdf_label l' p' a' c'"
    and "l \<le> 0xFFFF" "l' \<le> 0xFFFF"
    and "length p + length a \<le> ND_HKDF_LABEL_MAX" "length p' + length a' \<le> ND_HKDF_LABEL_MAX"
  shows "l = l' \<and> p @ a = p' @ a' \<and> c = c'"
  using hkdf_label_inj [OF assms(1-3)] assms(4,5) by simp

theorem hkdf_label_separates_witness:
  "hkdf_label 32 (cstr ''dtls13'') (cstr ''key'') [] = hkdf_label 32 (cstr ''dtls13k'') (cstr ''ey'') [] \<and>
   cstr ''dtls13'' @ cstr ''key'' = cstr ''dtls13k'' @ cstr ''ey''"
proof -
  have "hkdf_label 32 (cstr ''dtls13'') (cstr ''key'') [] = hkdf_label 32 (cstr ''dtls13k'') (cstr ''ey'') []"
    by (simp add: hkdf_label_def cstr_def)
  with hkdf_label_separates [OF this] show ?thesis by (simp add: cstr_def)
qed

end
