(* ===== verification/Transcript.thy ===== *)
theory Transcript
  imports Hkdf
begin

text \<open>
  The transcript hash: \<^verbatim>\<open>src/handshake/transcript.c\<close> and \<^verbatim>\<open>include/nanodtls/transcript.h\<close>.
  Shown: a snapshot is the digest of the concatenation of the messages added so far, whatever
  snapshots were taken before.
\<close>

record nd_transcript =
  tr_ctx :: nd_sha256_ctx

definition nd_transcript_init :: nd_transcript where
  "nd_transcript_init = \<lparr>tr_ctx = nd_sha256_init\<rparr>"

definition nd_transcript_add :: "nd_transcript \<Rightarrow> byte list \<Rightarrow> nd_transcript" where
  "nd_transcript_add t msg = t\<lparr>tr_ctx := nd_sha256_update (tr_ctx t) msg\<rparr>"

definition nd_transcript_snapshot :: "nd_transcript \<Rightarrow> byte list" where
  "nd_transcript_snapshot t = (let copy = tr_ctx t in nd_sha256_final copy)"

text \<open>\<open>transcript_of msgs\<close>: the transcript after these messages.\<close>

definition transcript_of :: "byte list list \<Rightarrow> nd_transcript" where
  "transcript_of msgs = foldl nd_transcript_add nd_transcript_init msgs"

lemma transcript_ctx: "tr_ctx (foldl nd_transcript_add t msgs) = foldl nd_sha256_update (tr_ctx t) msgs"
  by (induction msgs arbitrary: t) (simp_all add: nd_transcript_add_def)

lemma transcript_of_snoc: "nd_transcript_add (transcript_of msgs) m = transcript_of (msgs @ [m])"
  by (simp add: transcript_of_def)

lemma transcript_of_Nil: "nd_transcript_init = transcript_of []"
  by (simp add: transcript_of_def)

lemma snapshot_transcript_of: "nd_transcript_snapshot (transcript_of msgs) = sha256_hash (concat msgs)"
  by (simp add: nd_transcript_snapshot_def transcript_of_def transcript_ctx nd_transcript_init_def
      sha256.finish_feed)

text \<open>A snapshot of the transcript after any sequence of messages is the SHA-256 digest of their
  concatenation, however the bytes were divided into messages.\<close>

theorem transcript_snapshot_correct:
  "nd_transcript_snapshot (foldl nd_transcript_add nd_transcript_init msgs) = sha256_hash (concat msgs)"
  using snapshot_transcript_of by (simp add: transcript_of_def)

end
