(* ===== verification/Key_Schedule.thy ===== *)
theory Key_Schedule
  imports Hkdf
begin

text \<open>
  The handshake key schedule and the Finished message: \<^verbatim>\<open>src/handshake/key_schedule.c\<close> and
  \<^verbatim>\<open>include/nanodtls/key_schedule.h\<close>. Shown: with arguments of the right sizes the derivation always
  succeeds and its outputs have the sizes the record protection needs, and are the values the TLS 1.3
  key schedule prescribes; the byte-wise comparison of Finished accepts exactly the computed value.
\<close>

unbundle bit_operations_syntax

abbreviation (input) ND_AEAD_KEY_LEN :: nat where "ND_AEAD_KEY_LEN \<equiv> 32"
abbreviation (input) ND_AEAD_NONCE_LEN :: nat where "ND_AEAD_NONCE_LEN \<equiv> 12"

record nd_handshake_keys =
  hk_handshake_secret :: "byte list"
  hk_client_handshake_traffic_secret :: "byte list"
  hk_server_handshake_traffic_secret :: "byte list"
  hk_client_write_key :: "byte list"
  hk_client_write_iv :: "byte list"
  hk_server_write_key :: "byte list"
  hk_server_write_iv :: "byte list"

fun nd_derive_handshake_keys ::
  "byte list ptr \<Rightarrow> byte list ptr \<Rightarrow> byte list ptr \<Rightarrow> nd_handshake_keys result" where
  "nd_derive_handshake_keys (Some label_prefix) (Some shared_secret) (Some hello_transcript_hash) =
     (let zero32 = replicate ND_HASH_LEN 0; prefix = Some label_prefix in
      then_ok (nd_hkdf_extract (Buf zero32) (Buf zero32)) (\<lambda>early_secret.
      let empty_hash = nd_sha256 [] in
      then_ok (nd_derive_secret (Buf early_secret) prefix (Some (cstr ''derived'')) (Buf empty_hash))
        (\<lambda>derived_early.
      then_ok (nd_hkdf_extract (Buf derived_early) (Buf shared_secret)) (\<lambda>handshake_secret.
      then_ok (nd_derive_secret (Buf handshake_secret) prefix (Some (cstr ''c hs traffic''))
        (Buf hello_transcript_hash)) (\<lambda>client_secret.
      then_ok (nd_derive_secret (Buf handshake_secret) prefix (Some (cstr ''s hs traffic''))
        (Buf hello_transcript_hash)) (\<lambda>server_secret.
      then_ok (nd_hkdf_expand_label (Buf client_secret) prefix (Some (cstr ''key'')) (NULL_buf 0)
        ND_AEAD_KEY_LEN) (\<lambda>client_key.
      then_ok (nd_hkdf_expand_label (Buf client_secret) prefix (Some (cstr ''iv'')) (NULL_buf 0)
        ND_AEAD_NONCE_LEN) (\<lambda>client_iv.
      then_ok (nd_hkdf_expand_label (Buf server_secret) prefix (Some (cstr ''key'')) (NULL_buf 0)
        ND_AEAD_KEY_LEN) (\<lambda>server_key.
      then_ok (nd_hkdf_expand_label (Buf server_secret) prefix (Some (cstr ''iv'')) (NULL_buf 0)
        ND_AEAD_NONCE_LEN) (\<lambda>server_iv.
      Inr \<lparr>hk_handshake_secret = handshake_secret,
           hk_client_handshake_traffic_secret = client_secret,
           hk_server_handshake_traffic_secret = server_secret,
           hk_client_write_key = client_key, hk_client_write_iv = client_iv,
           hk_server_write_key = server_key, hk_server_write_iv = server_iv\<rparr>))))))))))"
| "nd_derive_handshake_keys label_prefix shared_secret hello_transcript_hash = Inl ND_ERR_BAD_ARG"

fun nd_finished_compute ::
  "byte list ptr \<Rightarrow> byte list ptr \<Rightarrow> byte list ptr \<Rightarrow> byte list result" where
  "nd_finished_compute (Some label_prefix) (Some base_key) (Some transcript_hash) =
     then_ok (nd_hkdf_expand_label (Buf base_key) (Some label_prefix) (Some (cstr ''finished''))
       (NULL_buf 0) ND_HASH_LEN) (\<lambda>finished_key.
     Inr (nd_hmac_sha256 finished_key transcript_hash))"
| "nd_finished_compute label_prefix base_key transcript_hash = Inl ND_ERR_BAD_ARG"

text \<open>A result without outputs is \<open>Inr ()\<close> for \<^verbatim>\<open>ND_OK\<close>.\<close>

definition ct_diff :: "byte list \<Rightarrow> byte list \<Rightarrow> nat \<Rightarrow> byte" where
  "ct_diff xs ys n = foldl (\<lambda>diff i. diff OR (xs ! i XOR ys ! i)) 0 [0..<n]"

fun nd_finished_verify ::
  "byte list ptr \<Rightarrow> byte list ptr \<Rightarrow> byte list ptr \<Rightarrow> byte list ptr \<Rightarrow> unit result" where
  "nd_finished_verify label_prefix base_key transcript_hash None = Inl ND_ERR_BAD_ARG"
| "nd_finished_verify label_prefix base_key transcript_hash (Some received_verify_data) =
     then_ok (nd_finished_compute label_prefix base_key transcript_hash) (\<lambda>computed.
     if ct_diff computed received_verify_data ND_HASH_LEN = 0 then Inr () else Inl ND_ERR_AUTH_FAILED)"

section \<open>Specification\<close>

text \<open>Derive-Secret and HKDF-Expand-Label of RFC 8446 over the chain of RFC 5869.\<close>

definition expand_label :: "byte list \<Rightarrow> byte list \<Rightarrow> string \<Rightarrow> byte list \<Rightarrow> nat \<Rightarrow> byte list" where
  "expand_label prefix secret label context l = hkdf_okm secret (rfc_hkdf_label l (prefix @ cstr label) context) l"

definition tls13_handshake_keys :: "byte list \<Rightarrow> byte list \<Rightarrow> byte list \<Rightarrow> nd_handshake_keys" where
  "tls13_handshake_keys prefix dhe th =
     (let mac = hmac sha256_hash 64; zeros = replicate 32 0;
          early = mac zeros zeros;
          handshake = mac (expand_label prefix early ''derived'' (sha256_hash []) 32) dhe;
          client = expand_label prefix handshake ''c hs traffic'' th 32;
          server = expand_label prefix handshake ''s hs traffic'' th 32
      in \<lparr>hk_handshake_secret = handshake,
          hk_client_handshake_traffic_secret = client, hk_server_handshake_traffic_secret = server,
          hk_client_write_key = expand_label prefix client ''key'' [] 32,
          hk_client_write_iv = expand_label prefix client ''iv'' [] 12,
          hk_server_write_key = expand_label prefix server ''key'' [] 32,
          hk_server_write_iv = expand_label prefix server ''iv'' [] 12\<rparr>)"

definition tls13_finished :: "byte list \<Rightarrow> byte list \<Rightarrow> byte list \<Rightarrow> byte list" where
  "tls13_finished prefix base th = hmac sha256_hash 64 (expand_label prefix base ''finished'' [] 32) th"

section \<open>Lemmas\<close>

lemma length_cstr [simp]: "length (cstr s) = length s"
  by (simp add: cstr_def)

lemma expand_label_eq:
  assumes "length prefix + length label \<le> 64" "cbuf_len context \<le> 64"
    "\<not> cbuf_is_null context \<or> cbuf_len context = 0" "l \<le> 255 * 32"
  shows "nd_hkdf_expand_label (Buf secret) (Some prefix) (Some (cstr label)) context l =
    Inr (expand_label prefix secret label (cbuf_bytes context) l)"
  using hkdf_expand_label_eq [of prefix "cstr label" "context" l secret] assms by (simp add: expand_label_def hkdf_label_rfc)

lemma length_expand_label [simp, len_simps]:
  "l \<le> 255 * 32 \<Longrightarrow> length (expand_label prefix secret label context l) = l"
  by (simp add: expand_label_def)

lemma expand_label_eq_Nil [simp]:
  "l \<le> 255 * 32 \<Longrightarrow> expand_label prefix secret label context l = [] \<longleftrightarrow> l = 0"
  using length_expand_label [of l prefix secret label "context"] by (metis length_0_conv)

lemma derive_handshake_keys_eq:
  assumes "length prefix \<le> 52" "length dhe = 32" "length th = 32"
  shows "nd_derive_handshake_keys (Some prefix) (Some dhe) (Some th) =
    Inr (tls13_handshake_keys prefix dhe th)"
  using assms
  by (simp add: nd_derive_secret_def nd_hkdf_extract_def expand_label_eq Let_def nd_sha256_eq
      hmac_sha256_eq tls13_handshake_keys_def del: nd_hkdf_expand_label.simps)

lemma finished_compute_eq:
  assumes "length prefix \<le> 52"
  shows "nd_finished_compute (Some prefix) (Some base) (Some th) = Inr (tls13_finished prefix base th)"
  using assms 
  by (simp add: expand_label_eq tls13_finished_def hmac_sha256_eq del: nd_hkdf_expand_label.simps)

lemma length_tls13_finished [simp, len_simps]: "length (tls13_finished prefix base th) = 32"
  by (simp add: tls13_finished_def hmac_def)

lemma ct_diff_zero_iff: "ct_diff xs ys n = 0 \<longleftrightarrow> (\<forall>i<n. xs ! i = ys ! i)"
proof (induction n)
  case (Suc n)
  then show ?case by (auto simp: ct_diff_def or_eq_0_iff less_Suc_eq xor_eq_0)
qed (simp add: ct_diff_def)

lemma ct_diff_zero_eq: "length xs = n \<Longrightarrow> length ys = n \<Longrightarrow> ct_diff xs ys n = 0 \<longleftrightarrow> xs = ys"
  by (auto simp: ct_diff_zero_iff list_eq_iff_nth_eq)

section \<open>Properties\<close>

text \<open>C37: With a shared secret and a transcript hash of 32 bytes the derivation of the handshake keys
  succeeds, yields the values of the TLS 1.3 key schedule, and the keys and IVs have the sizes the
  record protection needs.\<close>

theorem derive_handshake_keys_correct:
  assumes "length prefix \<le> 52" "length dhe = ND_HASH_LEN" "length th = ND_HASH_LEN"
  shows "\<exists>ks. nd_derive_handshake_keys (Some prefix) (Some dhe) (Some th) = Inr ks \<and>
    ks = tls13_handshake_keys prefix dhe th \<and>
    length (hk_client_write_key ks) = ND_AEAD_KEY_LEN \<and> length (hk_server_write_key ks) = ND_AEAD_KEY_LEN \<and>
    length (hk_client_write_iv ks) = ND_AEAD_NONCE_LEN \<and> length (hk_server_write_iv ks) = ND_AEAD_NONCE_LEN"
  using derive_handshake_keys_eq [OF assms] by (simp add: tls13_handshake_keys_def Let_def)

theorem derive_handshake_keys_correct_witness:
  "\<exists>ks. nd_derive_handshake_keys (Some ND_HKDF_LABEL_PREFIX_DTLS13) (Some (replicate 32 1))
      (Some (replicate 32 2)) = Inr ks \<and> length (hk_client_write_iv ks) = 12"
  using derive_handshake_keys_correct [of ND_HKDF_LABEL_PREFIX_DTLS13 "replicate 32 1" "replicate 32 2"]
  by (auto simp: ND_HKDF_LABEL_PREFIX_DTLS13_def)

text \<open>C38: The comparison of Finished, which ORs the differences of all bytes, accepts exactly the
  verify data computed from the base key and the transcript hash, and refuses every other 32 bytes
  with \<^verbatim>\<open>ND_ERR_AUTH_FAILED\<close>.\<close>

theorem finished_verify_correct:
  assumes "length prefix \<le> 52" "length received = ND_HASH_LEN"
  shows "nd_finished_verify (Some prefix) (Some base) (Some th) (Some received) =
    (if received = tls13_finished prefix base th then Inr () else Inl ND_ERR_AUTH_FAILED)"
  using assms ct_diff_zero_eq [of "tls13_finished prefix base th" 32 received]
  by (auto simp: finished_compute_eq simp del: nd_finished_compute.simps)

theorem finished_verify_correct_witness:
  "nd_finished_verify (Some []) (Some [1]) (Some [2]) (Some (tls13_finished [] [1] [2])) = Inr ()"
  by (subst finished_verify_correct) simp_all

end
