(* ===== verification/Chacha20.thy ===== *)
theory Chacha20
  imports Prelude
begin

text \<open>
  ChaCha20: \<^verbatim>\<open>src/crypto/chacha20.c\<close> and \<^verbatim>\<open>include/nanodtls/chacha20.h\<close>. A pointer into an array is
  the array and an offset.
  Shown: the loop XORs byte \<open>i\<close> of the message with byte \<open>i mod 64\<close> of the key stream block with
  counter \<open>initial + i div 64\<close> modulo 2 to the 32, so applying it twice gives back the message.
\<close>

unbundle bit_operations_syntax

abbreviation (input) ND_CHACHA20_BLOCK_LEN :: nat where "ND_CHACHA20_BLOCK_LEN \<equiv> 64"

section \<open>The block function\<close>

definition load_le32 :: "byte list \<Rightarrow> nat \<Rightarrow> u32" where
  "load_le32 p off =
     ((ucast (p ! off) OR push_bit 8 (ucast (p ! (off + 1)))) OR
      push_bit 16 (ucast (p ! (off + 2)))) OR push_bit 24 (ucast (p ! (off + 3)))"

definition store_le32 :: "u32 \<Rightarrow> byte list" where
  "store_le32 x = [ucast x, ucast (drop_bit 8 x), ucast (drop_bit 16 x), ucast (drop_bit 24 x)]"

definition rotl32 :: "u32 \<Rightarrow> nat \<Rightarrow> u32" where
  "rotl32 x n = push_bit n x OR drop_bit (32 - n) x"

definition quarter_round :: "u32 \<times> u32 \<times> u32 \<times> u32 \<Rightarrow> u32 \<times> u32 \<times> u32 \<times> u32" where
  "quarter_round = (\<lambda>(a, b, c, d).
     let a = a + b; d = d XOR a; d = rotl32 d 16;
         c = c + d; b = b XOR c; b = rotl32 b 12;
         a = a + b; d = d XOR a; d = rotl32 d 8;
         c = c + d; b = b XOR c; b = rotl32 b 7
     in (a, b, c, d))"

text \<open>The macro \<^verbatim>\<open>QR\<close> on four elements of the array \<open>x\<close>.\<close>

definition QR :: "nat \<Rightarrow> nat \<Rightarrow> nat \<Rightarrow> nat \<Rightarrow> u32 list \<Rightarrow> u32 list" where
  "QR i j k l x =
     (let (a, b, c, d) = quarter_round (x ! i, x ! j, x ! k, x ! l)
      in x[i := a, j := b, k := c, l := d])"

definition double_round :: "u32 list \<Rightarrow> u32 list" where
  "double_round x =
     (let x = QR 0 4 8 12 x;
          x = QR 1 5 9 13 x;
          x = QR 2 6 10 14 x;
          x = QR 3 7 11 15 x;
          x = QR 0 5 10 15 x;
          x = QR 1 6 11 12 x;
          x = QR 2 7 8 13 x
      in QR 3 4 9 14 x)"

definition chacha20_state :: "byte list \<Rightarrow> byte list \<Rightarrow> u32 \<Rightarrow> u32 list" where
  "chacha20_state key nonce counter =
     [0x61707865, 0x3320646e, 0x79622d32, 0x6b206574] @
     map (\<lambda>i. load_le32 key (i * 4)) [0..<8] @ [counter] @
     map (\<lambda>i. load_le32 nonce (i * 4)) [0..<3]"

definition nd_chacha20_block :: "byte list \<Rightarrow> byte list \<Rightarrow> u32 \<Rightarrow> byte list" where
  "nd_chacha20_block key nonce counter =
     (let s = chacha20_state key nonce counter;
          x = (double_round ^^ 10) s
      in concat (map (\<lambda>i. store_le32 (x ! i + s ! i)) [0..<16]))"

section \<open>Encryption\<close>

text \<open>The loop of \<^verbatim>\<open>nd_chacha20_xor\<close>; \<open>inp\<close> is the input from the current offset on.\<close>

function chacha20_xor_loop :: "byte list \<Rightarrow> byte list \<Rightarrow> u32 \<Rightarrow> byte list \<Rightarrow> byte list" where
  "chacha20_xor_loop key nonce counter inp =
     (if length inp > 0 then
        let block = nd_chacha20_block key nonce counter;
            tk = length inp;
            tk = (if tk > ND_CHACHA20_BLOCK_LEN then ND_CHACHA20_BLOCK_LEN else tk)
        in map (\<lambda>i. inp ! i XOR block ! i) [0..<tk] @
           chacha20_xor_loop key nonce (counter + 1) (drop tk inp)
      else [])"
  by pat_completeness auto
termination
  by (relation "measure (\<lambda>(key, nonce, counter, inp). length inp)") auto

declare chacha20_xor_loop.simps [simp del]

fun nd_chacha20_xor :: "byte list ptr \<Rightarrow> byte list ptr \<Rightarrow> u32 \<Rightarrow> cbuf \<Rightarrow> byte list result" where
  "nd_chacha20_xor (Some key) (Some nonce) initial_counter inp =
     (if cbuf_len inp > 0 \<and> cbuf_is_null inp then Inl ND_ERR_BAD_ARG
      else Inr (chacha20_xor_loop key nonce initial_counter (cbuf_bytes inp)))"
| "nd_chacha20_xor key nonce initial_counter inp = Inl ND_ERR_BAD_ARG"

section \<open>The key stream\<close>

definition keystream_byte :: "byte list \<Rightarrow> byte list \<Rightarrow> u32 \<Rightarrow> nat \<Rightarrow> byte" where
  "keystream_byte key nonce counter i =
     nd_chacha20_block key nonce (counter + of_nat (i div 64)) ! (i mod 64)"

lemma length_chacha20_block [simp, len_simps]: "length (nd_chacha20_block key nonce counter) = 64"
proof -
  have "length (concat (map (\<lambda>i. store_le32 (f i)) is)) = 4 * length is" for f and "is" :: "nat list"
    by (induction "is") (simp_all add: store_le32_def)
  then show ?thesis by (simp add: nd_chacha20_block_def Let_def)
qed

lemma length_chacha20_xor_loop [simp, len_simps]:
  "length (chacha20_xor_loop key nonce counter inp) = length inp"
proof (induction key nonce counter inp rule: chacha20_xor_loop.induct)
  case (1 key nonce counter inp)
  then show ?case by (subst chacha20_xor_loop.simps) (auto simp: Let_def)
qed

lemma chacha20_xor_loop_nth:
  "i < length inp \<Longrightarrow>
   chacha20_xor_loop key nonce counter inp ! i = inp ! i XOR keystream_byte key nonce counter i"
proof (induction key nonce counter inp arbitrary: i rule: chacha20_xor_loop.induct)
  case (1 key nonce counter inp)
  let ?tk = "if length inp > 64 then 64 else length inp"
  let ?here = "map (\<lambda>i. inp ! i XOR nd_chacha20_block key nonce counter ! i) [0..<?tk]"
  have ne: "0 < length inp" using 1(2) by linarith
  have eq: "chacha20_xor_loop key nonce counter inp =
      ?here @ chacha20_xor_loop key nonce (counter + 1) (drop ?tk inp)"
    using ne by (subst chacha20_xor_loop.simps) (auto simp: Let_def)
  show ?case
  proof (cases "i < ?tk")
    case True
    then have "i < 64" by (auto split: if_splits)
    then show ?thesis using True unfolding eq by (simp add: nth_append keystream_byte_def)
  next
    case False
    then have i: "64 \<le> i" "?tk = 64" using 1(2) by (auto split: if_splits)
    have "chacha20_xor_loop key nonce (counter + 1) (drop ?tk inp) ! (i - 64) =
        drop ?tk inp ! (i - 64) XOR keystream_byte key nonce (counter + 1) (i - 64)"
      using 1(1) [OF ne refl refl refl, of "i - 64"] 1(2) i by (auto simp: Let_def)
    moreover have "keystream_byte key nonce (counter + 1) (i - 64) = keystream_byte key nonce counter i"
    proof -
      obtain j where "i = 64 + j" using i(1) le_Suc_ex by blast
      moreover have "(64 + j) div 64 = Suc (j div 64)" by (subst div_add_self1) simp_all
      ultimately show ?thesis by (simp add: keystream_byte_def add.assoc)
    qed
    ultimately show ?thesis using False i 1(2) unfolding eq by (simp add: nth_append)
  qed
qed

lemma chacha20_xor_involution:
  "chacha20_xor_loop key nonce counter (chacha20_xor_loop key nonce counter inp) = inp"
  by (rule nth_equalityI) (simp_all add: chacha20_xor_loop_nth xor.assoc)

section \<open>Properties\<close>

text \<open>Encryption XORs each byte of the message with the byte of the key stream at its position:
  block number initial counter plus position divided by 64, with the 32-bit counter wrapping, and
  the output is as long as the message.\<close>

theorem chacha20_xor_keystream:
  "\<exists>out. nd_chacha20_xor (Some key) (Some nonce) counter (Buf inp) = Inr out \<and>
     length out = length inp \<and>
     list_all (\<lambda>i. out ! i = inp ! i XOR keystream_byte key nonce counter i) [0..<length inp]"
  by (simp add: list_all_iff chacha20_xor_loop_nth)

text \<open>Decryption is encryption: applying \<^verbatim>\<open>nd_chacha20_xor\<close> with the same key, nonce and counter to
  its own output gives back the input.\<close>

theorem chacha20_xor_twice:
  "then_ok (nd_chacha20_xor (Some key) (Some nonce) counter (Buf inp))
     (\<lambda>out. nd_chacha20_xor (Some key) (Some nonce) counter (Buf out)) = Inr inp"
  by (simp add: chacha20_xor_involution)

end
