(* ===== verification/Poly1305.thy ===== *)
theory Poly1305
  imports Chacha20
begin

text \<open>
  Poly1305: \<^verbatim>\<open>src/crypto/poly1305.c\<close> and \<^verbatim>\<open>include/nanodtls/poly1305.h\<close>. The arrays of five limbs are
  5-tuples; the products are 64-bit words, as in the source, and the \<^verbatim>\<open>int64_t\<close> differences of the
  final subtraction are integers (they stay between minus 2 to the 27 and 2 to the 26). The file has
  its own copies of \<^verbatim>\<open>load_le32\<close> and \<^verbatim>\<open>store_le32\<close>, identical to those of \<^verbatim>\<open>chacha20.c\<close>.
  Shown: no product, sum or carry overflows its type, the limbs stay in the bounds the next step
  needs, and the tag is the polynomial in the clamped key modulo 2 to the 130 minus 5, plus the second
  half of the key, modulo 2 to the 128, however the message is cut into updates.
\<close>

unbundle bit_operations_syntax

type_synonym limbs = "u32 \<times> u32 \<times> u32 \<times> u32 \<times> u32"

abbreviation (input) MASK26 :: "'a::len word" where "MASK26 \<equiv> 0x3ffffff"

section \<open>Limbs\<close>

definition clamp_r :: "byte list \<Rightarrow> byte list" where
  "clamp_r r =
     (let r = r[3 := r ! 3 AND 15]; r = r[7 := r ! 7 AND 15];
          r = r[11 := r ! 11 AND 15]; r = r[15 := r ! 15 AND 15];
          r = r[4 := r ! 4 AND 252]; r = r[8 := r ! 8 AND 252]
      in r[12 := r ! 12 AND 252])"

definition bytes_to_limbs :: "byte list \<Rightarrow> limbs" where
  "bytes_to_limbs buf =
     (((ucast (buf ! 0) OR push_bit 8 (ucast (buf ! 1))) OR push_bit 16 (ucast (buf ! 2))) OR
        push_bit 24 (ucast (buf ! 3) AND 0x03),
      ((drop_bit 2 (ucast (buf ! 3)) OR push_bit 6 (ucast (buf ! 4))) OR
        push_bit 14 (ucast (buf ! 5))) OR push_bit 22 (ucast (buf ! 6) AND 0x0f),
      ((drop_bit 4 (ucast (buf ! 6)) OR push_bit 4 (ucast (buf ! 7))) OR
        push_bit 12 (ucast (buf ! 8))) OR push_bit 20 (ucast (buf ! 9) AND 0x3f),
      ((drop_bit 6 (ucast (buf ! 9)) OR push_bit 2 (ucast (buf ! 10))) OR
        push_bit 10 (ucast (buf ! 11))) OR push_bit 18 (ucast (buf ! 12)),
      ((ucast (buf ! 13) OR push_bit 8 (ucast (buf ! 14))) OR push_bit 16 (ucast (buf ! 15))) OR
        push_bit 24 (ucast (buf ! 16)))"

text \<open>The five sums of products, and the carries between them.\<close>

definition mulmod_products ::
  "limbs \<Rightarrow> limbs \<Rightarrow> u32 \<times> u32 \<times> u32 \<times> u32 \<Rightarrow> u64 \<times> u64 \<times> u64 \<times> u64 \<times> u64" where
  "mulmod_products = (\<lambda>(h0, h1, h2, h3, h4) (r0, r1, r2, r3, r4) (s0, s1, s2, s3).
     (ucast h0 * ucast r0 + ucast h1 * ucast s3 + ucast h2 * ucast s2 +
        ucast h3 * ucast s1 + ucast h4 * ucast s0,
      ucast h0 * ucast r1 + ucast h1 * ucast r0 + ucast h2 * ucast s3 +
        ucast h3 * ucast s2 + ucast h4 * ucast s1,
      ucast h0 * ucast r2 + ucast h1 * ucast r1 + ucast h2 * ucast r0 +
        ucast h3 * ucast s3 + ucast h4 * ucast s2,
      ucast h0 * ucast r3 + ucast h1 * ucast r2 + ucast h2 * ucast r1 +
        ucast h3 * ucast r0 + ucast h4 * ucast s3,
      ucast h0 * ucast r4 + ucast h1 * ucast r3 + ucast h2 * ucast r2 +
        ucast h3 * ucast r1 + ucast h4 * ucast r0))"

definition mulmod_carry :: "u64 \<times> u64 \<times> u64 \<times> u64 \<times> u64 \<Rightarrow> limbs" where
  "mulmod_carry = (\<lambda>(d0, d1, d2, d3, d4).
     let carry = drop_bit 26 d0; h0 = (ucast (d0 AND MASK26) :: u32); d1 = d1 + carry;
         carry = drop_bit 26 d1; h1 = (ucast (d1 AND MASK26) :: u32); d2 = d2 + carry;
         carry = drop_bit 26 d2; h2 = (ucast (d2 AND MASK26) :: u32); d3 = d3 + carry;
         carry = drop_bit 26 d3; h3 = (ucast (d3 AND MASK26) :: u32); d4 = d4 + carry;
         carry = drop_bit 26 d4; h4 = (ucast (d4 AND MASK26) :: u32);
         h0 = h0 + ucast (carry * 5);
         carry = (ucast (drop_bit 26 h0) :: u64); h0 = h0 AND MASK26; h1 = h1 + ucast carry
     in (h0, h1, h2, h3, h4))"

definition poly1305_mulmod :: "limbs \<Rightarrow> limbs \<Rightarrow> u32 \<times> u32 \<times> u32 \<times> u32 \<Rightarrow> limbs" where
  "poly1305_mulmod h r s = mulmod_carry (mulmod_products h r s)"

definition add_limbs :: "limbs \<Rightarrow> limbs \<Rightarrow> limbs" where
  "add_limbs = (\<lambda>(h0, h1, h2, h3, h4) (t0, t1, t2, t3, t4).
     (h0 + t0, h1 + t1, h2 + t2, h3 + t3, h4 + t4))"

section \<open>The context and its operations\<close>

text \<open>\<open>pc_buf\<close> is the filled prefix \<^verbatim>\<open>buf[0 .. buf_len)\<close>.\<close>

record nd_poly1305_ctx =
  pc_h :: limbs
  pc_r :: limbs
  pc_s :: "u32 \<times> u32 \<times> u32 \<times> u32"
  pc_pad :: "byte list"
  pc_buf :: "byte list"

definition process_full_block :: "nd_poly1305_ctx \<Rightarrow> byte list \<Rightarrow> nd_poly1305_ctx" where
  "process_full_block ctx block =
     (let block17 = take 16 block @ [0x01];
          t = bytes_to_limbs block17;
          h = add_limbs (pc_h ctx) t
      in ctx\<lparr>pc_h := poly1305_mulmod h (pc_r ctx) (pc_s ctx)\<rparr>)"

definition nd_poly1305_init :: "byte list \<Rightarrow> nd_poly1305_ctx" where
  "nd_poly1305_init key =
     (let r_bytes = clamp_r (take 16 key);
          r17 = r_bytes @ [0];
          (r0, r1, r2, r3, r4) = bytes_to_limbs r17
      in \<lparr>pc_h = (0, 0, 0, 0, 0), pc_r = (r0, r1, r2, r3, r4),
          pc_s = (r1 * 5, r2 * 5, r3 * 5, r4 * 5),
          pc_pad = take 16 (drop 16 key), pc_buf = []\<rparr>)"

text \<open>The loop over the full blocks of the data, which returns the context and the remaining data.\<close>

function poly1305_blocks :: "nd_poly1305_ctx \<Rightarrow> byte list \<Rightarrow> nd_poly1305_ctx \<times> byte list" where
  "poly1305_blocks ctx data =
     (if length data \<ge> 16 then poly1305_blocks (process_full_block ctx data) (drop 16 data)
      else (ctx, data))"
  by pat_completeness auto
termination
  by (relation "measure (\<lambda>(ctx, data). length data)") auto

declare poly1305_blocks.simps [simp del]

definition nd_poly1305_update :: "nd_poly1305_ctx \<Rightarrow> byte list \<Rightarrow> nd_poly1305_ctx" where
  "nd_poly1305_update ctx data =
     (if length data = 0 then ctx
      else
        let (ctx, data) =
              (if length (pc_buf ctx) \<noteq> 0 then
                 let tk = 16 - length (pc_buf ctx);
                     tk = (if tk > length data then length data else tk);
                     ctx = ctx\<lparr>pc_buf := pc_buf ctx @ take tk data\<rparr>;
                     data = drop tk data
                 in if length (pc_buf ctx) = 16
                    then ((process_full_block ctx (pc_buf ctx))\<lparr>pc_buf := []\<rparr>, data)
                    else (ctx, data)
               else (ctx, data));
            (ctx, data) = poly1305_blocks ctx data
        in if length data > 0 then ctx\<lparr>pc_buf := data\<rparr> else ctx)"

section \<open>The tag\<close>

text \<open>The last, partial block.\<close>

definition poly1305_last_block :: "nd_poly1305_ctx \<Rightarrow> nd_poly1305_ctx" where
  "poly1305_last_block ctx =
     (if length (pc_buf ctx) > 0 then
        let block17 = replicate 17 0;
            block17 = memcpy_at block17 0 (pc_buf ctx);
            block17 = block17[length (pc_buf ctx) := 0x01];
            t = bytes_to_limbs block17;
            h = add_limbs (pc_h ctx) t
        in ctx\<lparr>pc_h := poly1305_mulmod h (pc_r ctx) (pc_s ctx)\<rparr>
      else ctx)"

text \<open>The full carry pass.\<close>

definition final_carry :: "limbs \<Rightarrow> limbs" where
  "final_carry = (\<lambda>(h0, h1, h2, h3, h4).
     let c = drop_bit 26 h1; h1 = h1 AND MASK26; h2 = h2 + c;
         c = drop_bit 26 h2; h2 = h2 AND MASK26; h3 = h3 + c;
         c = drop_bit 26 h3; h3 = h3 AND MASK26; h4 = h4 + c;
         c = drop_bit 26 h4; h4 = h4 AND MASK26; h0 = h0 + c * 5;
         c = drop_bit 26 h0; h0 = h0 AND MASK26; h1 = h1 + c;
         c = drop_bit 26 h1; h1 = h1 AND MASK26; h2 = h2 + c
     in (h0, h1, h2, h3, h4))"

text \<open>The subtraction of the modulus if the accumulator is not below it.\<close>

definition final_subtract :: "limbs \<Rightarrow> limbs" where
  "final_subtract = (\<lambda>(h0, h1, h2, h3, h4).
     let b0 = uint h0 - 0x3fffffb;
         borrow = (if b0 < 0 then 1 else 0);
         b0 = (if borrow \<noteq> 0 then b0 + 0x4000000 else b0);
         b1 = uint h1 - 0x3ffffff - borrow;
         borrow = (if b1 < 0 then 1 else 0);
         b1 = (if borrow \<noteq> 0 then b1 + 0x4000000 else b1);
         b2 = uint h2 - 0x3ffffff - borrow;
         borrow = (if b2 < 0 then 1 else 0);
         b2 = (if borrow \<noteq> 0 then b2 + 0x4000000 else b2);
         b3 = uint h3 - 0x3ffffff - borrow;
         borrow = (if b3 < 0 then 1 else 0);
         b3 = (if borrow \<noteq> 0 then b3 + 0x4000000 else b3);
         b4 = uint h4 - 0x3ffffff - borrow;
         borrow = (if b4 < 0 then 1 else (0 :: int))
     in if \<not> borrow \<noteq> 0
        then (word_of_int b0, word_of_int b1, word_of_int b2, word_of_int b3, word_of_int b4)
        else (h0, h1, h2, h3, h4))"

text \<open>The packing into four 32-bit words and the addition of the second half of the key.\<close>

definition final_pack :: "limbs \<Rightarrow> u32 \<times> u32 \<times> u32 \<times> u32" where
  "final_pack = (\<lambda>(r0, r1, r2, r3, r4).
     (r0 OR push_bit 26 r1, drop_bit 6 r1 OR push_bit 20 r2,
      drop_bit 12 r2 OR push_bit 14 r3, drop_bit 18 r3 OR push_bit 8 r4))"

definition final_add_pad :: "u32 \<times> u32 \<times> u32 \<times> u32 \<Rightarrow> byte list \<Rightarrow> byte list" where
  "final_add_pad = (\<lambda>(w0, w1, w2, w3) pad.
     let pad0 = load_le32 pad 0; pad1 = load_le32 pad 4;
         pad2 = load_le32 pad 8; pad3 = load_le32 pad 12;
         f = (ucast w0 + ucast pad0 :: u64); w0 = ucast f;
         f = (ucast w1 + ucast pad1 + drop_bit 32 f :: u64); w1 = ucast f;
         f = (ucast w2 + ucast pad2 + drop_bit 32 f :: u64); w2 = ucast f;
         f = (ucast w3 + ucast pad3 + drop_bit 32 f :: u64); w3 = ucast f
     in store_le32 w0 @ store_le32 w1 @ store_le32 w2 @ store_le32 w3)"

definition nd_poly1305_final :: "nd_poly1305_ctx \<Rightarrow> byte list" where
  "nd_poly1305_final ctx =
     (let ctx = poly1305_last_block ctx;
          h = final_carry (pc_h ctx);
          r = final_subtract h;
          w = final_pack r
      in final_add_pad w (pc_pad ctx))"

definition nd_poly1305_mac :: "byte list \<Rightarrow> byte list \<Rightarrow> byte list" where
  "nd_poly1305_mac key msg =
     (let ctx = nd_poly1305_init key;
          ctx = nd_poly1305_update ctx msg
      in nd_poly1305_final ctx)"

section \<open>Limbs as numbers\<close>

fun lval :: "limbs \<Rightarrow> nat" where
  "lval (h0, h1, h2, h3, h4) =
     unat h0 + 2 ^ 26 * unat h1 + 2 ^ 52 * unat h2 + 2 ^ 78 * unat h3 + 2 ^ 104 * unat h4"

fun limbs_le :: "nat \<Rightarrow> limbs \<Rightarrow> bool" where
  "limbs_le b (h0, h1, h2, h3, h4) =
     (unat h0 \<le> b \<and> unat h1 \<le> b \<and> unat h2 \<le> b \<and> unat h3 \<le> b \<and> unat h4 \<le> b)"

text \<open>What holds of the accumulator between two blocks.\<close>

fun reduced :: "limbs \<Rightarrow> bool" where
  "reduced (h0, h1, h2, h3, h4) =
     (unat h0 < 2 ^ 26 \<and> unat h1 < 2 ^ 26 + 64 \<and> unat h2 < 2 ^ 26 \<and> unat h3 < 2 ^ 26 \<and>
      unat h4 < 2 ^ 26)"

fun times5 :: "limbs \<Rightarrow> u32 \<times> u32 \<times> u32 \<times> u32" where
  "times5 (r0, r1, r2, r3, r4) = (r1 * 5, r2 * 5, r3 * 5, r4 * 5)"

abbreviation (input) P1305 :: nat where "P1305 \<equiv> 2 ^ 130 - 5"

lemma unat_and_masks:
  "unat (x AND 3) = unat x mod 4" "unat (x AND 15) = unat x mod 16" "unat (x AND 63) = unat x mod 64"
  "unat (x AND MASK26) = unat x mod 2 ^ 26" for x :: "'a::len word"
  using unat_and_mask [of x 2] unat_and_mask [of x 4] unat_and_mask [of x 6] unat_and_mask [of x 26]
  by (simp_all add: mask_eq_exp_minus_1)

lemma unat_byte_le: "unat (b :: byte) \<le> 255"
  using unat_bound [of b] by simp

lemma upt17: "[0..<17] = [0, 1, 2, 3, 4, 5, 6, 7, 8, 9, 10, 11, 12, 13, 14, 15, 16]"
  by code_simp

lemma bytes_to_limbs_parts:
  fixes buf :: "byte list"
  defines "B \<equiv> \<lambda>i. unat (buf ! i)"
  assumes "bytes_to_limbs buf = (t0, t1, t2, t3, t4)"
  shows "unat t0 = B 0 + 2 ^ 8 * B 1 + 2 ^ 16 * B 2 + 2 ^ 24 * (B 3 mod 4)"
    and "unat t1 = B 3 div 4 + 2 ^ 6 * B 4 + 2 ^ 14 * B 5 + 2 ^ 22 * (B 6 mod 16)"
    and "unat t2 = B 6 div 16 + 2 ^ 4 * B 7 + 2 ^ 12 * B 8 + 2 ^ 20 * (B 9 mod 64)"
    and "unat t3 = B 9 div 64 + 2 ^ 2 * B 10 + 2 ^ 10 * B 11 + 2 ^ 18 * B 12"
    and "unat t4 = B 13 + 2 ^ 8 * B 14 + 2 ^ 16 * B 15 + 2 ^ 24 * B 16"
proof -
  have B: "B i \<le> 255" for i
    unfolding B_def by (rule unat_byte_le)
  have m: "B i mod 4 \<le> 3" "B i mod 16 \<le> 15" "B i mod 64 \<le> 63" for i by simp_all
  have q: "B i div 4 \<le> 63" "B i div 16 \<le> 15" "B i div 64 \<le> 3" for i
    using div_le_mono [OF B [of i], of 4] div_le_mono [OF B [of i], of 16]
      div_le_mono [OF B [of i], of 64] by simp_all
  note parts = unat_ucast_up unat_and_masks unat_drop_bit
  note c = assms(2) [symmetric, unfolded bytes_to_limbs_def prod.inject]
  note e = conjunct1 [OF c] conjunct1 [OF conjunct2 [OF c]]
    conjunct1 [OF conjunct2 [OF conjunct2 [OF c]]]
    conjunct1 [OF conjunct2 [OF conjunct2 [OF conjunct2 [OF c]]]]
    conjunct2 [OF conjunct2 [OF conjunct2 [OF conjunct2 [OF c]]]]
  show "unat t0 = B 0 + 2 ^ 8 * B 1 + 2 ^ 16 * B 2 + 2 ^ 24 * (B 3 mod 4)"
    using B [of 0] B [of 1] B [of 2] m(1) [of 3] unfolding e(1) B_def by (subst unat_or4) (simp_all add: parts)
  show "unat t1 = B 3 div 4 + 2 ^ 6 * B 4 + 2 ^ 14 * B 5 + 2 ^ 22 * (B 6 mod 16)"
    using q(1) [of 3] B [of 4] B [of 5] m(2) [of 6] unfolding e(2) B_def by (subst unat_or4) (simp_all add: parts)
  show "unat t2 = B 6 div 16 + 2 ^ 4 * B 7 + 2 ^ 12 * B 8 + 2 ^ 20 * (B 9 mod 64)"
    using q(2) [of 6] B [of 7] B [of 8] m(3) [of 9] unfolding e(3) B_def by (subst unat_or4) (simp_all add: parts)
  show "unat t3 = B 9 div 64 + 2 ^ 2 * B 10 + 2 ^ 10 * B 11 + 2 ^ 18 * B 12"
    using q(3) [of 9] B [of 10] B [of 11] B [of 12] unfolding e(4) B_def by (subst unat_or4) (simp_all add: parts)
  show "unat t4 = B 13 + 2 ^ 8 * B 14 + 2 ^ 16 * B 15 + 2 ^ 24 * B 16"
    using B [of 13] B [of 14] B [of 15] B [of 16] unfolding e(5) B_def by (subst unat_or4) (simp_all add: parts)
qed

lemma radix_256_26:
  "(b0 + 2 ^ 8 * b1 + 2 ^ 16 * b2 + 2 ^ 24 * m3) +
   2 ^ 26 * (q3 + 2 ^ 6 * b4 + 2 ^ 14 * b5 + 2 ^ 22 * m6) +
   2 ^ 52 * (q6 + 2 ^ 4 * b7 + 2 ^ 12 * b8 + 2 ^ 20 * m9) +
   2 ^ 78 * (q9 + 2 ^ 2 * b10 + 2 ^ 10 * b11 + 2 ^ 18 * b12) +
   2 ^ 104 * (b13 + 2 ^ 8 * b14 + 2 ^ 16 * b15 + 2 ^ 24 * b16) =
   b0 + 256 * (b1 + 256 * (b2 + 256 * ((q3 * 4 + m3) + 256 * (b4 + 256 * (b5 + 256 *
   ((q6 * 16 + m6) + 256 * (b7 + 256 * (b8 + 256 * ((q9 * 64 + m9) + 256 * (b10 + 256 * (b11 + 256 *
   (b12 + 256 * (b13 + 256 * (b14 + 256 * (b15 + 256 * (b16 + 256 * 0))))))))))))))))" for b0 :: nat
  by simp

lemma bytes_to_limbs_val:
  assumes "length buf = 17"
  shows "lval (bytes_to_limbs buf) = le_nat buf"
proof -
  obtain t0 t1 t2 t3 t4 where t: "bytes_to_limbs buf = (t0, t1, t2, t3, t4)"
    by (metis prod_cases5)
  have "le_nat buf = le_nat (map ((!) buf) [0..<17])"
    using take_map_nth [of 17 buf] assms by simp
  then show ?thesis
    unfolding t lval.simps bytes_to_limbs_parts [OF t] radix_256_26 div_mult_mod_eq
    by (simp only: upt17 list.map le_nat.simps)
qed

lemma bytes_to_limbs_bound:
  assumes "unat (buf ! 16) \<le> 1"
  shows "limbs_le (2 ^ 26 - 1) (bytes_to_limbs buf)"
proof -
  obtain t0 t1 t2 t3 t4 where t: "bytes_to_limbs buf = (t0, t1, t2, t3, t4)"
    by (metis prod_cases5)
  have B: "unat (buf ! i) \<le> 255" for i by (rule unat_byte_le)
  have m: "unat (buf ! i) mod 4 \<le> 3" "unat (buf ! i) mod 16 \<le> 15" "unat (buf ! i) mod 64 \<le> 63" for i
    by simp_all
  have q: "unat (buf ! i) div 4 \<le> 63" "unat (buf ! i) div 16 \<le> 15" "unat (buf ! i) div 64 \<le> 3" for i
    using div_le_mono [OF B [of i], of 4] div_le_mono [OF B [of i], of 16]
      div_le_mono [OF B [of i], of 64] by simp_all
  have "unat t0 \<le> 2 ^ 26 - 1"
    using bytes_to_limbs_parts(1) [OF t] B [of 0] B [of 1] B [of 2] m(1) [of 3] by simp
  moreover have "unat t1 \<le> 2 ^ 26 - 1"
    using bytes_to_limbs_parts(2) [OF t] B [of 4] B [of 5] m(2) [of 6] q(1) [of 3] by simp
  moreover have "unat t2 \<le> 2 ^ 26 - 1"
    using bytes_to_limbs_parts(3) [OF t] B [of 7] B [of 8] m(3) [of 9] q(2) [of 6] by simp
  moreover have "unat t3 \<le> 2 ^ 26 - 1"
    using bytes_to_limbs_parts(4) [OF t] B [of 10] B [of 11] B [of 12] q(3) [of 9] by simp
  moreover have "unat t4 \<le> 2 ^ 26 - 1"
    using bytes_to_limbs_parts(5) [OF t] B [of 13] B [of 14] B [of 15] assms by simp
  ultimately show ?thesis unfolding t by simp
qed

section \<open>The multiplication\<close>

lemma unat_eq_of_nat: "w = of_nat n \<Longrightarrow> n < 2 ^ LENGTH('a) \<Longrightarrow> unat w = n" for w :: "'a::len word"
  by (simp add: unat_of_nat)

lemma dot5_bound:
  fixes a0 a1 a2 a3 a4 x0 x1 x2 x3 x4 :: nat
  assumes "a0 \<le> A" "a1 \<le> A" "a2 \<le> A" "a3 \<le> A" "a4 \<le> A"
    and "x0 \<le> X" "x1 \<le> X" "x2 \<le> X" "x3 \<le> X" "x4 \<le> X"
  shows "a0 * x0 + a1 * x1 + a2 * x2 + a3 * x3 + a4 * x4 \<le> 5 * (A * X)"
  using mult_le_mono [OF assms(1,6)] mult_le_mono [OF assms(2,7)] mult_le_mono [OF assms(3,8)]
    mult_le_mono [OF assms(4,9)] mult_le_mono [OF assms(5,10)] by linarith

lemma unat_dot5:
  fixes a0 a1 a2 a3 a4 x0 x1 x2 x3 x4 :: u32
  assumes "unat a0 \<le> A" "unat a1 \<le> A" "unat a2 \<le> A" "unat a3 \<le> A" "unat a4 \<le> A"
    and "unat x0 \<le> X" "unat x1 \<le> X" "unat x2 \<le> X" "unat x3 \<le> X" "unat x4 \<le> X"
    and "5 * (A * X) < 2 ^ 64"
  shows "unat (ucast a0 * ucast x0 + ucast a1 * ucast x1 + ucast a2 * ucast x2 + ucast a3 * ucast x3 +
      ucast a4 * ucast x4 :: u64) =
    unat a0 * unat x0 + unat a1 * unat x1 + unat a2 * unat x2 + unat a3 * unat x3 + unat a4 * unat x4"
  using dot5_bound [OF assms(1-10)] assms(11)
  by (intro unat_eq_of_nat) simp_all

text \<open>The carries: the value changes by a multiple of the modulus, and no step overflows.\<close>

lemma carry_arith:
  fixes u v w x y M :: nat
  defines "E1 \<equiv> v + u div M" defines "E2 \<equiv> w + E1 div M"
  defines "E3 \<equiv> x + E2 div M" defines "E4 \<equiv> y + E3 div M"
  defines "G0 \<equiv> u mod M + E4 div M * 5"
  shows "(G0 mod M + M * (E1 mod M + G0 div M) + M ^ 2 * (E2 mod M) + M ^ 3 * (E3 mod M) +
      M ^ 4 * (E4 mod M)) + M ^ 5 * (E4 div M) =
    (u + M * v + M ^ 2 * w + M ^ 3 * x + M ^ 4 * y) + 5 * (E4 div M)"
proof -
  have s: "k mod M + M * (k div M + l) = k + M * l" for k l :: nat
    by (simp add: algebra_simps)
  have c: "k * (l mod M) + k * (M * (l div M)) = k * l" for k l :: nat
    by (simp flip: distrib_left)
  have "G0 mod M + M * (E1 mod M + G0 div M) = G0 + M * (E1 mod M)"
    using s [of G0 "E1 mod M"] by (simp add: add.commute)
  moreover have "M ^ 4 * (E4 mod M) + M ^ 5 * (E4 div M) = M ^ 4 * y + M ^ 3 * (M * (E3 div M))"
    using c [of "M ^ 4" E4] by (simp add: E4_def eval_nat_numeral distrib_left mult.assoc)
  moreover have "M ^ 3 * (E3 mod M) + M ^ 3 * (M * (E3 div M)) = M ^ 3 * x + M ^ 2 * (M * (E2 div M))"
    using c [of "M ^ 3" E3] by (simp add: E3_def eval_nat_numeral distrib_left mult.assoc)
  moreover have "M ^ 2 * (E2 mod M) + M ^ 2 * (M * (E2 div M)) = M ^ 2 * w + M * (M * (E1 div M))"
    using c [of "M ^ 2" E2] by (simp add: E2_def eval_nat_numeral distrib_left mult.assoc)
  moreover have "M * (E1 mod M) + M * (M * (E1 div M)) = M * v + M * (u div M)"
    using c [of M E1] by (simp add: E1_def distrib_left)
  moreover have "M * (u div M) + G0 = u + 5 * (E4 div M)"
    using s [of u 0] by (simp add: G0_def)
  ultimately show ?thesis by linarith
qed

lemma unat_plus: "unat a + unat b < 2 ^ LENGTH('a) \<Longrightarrow> unat (a + b) = unat a + unat b"
  for a b :: "'a::len word"
  by (rule unat_eq_of_nat) simp_all

lemma unat_ucast_low: "unat x < 2 ^ LENGTH('b) \<Longrightarrow> unat (ucast x :: 'b::len word) = unat x"
  for x :: "'a::len word"
  by (simp add: unsigned_ucast_eq take_bit_nat_eq_self)

lemma unat_low26: "unat (ucast (d AND MASK26) :: u32) = unat d mod 2 ^ 26" for d :: u64
proof -
  have "unat (d AND MASK26) < 2 ^ 26" unfolding unat_and_masks by simp
  then show ?thesis by (subst unat_ucast_low) (simp_all add: unat_and_masks)
qed

lemma fold130:
  assumes "a + 2 ^ 130 * c = b + 5 * c"
  shows "a mod P1305 = b mod P1305"
proof -
  have "b = a + c * P1305" using assms by simp
  then show ?thesis by (simp only: mod_mult_self1)
qed

lemma mulmod_carry_ok:
  fixes d0 d1 d2 d3 d4 :: u64
  assumes b: "unat d0 \<le> 2 ^ 58" "unat d1 \<le> 2 ^ 58" "unat d2 \<le> 2 ^ 58" "unat d3 \<le> 2 ^ 58"
    "unat d4 \<le> 2 ^ 26 * 700000000"
  shows "reduced (mulmod_carry (d0, d1, d2, d3, d4)) \<and>
    lval (mulmod_carry (d0, d1, d2, d3, d4)) mod P1305 =
    (unat d0 + 2 ^ 26 * unat d1 + 2 ^ 52 * unat d2 + 2 ^ 78 * unat d3 + 2 ^ 104 * unat d4) mod P1305"
proof -
  have q: "x \<le> 2 ^ 26 * y \<Longrightarrow> x div 2 ^ 26 \<le> y" for x y :: nat
    using div_le_mono [of x "2 ^ 26 * y" "2 ^ 26"] by simp
  define e1 where "e1 = d1 + drop_bit 26 d0"
  define e2 where "e2 = d2 + drop_bit 26 e1"
  define e3 where "e3 = d3 + drop_bit 26 e2"
  define e4 where "e4 = d4 + drop_bit 26 e3"
  define c where "c = drop_bit 26 e4"
  define g0 :: u32 where "g0 = ucast (d0 AND MASK26) + ucast (c * 5)"
  have E1: "unat e1 = unat d1 + unat d0 div 2 ^ 26" "unat e1 \<le> 2 ^ 59"
    using b q [of "unat d0" "2 ^ 32"] unfolding e1_def
    by (subst unat_plus; simp add: unat_drop_bit)+
  have E2: "unat e2 = unat d2 + unat e1 div 2 ^ 26" "unat e2 \<le> 2 ^ 59"
    using b q [of "unat e1" "2 ^ 33"] E1(2) unfolding e2_def
    by (subst unat_plus; simp add: unat_drop_bit)+
  have E3: "unat e3 = unat d3 + unat e2 div 2 ^ 26" "unat e3 \<le> 2 ^ 59"
    using b q [of "unat e2" "2 ^ 33"] E2(2) unfolding e3_def
    by (subst unat_plus; simp add: unat_drop_bit)+
  have E4: "unat e4 = unat d4 + unat e3 div 2 ^ 26" "unat e4 \<le> 2 ^ 26 * 700000128"
    using b q [of "unat e3" "2 ^ 33"] E3(2) unfolding e4_def
    by (subst unat_plus; simp add: unat_drop_bit)+
  have C: "unat c = unat e4 div 2 ^ 26" "unat c \<le> 700000128"
    using q [OF E4(2)] by (simp_all add: c_def unat_drop_bit)
  have "unat (c * 5) = unat c * 5" using C(2) by (intro unat_eq_of_nat) simp_all
  then have C5: "unat (ucast (c * 5) :: u32) = unat c * 5"
    using C(2) by (subst unat_ucast_low) simp_all
  have m: "unat d0 mod 2 ^ 26 < 2 ^ 26" "unat e1 mod 2 ^ 26 < 2 ^ 26" by simp_all
  have G0: "unat g0 = unat d0 mod 2 ^ 26 + unat c * 5"
    using C(2) m(1) unfolding g0_def by (subst unat_plus) (simp_all add: unat_low26 C5)
  have g: "unat (ucast (ucast (drop_bit 26 g0) :: u64) :: u32) = unat g0 div 2 ^ 26"
    using unat_bound [of g0] by (simp add: unat_ucast_low unat_ucast_up unat_drop_bit less_mult_imp_div_less)
  have g64: "unat g0 div 2 ^ 26 < 64"
    using unat_bound [of g0] by (simp add: less_mult_imp_div_less)
  have H1: "unat ((ucast (e1 AND MASK26) :: u32) + ucast (ucast (drop_bit 26 g0) :: u64)) =
      unat e1 mod 2 ^ 26 + unat g0 div 2 ^ 26"
    using g64 m(2) by (subst unat_plus) (simp_all add: unat_low26 g)
  have res: "mulmod_carry (d0, d1, d2, d3, d4) =
      (g0 AND MASK26, ucast (e1 AND MASK26) + ucast (ucast (drop_bit 26 g0) :: u64),
       ucast (e2 AND MASK26), ucast (e3 AND MASK26), ucast (e4 AND MASK26))"
    unfolding mulmod_carry_def prod.case Let_def e1_def e2_def e3_def e4_def c_def g0_def by (rule refl)
  have "reduced (mulmod_carry (d0, d1, d2, d3, d4))"
    unfolding res reduced.simps H1 unat_low26 unat_and_masks using g64 m(2) by simp
  moreover have "lval (mulmod_carry (d0, d1, d2, d3, d4)) + 2 ^ 130 * unat c =
      (unat d0 + 2 ^ 26 * unat d1 + 2 ^ 52 * unat d2 + 2 ^ 78 * unat d3 + 2 ^ 104 * unat d4) + 5 * unat c"
    using carry_arith [where u = "unat d0" and v = "unat d1" and w = "unat d2" and x = "unat d3"
        and y = "unat d4" and M = "2 ^ 26"]
    unfolding res lval.simps H1 unat_low26 unat_and_masks G0 C(1) E4(1) E3(1) E2(1) E1(1)
    by simp
  ultimately show ?thesis using fold130 by blast
qed

lemma product_arith:
  fixes h0 h1 h2 h3 h4 r0 r1 r2 r3 r4 :: nat
  shows "(h0 + 2 ^ 26 * h1 + 2 ^ 52 * h2 + 2 ^ 78 * h3 + 2 ^ 104 * h4) *
      (r0 + 2 ^ 26 * r1 + 2 ^ 52 * r2 + 2 ^ 78 * r3 + 2 ^ 104 * r4) +
    5 * ((h1 * r4 + h2 * r3 + h3 * r2 + h4 * r1) + 2 ^ 26 * (h2 * r4 + h3 * r3 + h4 * r2) +
      2 ^ 52 * (h3 * r4 + h4 * r3) + 2 ^ 78 * (h4 * r4)) =
    ((h0 * r0 + h1 * (5 * r4) + h2 * (5 * r3) + h3 * (5 * r2) + h4 * (5 * r1)) +
     2 ^ 26 * (h0 * r1 + h1 * r0 + h2 * (5 * r4) + h3 * (5 * r3) + h4 * (5 * r2)) +
     2 ^ 52 * (h0 * r2 + h1 * r1 + h2 * r0 + h3 * (5 * r4) + h4 * (5 * r3)) +
     2 ^ 78 * (h0 * r3 + h1 * r2 + h2 * r1 + h3 * r0 + h4 * (5 * r4)) +
     2 ^ 104 * (h0 * r4 + h1 * r3 + h2 * r2 + h3 * r1 + h4 * r0)) +
    2 ^ 130 * ((h1 * r4 + h2 * r3 + h3 * r2 + h4 * r1) + 2 ^ 26 * (h2 * r4 + h3 * r3 + h4 * r2) +
      2 ^ 52 * (h3 * r4 + h4 * r3) + 2 ^ 78 * (h4 * r4))"
  by (simp add: algebra_simps)

lemma unat_times5: "unat x \<le> 2 ^ 26 - 1 \<Longrightarrow> unat (x * 5) = 5 * unat x" for x :: u32
  by (rule unat_eq_of_nat) simp_all

text \<open>One multiplication: from an accumulator to which a block was added to a reduced one.\<close>

lemma poly1305_mulmod_ok:
  assumes "limbs_le (2 ^ 27 + 62) h" and "limbs_le (2 ^ 26 - 1) r"
  shows "reduced (poly1305_mulmod h r (times5 r)) \<and>
    lval (poly1305_mulmod h r (times5 r)) mod P1305 = (lval h * lval r) mod P1305"
proof -
  obtain h0 h1 h2 h3 h4 where h: "h = (h0, h1, h2, h3, h4)" by (metis prod_cases5)
  obtain r0 r1 r2 r3 r4 where r: "r = (r0, r1, r2, r3, r4)" by (metis prod_cases5)
  obtain d0 d1 d2 d3 d4 where d: "mulmod_products h r (times5 r) = (d0, d1, d2, d3, d4)"
    by (metis prod_cases5)
  have H: "unat h0 \<le> 2 ^ 27 + 62" "unat h1 \<le> 2 ^ 27 + 62" "unat h2 \<le> 2 ^ 27 + 62"
      "unat h3 \<le> 2 ^ 27 + 62" "unat h4 \<le> 2 ^ 27 + 62"
    using assms(1) unfolding h by simp_all
  have R: "unat r0 \<le> 2 ^ 26 - 1" "unat r1 \<le> 2 ^ 26 - 1" "unat r2 \<le> 2 ^ 26 - 1"
      "unat r3 \<le> 2 ^ 26 - 1" "unat r4 \<le> 2 ^ 26 - 1"
    using assms(2) unfolding r by simp_all
  have R5: "unat r0 \<le> 5 * (2 ^ 26 - 1)" "unat r1 \<le> 5 * (2 ^ 26 - 1)" "unat r2 \<le> 5 * (2 ^ 26 - 1)"
      "unat r3 \<le> 5 * (2 ^ 26 - 1)"
    using R by linarith+
  have S5: "unat (r1 * 5) \<le> 5 * (2 ^ 26 - 1)" "unat (r2 * 5) \<le> 5 * (2 ^ 26 - 1)"
      "unat (r3 * 5) \<le> 5 * (2 ^ 26 - 1)" "unat (r4 * 5) \<le> 5 * (2 ^ 26 - 1)"
    using R by (simp_all add: unat_times5)
  have small: "5 * ((2 ^ 27 + 62) * (5 * (2 ^ 26 - 1))) < (2 ^ 64 :: nat)" by simp
  note dd = d [symmetric, unfolded h r times5.simps mulmod_products_def prod.case prod.inject]
  note dot = unat_dot5 [OF H _ _ _ _ _ small]
  have D: "unat d0 = unat h0 * unat r0 + unat h1 * (5 * unat r4) + unat h2 * (5 * unat r3) +
        unat h3 * (5 * unat r2) + unat h4 * (5 * unat r1)"
      "unat d1 = unat h0 * unat r1 + unat h1 * unat r0 + unat h2 * (5 * unat r4) +
        unat h3 * (5 * unat r3) + unat h4 * (5 * unat r2)"
      "unat d2 = unat h0 * unat r2 + unat h1 * unat r1 + unat h2 * unat r0 +
        unat h3 * (5 * unat r4) + unat h4 * (5 * unat r3)"
      "unat d3 = unat h0 * unat r3 + unat h1 * unat r2 + unat h2 * unat r1 + unat h3 * unat r0 +
        unat h4 * (5 * unat r4)"
      "unat d4 = unat h0 * unat r4 + unat h1 * unat r3 + unat h2 * unat r2 + unat h3 * unat r1 +
        unat h4 * unat r0"
    using dd dot [OF R5(1) S5(4,3,2,1)] dot [OF R5(2,1) S5(4,3,2)] dot [OF R5(3,2,1) S5(4,3)]
      dot [OF R5(4,3,2,1) S5(4)] unat_dot5 [OF H R(5,4,3,2,1)] unfolding unat_times5 [OF R(2)]
      unat_times5 [OF R(3)] unat_times5 [OF R(4)] unat_times5 [OF R(5)] by simp_all
  have "5 * ((2 ^ 27 + 62) * (5 * (2 ^ 26 - 1))) \<le> (2 ^ 58 :: nat)" by simp
  then have "unat d0 \<le> 2 ^ 58" "unat d1 \<le> 2 ^ 58" "unat d2 \<le> 2 ^ 58" "unat d3 \<le> 2 ^ 58"
    using dot5_bound [OF H R5(1) S5(4,3,2,1)] dot5_bound [OF H R5(2,1) S5(4,3,2)]
      dot5_bound [OF H R5(3,2,1) S5(4,3)] dot5_bound [OF H R5(4,3,2,1) S5(4)]
    unfolding D unat_times5 [OF R(2)] unat_times5 [OF R(3)] unat_times5 [OF R(4)] unat_times5 [OF R(5)]
    by linarith+
  moreover have "unat d4 \<le> 2 ^ 26 * 700000000"
    using dot5_bound [OF H R(5,4,3,2,1)] unfolding D by simp
  ultimately have "reduced (mulmod_carry (d0, d1, d2, d3, d4)) \<and>
    lval (mulmod_carry (d0, d1, d2, d3, d4)) mod P1305 =
    (unat d0 + 2 ^ 26 * unat d1 + 2 ^ 52 * unat d2 + 2 ^ 78 * unat d3 + 2 ^ 104 * unat d4) mod P1305"
    by (rule mulmod_carry_ok)
  moreover have "(unat d0 + 2 ^ 26 * unat d1 + 2 ^ 52 * unat d2 + 2 ^ 78 * unat d3 + 2 ^ 104 * unat d4) mod P1305 =
      (lval h * lval r) mod P1305"
    unfolding D h r lval.simps by (rule fold130 [OF product_arith [symmetric]])
  ultimately show ?thesis unfolding poly1305_mulmod_def d by (simp only: simp_thms)
qed

lemma add_limbs_ok:
  assumes "reduced h" and "limbs_le (2 ^ 26 - 1) t"
  shows "limbs_le (2 ^ 27 + 62) (add_limbs h t) \<and> lval (add_limbs h t) = lval h + lval t"
proof -
  obtain h0 h1 h2 h3 h4 where h: "h = (h0, h1, h2, h3, h4)" by (metis prod_cases5)
  obtain t0 t1 t2 t3 t4 where t: "t = (t0, t1, t2, t3, t4)" by (metis prod_cases5)
  have "unat (h0 + t0) = unat h0 + unat t0" "unat (h1 + t1) = unat h1 + unat t1"
      "unat (h2 + t2) = unat h2 + unat t2" "unat (h3 + t3) = unat h3 + unat t3"
      "unat (h4 + t4) = unat h4 + unat t4"
    using assms unfolding h t by (auto intro!: unat_plus)
  then show ?thesis using assms unfolding h t add_limbs_def by simp
qed

section \<open>The polynomial\<close>

text \<open>The specification: every block of up to 16 bytes, with a one appended, is a little-endian number.\<close>

function poly_eval :: "nat \<Rightarrow> nat \<Rightarrow> byte list \<Rightarrow> nat" where
  "poly_eval r acc m =
     (if m = [] then acc
      else poly_eval r (((acc + le_nat (take 16 m @ [1])) * r) mod P1305) (drop 16 m))"
  by pat_completeness auto
termination
  by (relation "measure (\<lambda>(r, acc, m). length m)") auto

declare poly_eval.simps [simp del]

lemma poly_eval_Nil [simp]: "poly_eval r acc [] = acc"
  by (simp add: poly_eval.simps)

lemma poly_eval_block:
  "m \<noteq> [] \<Longrightarrow> length m \<le> 16 \<Longrightarrow>
   poly_eval r acc (m @ rest) = poly_eval r (((acc + le_nat (m @ [1])) * r) mod P1305) rest"
  if "rest = [] \<or> length m = 16"
  using that by (subst poly_eval.simps) auto

lemma poly_eval_append:
  "length a mod 16 = 0 \<Longrightarrow> poly_eval r acc (a @ b) = poly_eval r (poly_eval r acc a) b"
proof (induction r acc a rule: poly_eval.induct)
  case (1 r acc a)
  show ?case
  proof (cases "a = []")
    case False
    then have "16 \<le> length a" using 1(2) by (cases "length a < 16") auto
    then have "length (drop 16 a) mod 16 = 0" using 1(2) le_mod_geq [of 16 "length a"] by simp
    then show ?thesis
      using 1(1) [OF False] False \<open>16 \<le> length a\<close> poly_eval.simps [of r acc a]
        poly_eval.simps [of r acc "a @ b"] by simp
  qed simp
qed

section \<open>The invariant of the context\<close>

definition poly_ctx_inv :: "byte list \<Rightarrow> nat \<Rightarrow> nd_poly1305_ctx \<Rightarrow> bool" where
  "poly_ctx_inv key acc ctx \<longleftrightarrow>
     pc_r ctx = pc_r (nd_poly1305_init key) \<and> pc_s ctx = times5 (pc_r ctx) \<and>
     pc_pad ctx = pc_pad (nd_poly1305_init key) \<and> limbs_le (2 ^ 26 - 1) (pc_r ctx) \<and>
     reduced (pc_h ctx) \<and> lval (pc_h ctx) mod P1305 = acc"

abbreviation (input) key_r :: "byte list \<Rightarrow> nat" where
  "key_r key \<equiv> lval (pc_r (nd_poly1305_init key))"

lemma absorb_limbs:
  assumes "poly_ctx_inv key acc ctx" and "length block17 = 17" and "unat (block17 ! 16) \<le> 1"
    and "h' = poly1305_mulmod (add_limbs (pc_h ctx) (bytes_to_limbs block17)) (pc_r ctx) (pc_s ctx)"
  shows "poly_ctx_inv key (((acc + le_nat block17) * key_r key) mod P1305) (ctx\<lparr>pc_h := h'\<rparr>)"
proof -
  have add: "limbs_le (2 ^ 27 + 62) (add_limbs (pc_h ctx) (bytes_to_limbs block17))"
      "lval (add_limbs (pc_h ctx) (bytes_to_limbs block17)) = lval (pc_h ctx) + le_nat block17"
    using add_limbs_ok [OF _ bytes_to_limbs_bound [OF assms(3)], of "pc_h ctx"] assms(1,2)
    by (simp_all add: poly_ctx_inv_def bytes_to_limbs_val)
  have "limbs_le (2 ^ 26 - 1) (pc_r ctx)" using assms(1) unfolding poly_ctx_inv_def by blast
  then have "reduced h'" "lval h' mod P1305 = ((lval (pc_h ctx) + le_nat block17) * lval (pc_r ctx)) mod P1305"
    using poly1305_mulmod_ok [OF add(1), of "pc_r ctx"] assms(1,4) unfolding add(2)
    by (simp_all add: poly_ctx_inv_def)
  then show ?thesis
    using assms(1) unfolding poly_ctx_inv_def
    by (auto simp: mod_mult_left_eq [of "_ + _", symmetric] mod_add_left_eq simp del: limbs_le.simps)
qed

lemma length_clamp_r [simp, len_simps]: "length (clamp_r r) = length r"
  by (simp add: clamp_r_def Let_def)

lemma poly1305_init_fields:
  "pc_h (nd_poly1305_init key) = (0, 0, 0, 0, 0)"
  "pc_r (nd_poly1305_init key) = bytes_to_limbs (clamp_r (take 16 key) @ [0])"
  "pc_s (nd_poly1305_init key) = times5 (pc_r (nd_poly1305_init key))"
  "pc_pad (nd_poly1305_init key) = take 16 (drop 16 key)"
  "pc_buf (nd_poly1305_init key) = []"
  by (simp_all add: nd_poly1305_init_def Let_def split: prod.split)

lemma poly1305_init_inv: "length key = 32 \<Longrightarrow> poly_ctx_inv key 0 (nd_poly1305_init key)"
  unfolding poly_ctx_inv_def poly1305_init_fields
  using bytes_to_limbs_bound [of "clamp_r (take 16 key) @ [0]"] by (simp add: nth_append)

lemma process_full_block_inv:
  "poly_ctx_inv key acc ctx \<Longrightarrow> 16 \<le> length block \<Longrightarrow>
   poly_ctx_inv key (((acc + le_nat (take 16 block @ [1])) * key_r key) mod P1305) (process_full_block ctx block)"
  unfolding process_full_block_def Let_def by (rule absorb_limbs) (simp_all add: nth_append)

lemma process_full_block_buf [simp]: "pc_buf (process_full_block ctx block) = pc_buf ctx"
  by (simp add: process_full_block_def Let_def)

lemma poly_ctx_inv_buf [simp]: "poly_ctx_inv key acc (ctx\<lparr>pc_buf := b\<rparr>) = poly_ctx_inv key acc ctx"
  by (simp add: poly_ctx_inv_def)

lemma take_blocks_add:
  "16 \<le> length data \<Longrightarrow> take (length data div 16 * 16) data =
     take 16 data @ take (length (drop 16 data) div 16 * 16) (drop 16 data)"
  "16 \<le> length data \<Longrightarrow> drop (length data div 16 * 16) data =
     drop (length (drop 16 data) div 16 * 16) (drop 16 data)"
proof -
  assume "16 \<le> length data"
  then have "length data div 16 * 16 = 16 + (length data - 16) div 16 * 16"
    using le_div_geq [of 16 "length data"] by simp
  then show "take (length data div 16 * 16) data =
       take 16 data @ take (length (drop 16 data) div 16 * 16) (drop 16 data)"
    and "drop (length data div 16 * 16) data = drop (length (drop 16 data) div 16 * 16) (drop 16 data)"
    by (simp_all add: take_add add.commute)
qed

text \<open>The loop absorbs the full blocks and leaves the rest.\<close>

lemma poly1305_blocks_ok:
  "poly_ctx_inv key acc ctx \<Longrightarrow>
   \<exists>ctx'. poly1305_blocks ctx data = (ctx', drop (length data div 16 * 16) data) \<and> pc_buf ctx' = pc_buf ctx \<and>
     poly_ctx_inv key (poly_eval (key_r key) acc (take (length data div 16 * 16) data)) ctx'"
proof (induction ctx data arbitrary: acc rule: poly1305_blocks.induct)
  case (1 ctx data)
  show ?case
  proof (cases "16 \<le> length data")
    case True
    let ?acc = "((acc + le_nat (take 16 data @ [1])) * key_r key) mod P1305"
    have "poly_eval (key_r key) acc (take (length data div 16 * 16) data) =
        poly_eval (key_r key) ?acc (take (length (drop 16 data) div 16 * 16) (drop 16 data))"
      unfolding take_blocks_add(1) [OF True] using True by (intro poly_eval_block) auto
    moreover have "poly1305_blocks ctx data = poly1305_blocks (process_full_block ctx data) (drop 16 data)"
      using True by (subst poly1305_blocks.simps) simp
    ultimately show ?thesis
      using 1(1) [OF True process_full_block_inv [OF 1(2) True]] take_blocks_add(2) [OF True] by simp
  next
    case False
    then show ?thesis using 1(2) by (subst poly1305_blocks.simps) simp
  qed
qed

text \<open>A context represents the bytes fed so far.\<close>

definition poly_repr :: "byte list \<Rightarrow> nd_poly1305_ctx \<Rightarrow> byte list \<Rightarrow> bool" where
  "poly_repr key ctx m \<longleftrightarrow>
     poly_ctx_inv key (poly_eval (key_r key) 0 (take (length m div 16 * 16) m)) ctx \<and>
     pc_buf ctx = drop (length m div 16 * 16) m"

lemma poly_reprI:
  assumes "poly_ctx_inv key (poly_eval (key_r key) 0 a) ctx" and "length a mod 16 = 0"
    and "pc_buf ctx = b" and "length b < 16"
  shows "poly_repr key ctx (a @ b)"
proof -
  have "(length a + length b) div 16 * 16 = length a"
    using assms(2,4) by (subst div_add1_eq) auto
  then show ?thesis using assms by (simp add: poly_repr_def)
qed

lemma poly_repr_split:
  assumes "poly_repr key ctx m"
  obtains a b where "m = a @ b" "length a mod 16 = 0" "length b < 16" "pc_buf ctx = b"
    "poly_ctx_inv key (poly_eval (key_r key) 0 a) ctx"
proof (rule that)
  let ?n = "length m div 16 * 16"
  have n: "?n \<le> length m" "length m - ?n = length m mod 16" by (simp_all add: minus_div_mult_eq_mod)
  show "m = take ?n m @ drop ?n m" by simp
  show "length (take ?n m) mod 16 = 0" "length (drop ?n m) < 16" using n by (simp_all add: min_absorb2)
qed (use assms in \<open>simp_all add: poly_repr_def\<close>)

text \<open>Absorbing data into a context with an empty buffer.\<close>

lemma blocks_repr:
  assumes "poly_ctx_inv key (poly_eval (key_r key) 0 a) ctx" and "length a mod 16 = 0" and "pc_buf ctx = []"
  shows "poly_repr key (case poly1305_blocks ctx data of (ctx', rest) \<Rightarrow>
      if length rest > 0 then ctx'\<lparr>pc_buf := rest\<rparr> else ctx') (a @ data)"
proof -
  obtain ctx' rest where res: "poly1305_blocks ctx data = (ctx', rest)" by fastforce
  let ?n = "length data div 16 * 16"
  have rest: "rest = drop ?n data" "pc_buf ctx' = []"
    and inv: "poly_ctx_inv key (poly_eval (key_r key) 0 (a @ take ?n data)) ctx'"
    using poly1305_blocks_ok [OF assms(1), of data] assms res by (simp_all add: poly_eval_append)
  have n: "?n \<le> length data" "length data - ?n < 16" by (simp_all add: minus_div_mult_eq_mod)
  then have "poly_repr key (if length rest > 0 then ctx'\<lparr>pc_buf := rest\<rparr> else ctx') ((a @ take ?n data) @ rest)"
    using inv rest assms(2) by (intro poly_reprI) (auto simp: mod_add_left_eq [symmetric] min_absorb2)
  then show ?thesis unfolding res rest(1) prod.case by simp
qed

lemma poly1305_update_repr:
  assumes "poly_repr key ctx m"
  shows "poly_repr key (nd_poly1305_update ctx data) (m @ data)"
proof -
  obtain a b where m: "m = a @ b" and a: "length a mod 16 = 0" and b: "length b < 16" "pc_buf ctx = b"
    and inv: "poly_ctx_inv key (poly_eval (key_r key) 0 a) ctx"
    using poly_repr_split [OF assms] .
  consider (none) "data = []" | (empty) "data \<noteq> []" "b = []"
    | (part) "data \<noteq> []" "b \<noteq> []" "length b + length data < 16"
    | (full) "data \<noteq> []" "b \<noteq> []" "16 \<le> length b + length data" by linarith
  then show ?thesis
  proof cases
    case none
    then show ?thesis using assms by (simp add: nd_poly1305_update_def)
  next
    case empty
    then show ?thesis
      using blocks_repr [OF inv a, of data] b unfolding m
      by (simp add: nd_poly1305_update_def)
  next
    case part
    then have "nd_poly1305_update ctx data = ctx\<lparr>pc_buf := b @ data\<rparr>"
      using b by (simp add: nd_poly1305_update_def Let_def poly1305_blocks.simps)
    then show ?thesis unfolding m using inv a part by (simp add: poly_reprI)
  next
    case full
    let ?t = "take (16 - length b) data"
    let ?c = "(process_full_block (ctx\<lparr>pc_buf := b @ ?t\<rparr>) (b @ ?t))\<lparr>pc_buf := []\<rparr>"
    have l: "length (b @ ?t) = 16" using full b by simp
    have "poly_eval (key_r key) 0 (a @ (b @ ?t)) =
        poly_eval (key_r key) (((poly_eval (key_r key) 0 a + le_nat (take 16 (b @ ?t) @ [1])) * key_r key)
          mod P1305) []"
      using poly_eval_block [of "[]" "b @ ?t" "key_r key" "poly_eval (key_r key) 0 a"] l full(2)
      by (simp add: poly_eval_append [OF a])
    then have "poly_ctx_inv key (poly_eval (key_r key) 0 (a @ (b @ ?t))) ?c"
      using process_full_block_inv [of key _ "ctx\<lparr>pc_buf := b @ ?t\<rparr>" "b @ ?t"] inv l by simp
    moreover have "length (a @ (b @ ?t)) mod 16 = 0" using a l by simp
    ultimately have "poly_repr key (case poly1305_blocks ?c (drop (16 - length b) data) of (ctx', rest) \<Rightarrow>
        if length rest > 0 then ctx'\<lparr>pc_buf := rest\<rparr> else ctx') ((a @ (b @ ?t)) @ drop (16 - length b) data)"
      by (intro blocks_repr) simp_all
    moreover have "nd_poly1305_update ctx data =
        (case poly1305_blocks ?c (drop (16 - length b) data) of (ctx', rest) \<Rightarrow>
          if length rest > 0 then ctx'\<lparr>pc_buf := rest\<rparr> else ctx')"
      using full b l by (simp add: nd_poly1305_update_def Let_def)
    ultimately show ?thesis unfolding m by simp
  qed
qed

lemma poly1305_fold_repr:
  "length key = 32 \<Longrightarrow> poly_repr key (foldl nd_poly1305_update (nd_poly1305_init key) ps) (concat ps)"
proof (induction ps rule: rev_induct)
  case Nil
  then show ?case by (simp add: poly_repr_def poly1305_init_inv poly1305_init_fields)
next
  case (snoc p ps)
  then show ?case using poly1305_update_repr by simp
qed

lemma poly1305_last_block_inv:
  assumes "poly_repr key ctx m"
  shows "poly_ctx_inv key (poly_eval (key_r key) 0 m) (poly1305_last_block ctx)"
proof -
  obtain a b where m: "m = a @ b" and a: "length a mod 16 = 0" and b: "length b < 16" "pc_buf ctx = b"
    and inv: "poly_ctx_inv key (poly_eval (key_r key) 0 a) ctx"
    using poly_repr_split [OF assms] .
  show ?thesis
  proof (cases "b = []")
    case True
    then show ?thesis using inv b m by (simp add: poly1305_last_block_def)
  next
    case False
    let ?blk = "(memcpy_at (replicate 17 0) 0 b)[length b := 1]"
    have blk: "?blk = (b @ [1]) @ replicate (16 - length b) 0"
      using b(1) by (intro nth_equalityI) (auto simp: memcpy_at_def nth_append nth_list_update)
    have "le_nat ?blk = le_nat (b @ [1])" unfolding blk by (subst le_nat_append) simp
    moreover have "unat (?blk ! 16) \<le> 1" using b(1) by (simp add: blk nth_append)
    moreover have "length ?blk = 17" using b(1) by (simp add: blk)
    ultimately have "poly_ctx_inv key (((poly_eval (key_r key) 0 a + le_nat (b @ [1])) * key_r key) mod P1305)
        (poly1305_last_block ctx)"
      using absorb_limbs [OF inv, of ?blk] b(2) False by (simp add: poly1305_last_block_def Let_def)
    then show ?thesis
      using poly_eval_block [of "[]" b "key_r key" "poly_eval (key_r key) 0 a"] b(1) False m
      by (simp add: poly_eval_append [OF a])
  qed
qed

section \<open>The tag\<close>

lemma less_eq_diff_one: "0 < b \<Longrightarrow> a \<le> b - 1 \<longleftrightarrow> a < b" for a b :: nat
  by linarith

lemma final_carry_value:
  fixes h0 h1 h2 h3 h4 :: nat
  assumes "2 ^ 26 * c1 + m1 = h1" "2 ^ 26 * c2 + m2 = h2 + c1" "2 ^ 26 * c3 + m3 = h3 + c2"
    "2 ^ 26 * c4 + m4 = h4 + c3" "2 ^ 26 * c0 + m0 = h0 + c4 * 5" "m1' = m1 + c0" "m2' = m2"
  shows "m0 + 2 ^ 26 * m1' + 2 ^ 52 * m2' + 2 ^ 78 * m3 + 2 ^ 104 * m4 + 2 ^ 130 * c4 =
    h0 + 2 ^ 26 * h1 + 2 ^ 52 * h2 + 2 ^ 78 * h3 + 2 ^ 104 * h4 + 5 * c4"
  using assms by simp

text \<open>The carry pass ends with canonical limbs: only a carry out of limb 1 can start it, and then limb 1
  is too small for a second one.\<close>

lemma final_carry_ok:
  assumes "reduced h"
  shows "limbs_le (2 ^ 26 - 1) (final_carry h) \<and> lval (final_carry h) mod P1305 = lval h mod P1305"
proof -
  obtain h0 h1 h2 h3 h4 where h: "h = (h0, h1, h2, h3, h4)" by (metis prod_cases5)
  have b: "unat h0 < 2 ^ 26" "unat h1 < 2 ^ 26 + 64" "unat h2 < 2 ^ 26" "unat h3 < 2 ^ 26" "unat h4 < 2 ^ 26"
    using assms unfolding h by simp_all
  define c1 where "c1 = drop_bit 26 h1"
  define h2' where "h2' = h2 + c1"
  define c2 where "c2 = drop_bit 26 h2'"
  define h3' where "h3' = h3 + c2"
  define c3 where "c3 = drop_bit 26 h3'"
  define h4' where "h4' = h4 + c3"
  define c4 where "c4 = drop_bit 26 h4'"
  define h0' where "h0' = h0 + c4 * 5"
  define c0 where "c0 = drop_bit 26 h0'"
  define h1' where "h1' = (h1 AND MASK26) + c0"
  define c1' where "c1' = drop_bit 26 h1'"
  define h2'' where "h2'' = (h2' AND MASK26) + c1'"
  have res: "final_carry h = (h0' AND MASK26, h1' AND MASK26, h2'', h3' AND MASK26, h4' AND MASK26)"
    unfolding h final_carry_def prod.case Let_def c1_def h2'_def c2_def h3'_def c3_def h4'_def c4_def
      h0'_def c0_def h1'_def c1'_def h2''_def by (rule refl)
  have step: "unat x < 2 ^ 26 \<Longrightarrow> unat c \<le> 1 \<Longrightarrow> unat (x + c) = unat x + unat c" for x c :: u32
    by (rule unat_plus) simp
  have quot: "n < 2 ^ 27 \<Longrightarrow> n div 2 ^ 26 \<le> 1" for n :: nat
    by (simp add: less_mult_imp_div_less less_Suc_eq_le [symmetric])
  have C1: "unat c1 \<le> 1" using b(2) by (simp add: c1_def unat_drop_bit quot)
  have H2: "unat h2' = unat h2 + unat c1" unfolding h2'_def by (rule step [OF b(3) C1])
  have C2: "unat c2 \<le> 1" using b(3) C1 H2 by (simp add: c2_def unat_drop_bit quot)
  have H3: "unat h3' = unat h3 + unat c2" unfolding h3'_def by (rule step [OF b(4) C2])
  have C3: "unat c3 \<le> 1" using b(4) C2 H3 by (simp add: c3_def unat_drop_bit quot)
  have H4: "unat h4' = unat h4 + unat c3" unfolding h4'_def by (rule step [OF b(5) C3])
  have C4: "unat c4 \<le> 1" using b(5) C3 H4 by (simp add: c4_def unat_drop_bit quot)
  have "unat (c4 * 5) = unat c4 * 5" using C4 by (intro unat_eq_of_nat) simp_all
  then have H0: "unat h0' = unat h0 + unat c4 * 5"
    unfolding h0'_def using b(1) C4 by (subst unat_plus) simp_all
  have C0: "unat c0 \<le> 1" using b(1) C4 H0 by (simp add: c0_def unat_drop_bit quot)
  have m: "unat (x AND MASK26) < 2 ^ 26" for x :: u32 unfolding unat_and_masks by simp
  have H1: "unat h1' = unat h1 mod 2 ^ 26 + unat c0"
    unfolding h1'_def by (simp add: step [OF m C0] unat_and_masks)
  have C1': "unat c1' \<le> 1" using C0 H1 by (simp add: c1'_def unat_drop_bit quot)
  have H2': "unat h2'' = unat h2' mod 2 ^ 26 + unat c1'"
    unfolding h2''_def by (simp add: step [OF m C1'] unat_and_masks)
  have carry: "2 ^ 26 * unat c + unat x mod 2 ^ 26 = unat x" if "c = drop_bit 26 x" for c x :: u32
    by (simp add: that unat_drop_bit)
  have none: "unat c1' = 0"
  proof (cases "unat c1 = 0")
    case True
    then have "unat c2 = 0" using b(3) H2 by (simp add: c2_def unat_drop_bit)
    then have "unat c3 = 0" using b(4) H3 by (simp add: c3_def unat_drop_bit)
    then have "unat c4 = 0" using b(5) H4 by (simp add: c4_def unat_drop_bit)
    then have "unat c0 = 0" using b(1) H0 by (simp add: c0_def unat_drop_bit)
    then show ?thesis using H1 by (simp add: c1'_def unat_drop_bit)
  next
    case False
    then have "unat c1 = 1" using C1 by linarith
    then have "unat h1 mod 2 ^ 26 < 64" using carry [OF c1_def] b(2) by simp
    then show ?thesis using H1 C0 by (simp add: c1'_def unat_drop_bit)
  qed
  note e = carry [OF c1_def] trans [OF carry [OF c2_def] H2] trans [OF carry [OF c3_def] H3]
    trans [OF carry [OF c4_def] H4] trans [OF carry [OF c0_def] H0]
  have "unat h1' mod 2 ^ 26 = unat h1'"
    using carry [OF c1'_def] unfolding none by (simp only: mult_0_right add_0)
  note m1 = trans [OF this H1]
  have "lval (final_carry h) + 2 ^ 130 * unat c4 = lval h + 5 * unat c4"
    unfolding res unfolding h lval.simps unat_and_masks H2' none
    by (rule final_carry_value [OF e m1 add_0_right])
  then have "lval (final_carry h) mod P1305 = lval h mod P1305" by (rule fold130)
  moreover have "n mod 2 ^ 26 \<le> 2 ^ 26 - 1" for n :: nat
    by (subst less_eq_diff_one) simp_all
  then have "limbs_le (2 ^ 26 - 1) (final_carry h)"
    unfolding res limbs_le.simps H2' none unat_and_masks by (simp only: add_0_right simp_thms)
  ultimately show ?thesis by (rule conjI [rotated])
qed

lemma borrow_step:
  fixes v k b :: int
  assumes "k = (if v < 0 then 1 else 0)" and "b = (if k \<noteq> 0 then v + 0x4000000 else v)"
    and "- 0x4000000 \<le> v" "v < 0x4000000"
  shows "0 \<le> b" "b < 0x4000000" "b = v + 0x4000000 * k" "0 \<le> k" "k \<le> 1"
  using assms by auto

lemma unat_of_limb_int: "0 \<le> b \<Longrightarrow> b < 0x4000000 \<Longrightarrow> int (unat (word_of_int b :: u32)) = b"
  by (simp add: uint_word_of_int)

lemma unat_limb_int_le:
  "0 \<le> b \<Longrightarrow> b < 0x4000000 \<Longrightarrow> unat (word_of_int b :: u32) \<le> 0x3ffffff"
  using unat_of_limb_int [of b] by linarith

lemma uint_limb:
  "unat x \<le> 2 ^ 26 - 1 \<Longrightarrow> uint x < 0x4000000" "0 \<le> uint x" for x :: u32
proof -
  assume "unat x \<le> 2 ^ 26 - 1"
  then have "int (unat x) < 0x4000000" by (simp del: of_nat_unat)
  then show "uint x < 0x4000000" by simp
qed simp

lemma final_subtract_ok:
  assumes "limbs_le (2 ^ 26 - 1) h"
  shows "lval (final_subtract h) = lval h mod P1305 \<and> limbs_le (2 ^ 26 - 1) (final_subtract h)"
proof -
  obtain h0 h1 h2 h3 h4 where h: "h = (h0, h1, h2, h3, h4)" by (metis prod_cases5)
  have x: "uint h0 < 0x4000000" "uint h1 < 0x4000000" "uint h2 < 0x4000000" "uint h3 < 0x4000000"
      "uint h4 < 0x4000000"
    using assms unfolding h limbs_le.simps by (blast intro: uint_limb)+
  note p = uint_limb(2) [of h0] uint_limb(2) [of h1] uint_limb(2) [of h2] uint_limb(2) [of h3]
    uint_limb(2) [of h4]
  define v0 where "v0 = uint h0 - 0x3fffffb"
  define k0 :: int where "k0 = (if v0 < 0 then 1 else 0)"
  define b0 where "b0 = (if k0 \<noteq> 0 then v0 + 0x4000000 else v0)"
  define v1 where "v1 = uint h1 - 0x3ffffff - k0"
  define k1 :: int where "k1 = (if v1 < 0 then 1 else 0)"
  define b1 where "b1 = (if k1 \<noteq> 0 then v1 + 0x4000000 else v1)"
  define v2 where "v2 = uint h2 - 0x3ffffff - k1"
  define k2 :: int where "k2 = (if v2 < 0 then 1 else 0)"
  define b2 where "b2 = (if k2 \<noteq> 0 then v2 + 0x4000000 else v2)"
  define v3 where "v3 = uint h3 - 0x3ffffff - k2"
  define k3 :: int where "k3 = (if v3 < 0 then 1 else 0)"
  define b3 where "b3 = (if k3 \<noteq> 0 then v3 + 0x4000000 else v3)"
  define b4 where "b4 = uint h4 - 0x3ffffff - k3"
  define k4 :: int where "k4 = (if b4 < 0 then 1 else 0)"
  have res: "final_subtract h =
      (if \<not> k4 \<noteq> 0 then (word_of_int b0, word_of_int b1, word_of_int b2, word_of_int b3, word_of_int b4)
       else h)"
    unfolding h final_subtract_def prod.case Let_def v0_def k0_def b0_def v1_def k1_def b1_def v2_def k2_def
      b2_def v3_def k3_def b3_def b4_def k4_def by (rule refl)
  have "- 0x4000000 \<le> v0" "v0 < 0x4000000" using x p unfolding v0_def by linarith+
  note B0 = borrow_step [OF k0_def b0_def this]
  have "- 0x4000000 \<le> v1" "v1 < 0x4000000" using x p B0 unfolding v1_def by linarith+
  note B1 = borrow_step [OF k1_def b1_def this]
  have "- 0x4000000 \<le> v2" "v2 < 0x4000000" using x p B1 unfolding v2_def by linarith+
  note B2 = borrow_step [OF k2_def b2_def this]
  have "- 0x4000000 \<le> v3" "v3 < 0x4000000" using x p B2 unfolding v3_def by linarith+
  note B3 = borrow_step [OF k3_def b3_def this]
  have B4: "b4 < 0x4000000" using x B3 unfolding b4_def by linarith
  have V: "int (lval h) =
      uint h0 + 2 ^ 26 * uint h1 + 2 ^ 52 * uint h2 + 2 ^ 78 * uint h3 + 2 ^ 104 * uint h4"
    by (simp add: h)
  have Vb: "int (lval h) < 2 ^ 130" using x unfolding V by simp
  have sum: "b0 + 2 ^ 26 * b1 + 2 ^ 52 * b2 + 2 ^ 78 * b3 + 2 ^ 104 * b4 = int (lval h) - (2 ^ 130 - 5)"
    using B0(3) B1(3) B2(3) B3(3) unfolding V v0_def v1_def v2_def v3_def b4_def by simp
  show ?thesis
  proof (cases "b4 < 0")
    case True
    then have "int (lval h) < 2 ^ 130 - 5" using sum B0(2) B1(2) B2(2) B3(2) by simp
    then have "lval h < P1305" by simp
    then show ?thesis using True assms by (simp add: res k4_def)
  next
    case False
    then have k4: "k4 = 0" by (simp add: k4_def)
    note u = unat_of_limb_int [OF B0(1,2)] unat_of_limb_int [OF B1(1,2)] unat_of_limb_int [OF B2(1,2)]
      unat_of_limb_int [OF B3(1,2)] unat_of_limb_int [OF leI [OF False] B4]
    have "int (lval (final_subtract h)) = int (lval h) - (2 ^ 130 - 5)"
      using sum u by (simp add: res k4)
    then have "lval h = lval (final_subtract h) + P1305 \<and> lval (final_subtract h) < P1305"
      using Vb by simp
    then have "lval (final_subtract h) = lval h mod P1305" by (metis mod_add_self2 mod_less)
    moreover have "limbs_le (2 ^ 26 - 1) (final_subtract h)"
      using B0(1,2) B1(1,2) B2(1,2) B3(1,2) B4 False by (simp add: res k4 unat_limb_int_le)
    ultimately show ?thesis by blast
  qed
qed

fun words_val :: "u32 \<times> u32 \<times> u32 \<times> u32 \<Rightarrow> nat" where
  "words_val (w0, w1, w2, w3) = unat w0 + 2 ^ 32 * unat w1 + 2 ^ 64 * unat w2 + 2 ^ 96 * unat w3"

lemma pack_value:
  fixes r0 r1 r2 r3 r4 :: nat
  assumes "r1 = m1 + 2 ^ 6 * q1" "r2 = m2 + 2 ^ 12 * q2" "r3 = m3 + 2 ^ 18 * q3" "r4 = m4 + 2 ^ 24 * q4"
  shows "r0 + 2 ^ 26 * r1 + 2 ^ 52 * r2 + 2 ^ 78 * r3 + 2 ^ 104 * r4 =
    (r0 + 2 ^ 26 * m1) + 2 ^ 32 * (q1 + 2 ^ 20 * m2) + 2 ^ 64 * (q2 + 2 ^ 14 * m3) +
    2 ^ 96 * (q3 + 2 ^ 8 * m4) + 2 ^ 128 * q4"
  using assms by simp

lemma pack_word:
  fixes x y :: u32
  assumes "unat x < 2 ^ n" and "n + l = 32"
  shows "unat (x OR push_bit n y) = unat x + 2 ^ n * (unat y mod 2 ^ l)"
proof -
  have eq: "(2 :: nat) ^ LENGTH(32) = 2 ^ n * 2 ^ l"
    unfolding power_add [symmetric] assms(2) by simp
  show ?thesis unfolding unat_or_shift_mod [OF assms(1)] eq using assms(1) by (simp add: mod_mult2_eq)
qed

lemma final_pack_ok:
  assumes "limbs_le (2 ^ 26 - 1) r"
  shows "words_val (final_pack r) = lval r mod 2 ^ 128"
proof -
  obtain r0 r1 r2 r3 r4 where r: "r = (r0, r1, r2, r3, r4)" by (metis prod_cases5)
  have b: "unat r0 < 2 ^ 26" "unat r1 < 2 ^ 26" "unat r2 < 2 ^ 26" "unat r3 < 2 ^ 26" "unat r4 < 2 ^ 26"
    using assms unfolding r by simp_all
  have q: "unat r1 div 2 ^ 6 < 2 ^ 20" "unat r2 div 2 ^ 12 < 2 ^ 14" "unat r3 div 2 ^ 18 < 2 ^ 8"
    using b by (simp_all add: less_mult_imp_div_less)
  note w = pack_word [of r0 26 6 r1, OF b(1)]
    pack_word [of "drop_bit 6 r1" 20 12 r2, unfolded unat_drop_bit, OF q(1)]
    pack_word [of "drop_bit 12 r2" 14 18 r3, unfolded unat_drop_bit, OF q(2)]
    pack_word [of "drop_bit 18 r3" 8 24 r4, unfolded unat_drop_bit, OF q(3)]
  have "lval r = words_val (final_pack r) + 2 ^ 128 * (unat r4 div 2 ^ 24)"
    unfolding r final_pack_def prod.case words_val.simps lval.simps
    by (subst w, simp)+ (rule pack_value, simp_all only: mod_mult_div_eq)
  moreover have "words_val (final_pack r) < 2 ^ 128"
    using unat_bound [of "fst (final_pack r)"] unat_bound [of "fst (snd (final_pack r))"]
      unat_bound [of "fst (snd (snd (final_pack r)))"] unat_bound [of "snd (snd (snd (final_pack r)))"]
    by (cases "final_pack r") simp
  ultimately show ?thesis by simp
qed

lemma load_le32_val:
  "off + 4 \<le> length p \<Longrightarrow> unat (load_le32 p off) = le_nat (slice_of off 4 p)"
proof -
  assume "off + 4 \<le> length p"
  then have "slice_of off 4 p = [p ! off, p ! (off + 1), p ! (off + 2), p ! (off + 3)]"
    by (intro nth_equalityI) (auto simp: nth_slice_of less_Suc_eq eval_nat_numeral)
  moreover have "unat (load_le32 p off) =
      unat (p ! off) + 2 ^ 8 * unat (p ! (off + 1)) + 2 ^ 16 * unat (p ! (off + 2)) + 2 ^ 24 * unat (p ! (off + 3))"
    using unat_byte_le [of "p ! off"] unat_byte_le [of "p ! (off + 1)"] unat_byte_le [of "p ! (off + 2)"]
      unat_byte_le [of "p ! (off + 3)"]
    unfolding load_le32_def by (subst unat_or4) (simp_all add: unat_ucast_up)
  ultimately show ?thesis by simp
qed

lemma store_le32_val: "le_nat (store_le32 x) = unat x"
proof -
  have "unat (ucast y :: byte) = unat y mod 256" for y :: u32
    by (simp add: unsigned_ucast_eq take_bit_eq_mod)
  then have "le_nat (store_le32 x) = unat x mod 256 + 256 * (unat x div 2 ^ 8 mod 256 +
      256 * (unat x div 2 ^ 16 mod 256 + 256 * (unat x div 2 ^ 24 mod 256)))"
    by (simp add: store_le32_def unat_drop_bit)
  also have "\<dots> = unat x mod (256 * (256 * (256 * 256)))"
    by (simp only: mod_mult2_eq) (simp add: div_mult2_eq [symmetric])
  finally show ?thesis using unat_bound [of x] by simp
qed

lemma le_nat_words:
  assumes "length pad = 16"
  shows "le_nat pad = unat (load_le32 pad 0) + 2 ^ 32 * unat (load_le32 pad 4) +
    2 ^ 64 * unat (load_le32 pad 8) + 2 ^ 96 * unat (load_le32 pad 12)"
proof -
  have "pad = slice_of 0 4 pad @ slice_of 4 4 pad @ slice_of 8 4 pad @ slice_of 12 4 pad"
    using slice_of_add [of 0 4 12 pad] slice_of_add [of 4 4 8 pad] slice_of_add [of 8 4 4 pad] assms
    by (simp add: slice_of_def)
  then have "le_nat pad = le_nat (slice_of 0 4 pad @ slice_of 4 4 pad @ slice_of 8 4 pad @ slice_of 12 4 pad)"
    by (rule arg_cong)
  then show ?thesis using assms unfolding le_nat_append by (simp add: load_le32_val)
qed

lemma add_words_value:
  fixes w0 w1 w2 w3 :: nat
  assumes "w0 + p0 = o0 + 2 ^ 32 * c0" "w1 + p1 + c0 = o1 + 2 ^ 32 * c1" "w2 + p2 + c1 = o2 + 2 ^ 32 * c2"
    "w3 + p3 + c2 = o3 + 2 ^ 32 * c3"
  shows "(w0 + 2 ^ 32 * w1 + 2 ^ 64 * w2 + 2 ^ 96 * w3) + (p0 + 2 ^ 32 * p1 + 2 ^ 64 * p2 + 2 ^ 96 * p3) =
    (o0 + 2 ^ 32 * o1 + 2 ^ 64 * o2 + 2 ^ 96 * o3) + 2 ^ 128 * c3"
  using assms by simp

lemma final_add_pad_ok:
  assumes "length pad = 16"
  shows "final_add_pad w pad = nat_le 16 (words_val w + le_nat pad)"
proof -
  obtain w0 w1 w2 w3 where w: "w = (w0, w1, w2, w3)" by (metis prod_cases4)
  have lt: "unat (x :: u32) < 2 ^ 32" for x using unat_bound [of x] by simp
  have sum2: "unat (ucast a + ucast b :: u64) = unat a + unat b" for a b :: u32
    using lt [of a] lt [of b] by (subst unat_plus) (simp_all add: unat_ucast_up)
  have sum: "unat (ucast a + ucast b + drop_bit 32 f :: u64) = unat a + unat b + unat f div 2 ^ 32"
    for a b :: u32 and f :: u64
  proof -
    have "unat f div 2 ^ 32 < 2 ^ 32" using unat_bound [of f] by (simp add: less_mult_imp_div_less)
    then show ?thesis using lt [of a] lt [of b] by (subst unat_plus) (simp_all add: sum2 unat_drop_bit)
  qed
  have low: "unat (ucast f :: u32) = unat f mod 2 ^ 32" for f :: u64
    by (simp add: unsigned_ucast_eq take_bit_eq_mod)
  define f0 :: u64 where "f0 = ucast w0 + ucast (load_le32 pad 0)"
  define f1 :: u64 where "f1 = ucast w1 + ucast (load_le32 pad 4) + drop_bit 32 f0"
  define f2 :: u64 where "f2 = ucast w2 + ucast (load_le32 pad 8) + drop_bit 32 f1"
  define f3 :: u64 where "f3 = ucast w3 + ucast (load_le32 pad 12) + drop_bit 32 f2"
  have res: "final_add_pad w pad =
      store_le32 (ucast f0) @ store_le32 (ucast f1) @ store_le32 (ucast f2) @ store_le32 (ucast f3)"
    unfolding w final_add_pad_def prod.case Let_def f0_def f1_def f2_def f3_def by (rule refl)
  have len: "length (store_le32 x) = 4" for x by (simp add: store_le32_def)
  have val: "le_nat (final_add_pad w pad) =
      unat f0 mod 2 ^ 32 + 2 ^ 32 * (unat f1 mod 2 ^ 32) + 2 ^ 64 * (unat f2 mod 2 ^ 32) + 2 ^ 96 * (unat f3 mod 2 ^ 32)"
    unfolding res le_nat_append store_le32_val len low by simp
  have "words_val w + le_nat pad = le_nat (final_add_pad w pad) + 2 ^ 128 * (unat f3 div 2 ^ 32)"
    unfolding w words_val.simps le_nat_words [OF assms] unfolding w [symmetric] val
    using sum2 [of w0 "load_le32 pad 0"] sum [of w1 "load_le32 pad 4" f0] sum [of w2 "load_le32 pad 8" f1]
      sum [of w3 "load_le32 pad 12" f2] unfolding f0_def [symmetric] f1_def [symmetric] f2_def [symmetric]
      f3_def [symmetric] by (intro add_words_value) simp_all
  moreover have "length (final_add_pad w pad) = 16" by (simp add: res len)
  moreover from this have "le_nat (final_add_pad w pad) < 256 ^ 16" by (metis le_nat_bound)
  ultimately show ?thesis by (intro nat_le_unique) simp_all
qed

section \<open>The streaming contract\<close>

definition poly1305_tag :: "byte list \<Rightarrow> byte list \<Rightarrow> byte list" where
  "poly1305_tag key m = nat_le 16 (poly_eval (key_r key) 0 m + le_nat (take 16 (drop 16 key)))"

lemma poly1305_final_repr:
  assumes "length key = 32" and "poly_repr key ctx m"
  shows "nd_poly1305_final ctx = poly1305_tag key m"
proof -
  let ?c = "poly1305_last_block ctx"
  have inv: "reduced (pc_h ?c)" "lval (pc_h ?c) mod P1305 = poly_eval (key_r key) 0 m"
      "pc_pad ?c = take 16 (drop 16 key)"
    using poly1305_last_block_inv [OF assms(2)] unfolding poly_ctx_inv_def poly1305_init_fields by blast+
  have sub: "lval (final_subtract (final_carry (pc_h ?c))) = poly_eval (key_r key) 0 m"
    "limbs_le (2 ^ 26 - 1) (final_subtract (final_carry (pc_h ?c)))"
    using final_subtract_ok final_carry_ok [OF inv(1)] inv(2) by metis+
  have "nd_poly1305_final ctx =
      nat_le 16 (poly_eval (key_r key) 0 m mod 2 ^ 128 + le_nat (take 16 (drop 16 key)))"
    using assms(1) final_add_pad_ok [of "take 16 (drop 16 key)"]
    unfolding nd_poly1305_final_def Let_def inv(3) final_pack_ok [OF sub(2), symmetric] sub(1) [symmetric]
    by simp
  also have "\<dots> = poly1305_tag key m"
    unfolding poly1305_tag_def by (intro nat_le_unique) (simp_all add: le_nat_nat_le mod_add_left_eq)
  finally show ?thesis .
qed

interpretation poly1305: keyed_streaming nd_poly1305_init "\<lambda>key. length key = 32" nd_poly1305_update
  nd_poly1305_final poly1305_tag 16
  by unfold_locales (simp_all add: poly1305_final_repr [OF _ poly1305_fold_repr] poly1305_tag_def)

lemma nd_poly1305_mac_eq: "length key = 32 \<Longrightarrow> nd_poly1305_mac key m = poly1305_tag key m"
  by (simp add: nd_poly1305_mac_def poly1305.keyed_one)

section \<open>The clamped key\<close>

lemma le_nat_and:
  "length as = length bs \<Longrightarrow> le_nat (map2 (AND) as bs) = le_nat as AND le_nat bs"
proof (induction as bs rule: list_induct2)
  case (Cons a as b bs)
  show ?case
    unfolding list.map zip_Cons_Cons prod.case le_nat_Cons_or Cons.IH
    by (rule bit_eqI) (auto simp: bit_simps dest: bit_imp_le_length)
qed simp

lemma clamp_r_and:
  "length r = 16 \<Longrightarrow>
   clamp_r r = map2 (AND) r [255, 255, 255, 15, 252, 255, 255, 15, 252, 255, 255, 15, 252, 255, 255, 15]"
proof -
  have a: "(x :: byte) AND 255 = x" for x
    using and_low_mask [of x 8] unat_bound [of x] by (simp add: mask_eq_exp_minus_1)
  assume "length r = 16"
  then obtain b0 b1 b2 b3 b4 b5 b6 b7 b8 b9 b10 b11 b12 b13 b14 b15 where
    "r = [b0, b1, b2, b3, b4, b5, b6, b7, b8, b9, b10, b11, b12, b13, b14, b15]"
    by (auto simp: length_Suc_conv eval_nat_numeral)
  then show ?thesis by (simp add: clamp_r_def a)
qed

lemma key_r_clamped:
  assumes "length key = 32"
  shows "key_r key = le_nat (take 16 key) AND 0x0ffffffc0ffffffc0ffffffc0fffffff"
proof -
  let ?mask = "[255, 255, 255, 15, 252, 255, 255, 15, 252, 255, 255, 15, 252, 255, 255, 15] :: byte list"
  have "le_nat ?mask = 0x0ffffffc0ffffffc0ffffffc0fffffff" by simp
  moreover have "clamp_r (take 16 key) = map2 (AND) (take 16 key) ?mask"
    using assms by (intro clamp_r_and) simp
  moreover have "length (take 16 key) = length ?mask" using assms by simp
  ultimately have "le_nat (clamp_r (take 16 key)) = le_nat (take 16 key) AND 0x0ffffffc0ffffffc0ffffffc0fffffff"
    by (metis le_nat_and)
  then show ?thesis
    using assms by (simp add: poly1305_init_fields bytes_to_limbs_val le_nat_append)
qed

section \<open>Properties\<close>

text \<open>C29: The Poly1305 tag of a message fed in any pieces is the one of RFC 8439: the blocks of 16 bytes,
  each with a one byte appended, as the coefficients of a polynomial in the clamped first half of the
  key, evaluated modulo 2 to the 130 minus 5, plus the second half of the key, modulo 2 to the 128 and
  little-endian.\<close>

theorem poly1305_correct:
  assumes "length key = 32"
  shows "nd_poly1305_final (foldl nd_poly1305_update (nd_poly1305_init key) pieces) =
    nat_le 16 (poly_eval (le_nat (take 16 key) AND 0x0ffffffc0ffffffc0ffffffc0fffffff) 0 (concat pieces) +
      le_nat (drop 16 key))"
  using assms poly1305.keyed_finish [of key pieces] unfolding poly1305_tag_def key_r_clamped [OF assms] by simp

theorem poly1305_correct_witness:
  "nd_poly1305_final (foldl nd_poly1305_update (nd_poly1305_init (replicate 32 1)) [[1, 2], [3]]) =
    nat_le 16 (poly_eval (le_nat (replicate 16 1) AND 0x0ffffffc0ffffffc0ffffffc0fffffff) 0 [1, 2, 3] +
      le_nat (replicate 16 1))"
  using poly1305_correct [of "replicate 32 1" "[[1, 2], [3]]"] by simp

text \<open>C30: Between any two updates every limb of the accumulator is below 2 to the 26, limb 1 below 2 to
  the 26 plus 64, so that after the next block is added no product, sum or carry of the multiplication
  overflows its 64-bit or 32-bit type: the result is exact modulo 2 to the 130 minus 5. The buffer
  never holds a full block.\<close>

theorem poly1305_accumulator_bounds:
  fixes key :: "byte list" and pieces :: "byte list list"
  assumes "length key = 32" and "length block17 = 17" and "unat (block17 ! 16) \<le> 1"
  defines "ctx \<equiv> foldl nd_poly1305_update (nd_poly1305_init key) pieces"
  defines "h \<equiv> add_limbs (pc_h ctx) (bytes_to_limbs block17)"
  shows "reduced (pc_h ctx) \<and> length (pc_buf ctx) < 16 \<and> lval h = lval (pc_h ctx) + le_nat block17 \<and>
    reduced (poly1305_mulmod h (pc_r ctx) (pc_s ctx)) \<and>
    lval (poly1305_mulmod h (pc_r ctx) (pc_s ctx)) mod P1305 = (lval h * lval (pc_r ctx)) mod P1305"
proof -
  obtain a b where "pc_buf ctx = b" "length b < 16" and inv: "poly_ctx_inv key (poly_eval (key_r key) 0 a) ctx"
    using poly_repr_split [OF poly1305_fold_repr [OF assms(1)]] unfolding ctx_def by metis
  moreover from inv have "reduced (pc_h ctx)" "limbs_le (2 ^ 26 - 1) (pc_r ctx)" "pc_s ctx = times5 (pc_r ctx)"
    unfolding poly_ctx_inv_def by blast+
  moreover note add_limbs_ok [OF this(1) bytes_to_limbs_bound [OF assms(3)]]
  ultimately show ?thesis
    using poly1305_mulmod_ok [of h "pc_r ctx"] unfolding h_def bytes_to_limbs_val [OF assms(2)] by simp
qed

theorem poly1305_accumulator_bounds_witness:
  "reduced (pc_h (foldl nd_poly1305_update (nd_poly1305_init (replicate 32 255)) [[7]]))"
  using poly1305_accumulator_bounds [of "replicate 32 255" "replicate 16 255 @ [1]" "[[7]]"]
  by (simp add: nth_append)

end
