(* ===== verification/Aead.thy ===== *)
theory Aead
  imports Poly1305 Key_Schedule
begin

text \<open>
  The AEAD: \<^verbatim>\<open>src/crypto/aead_chacha20poly1305.c\<close> and \<^verbatim>\<open>include/nanodtls/aead.h\<close>. Key, nonce and tag are
  arrays of fixed length in the source; the laws assume a tag of 16 bytes.
  Shown: decryption accepts exactly what encryption produces (for the same key, nonce and associated
  data), an altered tag is refused before anything is decrypted, and the string that is authenticated
  determines associated data and ciphertext. The locale \<open>aead_scheme\<close> is what the record layer uses.
\<close>

unbundle bit_operations_syntax

abbreviation (input) ND_AEAD_TAG_LEN :: nat where "ND_AEAD_TAG_LEN \<equiv> 16"

section \<open>The construction\<close>

definition store_le64 :: "u64 \<Rightarrow> byte list" where
  "store_le64 x = map (\<lambda>i. ucast (drop_bit (8 * i) x)) [0..<8]"

definition mac_aad_and_ciphertext :: "nd_poly1305_ctx \<Rightarrow> byte list \<Rightarrow> byte list \<Rightarrow> nd_poly1305_ctx" where
  "mac_aad_and_ciphertext mac aad ciphertext =
     (let mac = nd_poly1305_update mac aad;
          aad_pad = (16 - length aad mod 16) mod 16;
          mac = (if aad_pad \<noteq> 0 then nd_poly1305_update mac (replicate aad_pad 0) else mac);
          mac = nd_poly1305_update mac ciphertext;
          ct_pad = (16 - length ciphertext mod 16) mod 16;
          mac = (if ct_pad \<noteq> 0 then nd_poly1305_update mac (replicate ct_pad 0) else mac);
          lens = store_le64 (of_nat (length aad)) @ store_le64 (of_nat (length ciphertext))
      in nd_poly1305_update mac lens)"

definition derive_otk :: "byte list \<Rightarrow> byte list \<Rightarrow> byte list" where
  "derive_otk key nonce = take 32 (nd_chacha20_block key nonce 0)"

text \<open>Encryption returns the ciphertext and the tag, decryption the plaintext.\<close>

fun nd_aead_chacha20poly1305_encrypt ::
  "byte list ptr \<Rightarrow> byte list ptr \<Rightarrow> cbuf \<Rightarrow> cbuf \<Rightarrow> (byte list \<times> byte list) result" where
  "nd_aead_chacha20poly1305_encrypt (Some key) (Some nonce) aad plaintext =
     (if (cbuf_len aad > 0 \<and> cbuf_is_null aad) \<or> (cbuf_len plaintext > 0 \<and> cbuf_is_null plaintext)
      then Inl ND_ERR_BAD_ARG
      else then_ok (nd_chacha20_xor (Some key) (Some nonce) 1 plaintext) (\<lambda>ciphertext_out.
        let otk = derive_otk key nonce;
            mac = nd_poly1305_init otk;
            mac = mac_aad_and_ciphertext mac (cbuf_bytes aad) ciphertext_out;
            tag_out = nd_poly1305_final mac
        in Inr (ciphertext_out, tag_out)))"
| "nd_aead_chacha20poly1305_encrypt key nonce aad plaintext = Inl ND_ERR_BAD_ARG"

fun nd_aead_chacha20poly1305_decrypt ::
  "byte list ptr \<Rightarrow> byte list ptr \<Rightarrow> cbuf \<Rightarrow> cbuf \<Rightarrow> byte list ptr \<Rightarrow> byte list result" where
  "nd_aead_chacha20poly1305_decrypt (Some key) (Some nonce) aad ciphertext (Some tag) =
     (if (cbuf_len aad > 0 \<and> cbuf_is_null aad) \<or> (cbuf_len ciphertext > 0 \<and> cbuf_is_null ciphertext)
      then Inl ND_ERR_BAD_ARG
      else
        let otk = derive_otk key nonce;
            mac = nd_poly1305_init otk;
            mac = mac_aad_and_ciphertext mac (cbuf_bytes aad) (cbuf_bytes ciphertext);
            computed_tag = nd_poly1305_final mac;
            diff = ct_diff computed_tag tag ND_AEAD_TAG_LEN
        in if diff \<noteq> 0 then Inl ND_ERR_AUTH_FAILED
           else nd_chacha20_xor (Some key) (Some nonce) 1 ciphertext)"
| "nd_aead_chacha20poly1305_decrypt key nonce aad ciphertext tag = Inl ND_ERR_BAD_ARG"

section \<open>What is authenticated\<close>

definition pad16 :: "byte list \<Rightarrow> byte list" where
  "pad16 bs = bs @ replicate ((16 - length bs mod 16) mod 16) 0"

definition aead_mac_data :: "byte list \<Rightarrow> byte list \<Rightarrow> byte list" where
  "aead_mac_data aad ct =
     pad16 aad @ pad16 ct @ store_le64 (of_nat (length aad)) @ store_le64 (of_nat (length ct))"

definition aead_tag :: "byte list \<Rightarrow> byte list \<Rightarrow> byte list \<Rightarrow> byte list \<Rightarrow> byte list" where
  "aead_tag key nonce aad ct = poly1305_tag (derive_otk key nonce) (aead_mac_data aad ct)"

lemma length_store_le64 [simp, len_simps]: "length (store_le64 x) = 8"
  by (simp add: store_le64_def)

lemma store_le64_inj: "store_le64 x = store_le64 y \<Longrightarrow> x = y"
proof (rule bit_word_eqI)
  fix n
  assume eq: "store_le64 x = store_le64 y" and "n < LENGTH(64)"
  then have "store_le64 x ! (n div 8) = store_le64 y ! (n div 8)" "n div 8 < 8"
    by (simp_all add: less_mult_imp_div_less)
  then have "(ucast (drop_bit (8 * (n div 8)) x) :: byte) = ucast (drop_bit (8 * (n div 8)) y)"
    by (simp add: store_le64_def)
  then have "bit (ucast (drop_bit (8 * (n div 8)) x) :: byte) (n mod 8) =
      bit (ucast (drop_bit (8 * (n div 8)) y) :: byte) (n mod 8)" by (rule arg_cong)
  then show "bit x n = bit y n" by (simp add: bit_simps)
qed

lemma length_derive_otk [simp, len_simps]: "length (derive_otk key nonce) = 32"
  by (simp add: derive_otk_def)

lemma length_aead_tag [simp, len_simps]: "length (aead_tag key nonce aad ct) = 16"
  by (simp add: aead_tag_def poly1305.length_keyed)

text \<open>The updates that the code skips when there is nothing to pad feed nothing.\<close>

lemma aead_mac_eq:
  "nd_poly1305_final (mac_aad_and_ciphertext (nd_poly1305_init (derive_otk key nonce)) aad ct) =
   aead_tag key nonce aad ct"
proof -
  have none: "nd_poly1305_update mac [] = mac" for mac by (simp add: nd_poly1305_update_def)
  have skip: "(if n \<noteq> 0 then nd_poly1305_update mac (replicate n 0) else mac) = nd_poly1305_update mac (replicate n 0)"
    for n mac by (simp add: none)
  have "mac_aad_and_ciphertext mac aad ct = foldl nd_poly1305_update mac
      [aad, replicate ((16 - length aad mod 16) mod 16) 0, ct, replicate ((16 - length ct mod 16) mod 16) 0,
       store_le64 (of_nat (length aad)) @ store_le64 (of_nat (length ct))]" for mac
    by (simp only: mac_aad_and_ciphertext_def Let_def skip foldl.simps)
  then have "nd_poly1305_final (mac_aad_and_ciphertext (nd_poly1305_init (derive_otk key nonce)) aad ct) =
      poly1305_tag (derive_otk key nonce) (concat
        [aad, replicate ((16 - length aad mod 16) mod 16) 0, ct, replicate ((16 - length ct mod 16) mod 16) 0,
         store_le64 (of_nat (length aad)) @ store_le64 (of_nat (length ct))])"
    by (simp only: poly1305.keyed_finish length_derive_otk)
  then show ?thesis by (simp add: aead_tag_def aead_mac_data_def pad16_def)
qed

lemma pad16_inj: "length a = length b \<Longrightarrow> pad16 a @ xs = pad16 b @ ys \<Longrightarrow> a = b \<and> xs = ys"
  by (simp add: pad16_def)

lemma aead_mac_data_inj:
  assumes "aead_mac_data a c = aead_mac_data a' c'"
    and "length a < 2 ^ 64" "length c < 2 ^ 64" "length a' < 2 ^ 64" "length c' < 2 ^ 64"
  shows "a = a' \<and> c = c'"
proof -
  have split: "xs @ us = ys @ vs \<Longrightarrow> length us = length vs \<Longrightarrow> xs = ys \<and> us = vs"
    for xs us ys vs :: "byte list" by simp
  let ?l = "\<lambda>a c. store_le64 (of_nat (length a)) @ store_le64 (of_nat (length c))"
  have "(pad16 a @ pad16 c) @ ?l a c = (pad16 a' @ pad16 c') @ ?l a' c'"
    using assms(1) by (simp add: aead_mac_data_def)
  note eq = split [OF this]
  have body: "pad16 a @ pad16 c @ [] = pad16 a' @ pad16 c' @ []" using eq by simp
  have "(of_nat (length a) :: u64) = of_nat (length a')" "(of_nat (length c) :: u64) = of_nat (length c')"
    using eq by (auto dest: store_le64_inj)
  then have "length a = length a'" "length c = length c'"
    using assms(2-) by (auto dest!: arg_cong [where f = unat] simp: unat_of_nat)
  then show ?thesis using body pad16_inj by blast
qed

section \<open>The contract of an AEAD scheme\<close>

locale aead_scheme =
  fixes seal :: "byte list \<Rightarrow> byte list \<Rightarrow> byte list \<Rightarrow> byte list \<Rightarrow> byte list \<times> byte list"
    and unseal :: "byte list \<Rightarrow> byte list \<Rightarrow> byte list \<Rightarrow> byte list \<Rightarrow> byte list \<Rightarrow> byte list result"
    and tag_len :: nat
  assumes length_seal: "seal k n a p = (c, t) \<Longrightarrow> length c = length p \<and> length t = tag_len"
    and unseal_iff: "length t = tag_len \<Longrightarrow> unseal k n a c t = Inr p \<longleftrightarrow> seal k n a p = (c, t)"
    and unseal_fails: "unseal k n a c t = Inl e \<Longrightarrow> e = ND_ERR_AUTH_FAILED"
begin

lemma unseal_seal: "seal k n a p = (c, t) \<Longrightarrow> unseal k n a c t = Inr p"
  using length_seal unseal_iff by blast

lemma unseal_length: "length t = tag_len \<Longrightarrow> unseal k n a c t = Inr p \<Longrightarrow> length p = length c"
  using length_seal unseal_iff by metis

lemma unseal_rejects:
  "length t = tag_len \<Longrightarrow> (\<And>p. seal k n a p \<noteq> (c, t)) \<Longrightarrow> unseal k n a c t = Inl ND_ERR_AUTH_FAILED"
  by (cases "unseal k n a c t") (auto simp: unseal_iff dest: unseal_fails)

end

definition aead_seal :: "byte list \<Rightarrow> byte list \<Rightarrow> byte list \<Rightarrow> byte list \<Rightarrow> byte list \<times> byte list" where
  "aead_seal key nonce aad p =
     (let ct = chacha20_xor_loop key nonce 1 p in (ct, aead_tag key nonce aad ct))"

lemma aead_encrypt_eq:
  "nd_aead_chacha20poly1305_encrypt (Some key) (Some nonce) (Buf aad) (Buf p) = Inr (aead_seal key nonce aad p)"
  by (simp add: aead_mac_eq aead_seal_def Let_def)

lemma aead_decrypt_eq:
  "length tag = 16 \<Longrightarrow>
   nd_aead_chacha20poly1305_decrypt (Some key) (Some nonce) (Buf aad) (Buf ct) (Some tag) =
     (if tag = aead_tag key nonce aad ct then Inr (chacha20_xor_loop key nonce 1 ct)
      else Inl ND_ERR_AUTH_FAILED)"
  by (auto simp: aead_mac_eq ct_diff_zero_eq Let_def)

interpretation chachapoly: aead_scheme aead_seal
  "\<lambda>k n a c t. nd_aead_chacha20poly1305_decrypt (Some k) (Some n) (Buf a) (Buf c) (Some t)" 16
proof
  show "length c = length p \<and> length t = 16" if "aead_seal k n a p = (c, t)" for k n a p c t
    using that by (auto simp: aead_seal_def Let_def)
  show "nd_aead_chacha20poly1305_decrypt (Some k) (Some n) (Buf a) (Buf c) (Some t) = Inr p \<longleftrightarrow>
      aead_seal k n a p = (c, t)" if "length t = 16" for k n a c t p
    using that chacha20_xor_involution by (auto simp: aead_decrypt_eq aead_seal_def Let_def
        simp del: nd_aead_chacha20poly1305_decrypt.simps)
  show "e = ND_ERR_AUTH_FAILED"
    if "nd_aead_chacha20poly1305_decrypt (Some k) (Some n) (Buf a) (Buf c) (Some t) = Inl e" for k n a c t e
    using that by (auto simp: Let_def split: if_splits)
qed

section \<open>Properties\<close>

text \<open>C5: Decryption accepts a ciphertext and a 16-byte tag, with plaintext \<open>p\<close>, exactly when encrypting \<open>p\<close>
  under the same key, nonce and associated data gives this ciphertext and this tag; everything else is
  refused with \<^verbatim>\<open>ND_ERR_AUTH_FAILED\<close>.\<close>

theorem aead_decrypt_iff_encrypted:
  assumes "length tag = 16"
  shows "(nd_aead_chacha20poly1305_decrypt (Some key) (Some nonce) (Buf aad) (Buf ct) (Some tag) = Inr p \<longleftrightarrow>
      nd_aead_chacha20poly1305_encrypt (Some key) (Some nonce) (Buf aad) (Buf p) = Inr (ct, tag)) \<and>
    (\<forall>e. nd_aead_chacha20poly1305_decrypt (Some key) (Some nonce) (Buf aad) (Buf ct) (Some tag) = Inl e \<longrightarrow>
      e = ND_ERR_AUTH_FAILED)"
  using chachapoly.unseal_iff [OF assms] chachapoly.unseal_fails unfolding aead_encrypt_eq by blast

theorem aead_decrypt_iff_encrypted_witness:
  "nd_aead_chacha20poly1305_decrypt (Some (replicate 32 1)) (Some (replicate 12 2)) (Buf [3]) (Buf [])
     (Some (replicate 16 0)) = Inr [] \<longleftrightarrow>
   nd_aead_chacha20poly1305_encrypt (Some (replicate 32 1)) (Some (replicate 12 2)) (Buf [3]) (Buf []) =
     Inr ([], replicate 16 0)"
  using aead_decrypt_iff_encrypted [of "replicate 16 0" "replicate 32 1" "replicate 12 2" "[3]" "[]" "[]"]
  by (simp only: length_replicate simp_thms)

text \<open>C6: The tag is the Poly1305 tag, under the one-time key from block 0, of a string that determines the
  associated data and the ciphertext: two different pairs are never authenticated by the same string.\<close>

theorem aead_authenticates_both:
  assumes "length a < 2 ^ 64" "length c < 2 ^ 64" "length a' < 2 ^ 64" "length c' < 2 ^ 64"
  shows "nd_poly1305_final (mac_aad_and_ciphertext (nd_poly1305_init (derive_otk key nonce)) a c) =
      poly1305_tag (derive_otk key nonce) (aead_mac_data a c) \<and>
    (aead_mac_data a c = aead_mac_data a' c' \<longleftrightarrow> a = a' \<and> c = c')"
  using aead_mac_data_inj [OF _ assms] by (auto simp: aead_mac_eq aead_tag_def)

theorem aead_authenticates_both_witness:
  "aead_mac_data [0] [] \<noteq> aead_mac_data [] [0]"
  using aead_authenticates_both [of "[0]" "[]" "[]" "[0]"] by simp

end
