(* ===== verification/Record_Protect.thy ===== *)
theory Record_Protect
  imports Aead Record_Layer
begin

text \<open>
  Record protection: \<^verbatim>\<open>src/record_protect.c\<close> and \<^verbatim>\<open>include/nanodtls/protect.h\<close>. Both operations return the
  state after the call and the result; a null state pointer is \<open>None\<close>.
  Shown: a receiver with the same keys gets back what the sender protected as long as the sequence
  number is within half a window, whole streams are delivered, only records made with the receiver's
  key are accepted and a rejected one changes nothing, no nonce is used twice, and the fixed-shape
  header is the one \<^verbatim>\<open>nd_unified_serialize\<close> writes.
\<close>

unbundle bit_operations_syntax

abbreviation (input) ND_RECORD_PROTECT_MAX_INNER :: nat where "ND_RECORD_PROTECT_MAX_INNER \<equiv> 2048"
abbreviation (input) ND_FIXED_SHAPE_HEADER_LEN :: nat where "ND_FIXED_SHAPE_HEADER_LEN \<equiv> 5"

section \<open>States\<close>

record nd_record_protection =
  write_key :: "byte list"
  write_iv :: "byte list"
  next_send_sequence :: u64
  send_epoch :: u16

record nd_record_unprotection =
  read_key :: "byte list"
  read_iv :: "byte list"
  highest_seen_sequence :: u64
  read_epoch :: u16

definition nd_record_protection_init :: "byte list \<Rightarrow> byte list \<Rightarrow> u16 \<Rightarrow> nd_record_protection" where
  "nd_record_protection_init key iv epoch =
     \<lparr>write_key = key, write_iv = iv, next_send_sequence = 0, send_epoch = epoch\<rparr>"

definition nd_record_unprotection_init :: "byte list \<Rightarrow> byte list \<Rightarrow> u16 \<Rightarrow> nd_record_unprotection" where
  "nd_record_unprotection_init key iv epoch =
     \<lparr>read_key = key, read_iv = iv, highest_seen_sequence = 0, read_epoch = epoch\<rparr>"

section \<open>Operations\<close>

definition build_nonce :: "byte list \<Rightarrow> u64 \<Rightarrow> byte list" where
  "build_nonce iv seq =
     (let seq_bytes = replicate 12 0;
          seq_bytes = fold (\<lambda>i sb. sb[12 - 1 - i := ucast (drop_bit (8 * i) seq)]) [0..<8] seq_bytes
      in map (\<lambda>i. iv ! i XOR seq_bytes ! i) [0..<12])"

definition write_fixed_shape_header :: "u16 \<Rightarrow> u16 \<Rightarrow> u16 \<Rightarrow> byte list" where
  "write_fixed_shape_header epoch_low2 seq16 len =
     [ND_UNIFIED_FIXED_BITS_VAL OR ND_UNIFIED_SEQLEN_BIT OR ND_UNIFIED_LEN_BIT OR
        ucast (epoch_low2 AND 0x03),
      ucast (drop_bit 8 seq16), ucast seq16, ucast (drop_bit 8 len), ucast len]"

fun nd_record_protect ::
  "nd_record_protection ptr \<Rightarrow> byte \<Rightarrow> cbuf \<Rightarrow> nat \<Rightarrow> nd_record_protection ptr \<times> byte list result" where
  "nd_record_protect (Some p) content_type (Buf plaintext) out_buf_cap =
     (if length plaintext + 1 > ND_RECORD_PROTECT_MAX_INNER then (Some p, Inl ND_ERR_BAD_LENGTH)
      else
        let inner = plaintext @ [content_type];
            inner_len = length plaintext + 1;
            ciphertext_len = inner_len + ND_AEAD_TAG_LEN;
            header_len = ND_FIXED_SHAPE_HEADER_LEN;
            total_len = header_len + ciphertext_len
        in if total_len > out_buf_cap then (Some p, Inl ND_ERR_BAD_LENGTH)
        else
          let header = write_fixed_shape_header (send_epoch p AND 0x3)
                (ucast (next_send_sequence p AND 0xFFFF)) (of_nat ciphertext_len);
              nonce = build_nonce (write_iv p) (next_send_sequence p)
          in case nd_aead_chacha20poly1305_encrypt (Some (write_key p)) (Some nonce) (Buf header) (Buf inner) of
               Inl st \<Rightarrow> (Some p, Inl st)
             | Inr (ciphertext, tag) \<Rightarrow>
                 (Some (p\<lparr>next_send_sequence := next_send_sequence p + 1\<rparr>), Inr (header @ ciphertext @ tag)))"
| "nd_record_protect p content_type plaintext out_buf_cap = (p, Inl ND_ERR_BAD_ARG)"

text \<open>The loop that strips the zero padding.\<close>

primrec strip_padding :: "byte list \<Rightarrow> nat \<Rightarrow> nat" where
  "strip_padding inner 0 = 0"
| "strip_padding inner (Suc i) = (if inner ! i = 0 then strip_padding inner i else Suc i)"

text \<open>What follows the decryption, for the inner plaintext and the record's full sequence number.\<close>

definition unprotect_inner ::
  "nd_record_unprotection \<Rightarrow> u64 \<Rightarrow> byte list \<Rightarrow> nat \<Rightarrow>
   nd_record_unprotection ptr \<times> (byte list \<times> byte) result" where
  "unprotect_inner u full_seq inner plaintext_cap =
     (let i = strip_padding inner (length inner) in
      if i = 0 then (Some u, Inl ND_ERR_BAD_ARG)
      else
        let content_type = inner ! (i - 1);
            content_len = i - 1
        in if content_len > plaintext_cap then (Some u, Inl ND_ERR_BAD_LENGTH)
           else (Some (if full_seq > highest_seen_sequence u then u\<lparr>highest_seen_sequence := full_seq\<rparr> else u),
                 Inr (take content_len inner, content_type)))"

text \<open>The call of \<^verbatim>\<open>nd_unified_parse\<close> without a connection ID never reads outside the datagram (lemma
  \<open>unified_parse_no_cid\<close> of \<open>Record_Layer\<close>), so it always has a result.\<close>

fun nd_record_unprotect ::
  "nd_record_unprotection ptr \<Rightarrow> cbuf \<Rightarrow> nat \<Rightarrow>
   nd_record_unprotection ptr \<times> (byte list \<times> byte) result" where
  "nd_record_unprotect (Some u) (Buf buf) plaintext_cap =
     (case the (nd_unified_parse (Buf buf) 0) of
        Inl st \<Rightarrow> (Some u, Inl st)
      | Inr (hdr, header_len, payload) \<Rightarrow>
          let full_epoch = nd_reconstruct_epoch (read_epoch u) (uh_epoch_low2 hdr) in
          if full_epoch \<noteq> read_epoch u then (Some u, Inl ND_ERR_UNSUPPORTED)
          else
            let wire_bits = (if uh_seq_len_is_16bit hdr then 16 else 8);
                full_seq = nd_reconstruct_sequence_number (highest_seen_sequence u)
                             (uh_sequence_number hdr) wire_bits
            in if length payload < ND_AEAD_TAG_LEN then (Some u, Inl ND_ERR_BAD_LENGTH)
            else
              let ciphertext_len = length payload - ND_AEAD_TAG_LEN in
              if ciphertext_len > ND_RECORD_PROTECT_MAX_INNER then (Some u, Inl ND_ERR_BAD_LENGTH)
              else
                let ciphertext = take ciphertext_len payload;
                    tag = drop ciphertext_len payload;
                    nonce = build_nonce (read_iv u) full_seq
                in case nd_aead_chacha20poly1305_decrypt (Some (read_key u)) (Some nonce)
                          (Buf (take header_len buf)) (Buf ciphertext) (Some tag) of
                     Inl st \<Rightarrow> (Some u, Inl st)
                   | Inr inner \<Rightarrow> unprotect_inner u full_seq inner plaintext_cap)"
| "nd_record_unprotect u buf plaintext_cap = (u, Inl ND_ERR_BAD_ARG)"

declare nd_record_protect.simps(1) [simp del] nd_record_unprotect.simps(1) [simp del]

section \<open>Nonces\<close>

lemma length_build_nonce [simp, len_simps]: "length (build_nonce iv seq) = 12"
  by (simp add: build_nonce_def Let_def)

lemma be_put_rev: "be_put n v = rev (map (\<lambda>i. ucast (drop_bit (8 * i) v)) [0..<n])"
proof (induction n arbitrary: v)
  case (Suc n)
  have "[0..<Suc n] = 0 # map Suc [0..<n]" by (simp add: upt_conv_Cons map_Suc_upt)
  then show ?case by (simp add: Suc comp_def drop_bit_drop_bit add.commute del: upt_Suc)
qed simp

lemma fill_backwards:
  "n \<le> 12 \<Longrightarrow> fold (\<lambda>i sb. sb[12 - 1 - i := f i]) [0..<n] (replicate 12 0) = replicate (12 - n) 0 @ rev (map f [0..<n])"
proof (induction n)
  case (Suc n)
  then have "replicate (12 - n) (0 :: 'a) = replicate (11 - n) 0 @ [0]"
    by (simp add: Suc_diff_le replicate_append_same flip: replicate_Suc)
  then show ?case using Suc by (simp add: list_update_append)
qed simp

lemma build_nonce_eq:
  "build_nonce iv seq = map2 (XOR) (map ((!) iv) [0..<12]) (replicate 4 0 @ be_put 8 seq)"
proof -
  have "fold (\<lambda>i sb. sb[12 - 1 - i := ucast (drop_bit (8 * i) seq)]) [0..<8] (replicate 12 0) =
      replicate 4 (0 :: byte) @ be_put 8 seq"
    using fill_backwards [of 8 "\<lambda>i. ucast (drop_bit (8 * i) seq)"] by (simp add: be_put_rev del: upt_rec_numeral)
  then show ?thesis
    unfolding build_nonce_def Let_def
    by (intro nth_equalityI) (simp_all del: upt_rec_numeral)
qed

lemma map2_xor_inj:
  "length xs = length iv \<Longrightarrow> length ys = length iv \<Longrightarrow> map2 (XOR) iv xs = map2 (XOR) iv ys \<Longrightarrow> xs = ys"
  for iv xs ys :: "byte list"
proof (induction iv arbitrary: xs ys)
  case (Cons i iv)
  from Cons.prems obtain a as b bs where "xs = a # as" "ys = b # bs"
    by (metis length_0_conv length_Cons nat.distinct(1) neq_Nil_conv)
  then show ?case using Cons by (auto simp: xor_left_cancel)
qed simp

text \<open>Different sequence numbers give different nonces.\<close>

lemma build_nonce_inj: "build_nonce iv s = build_nonce iv s' \<Longrightarrow> s = s'"
proof -
  assume "build_nonce iv s = build_nonce iv s'"
  then have "replicate 4 0 @ be_put 8 s = replicate 4 0 @ be_put 8 s'"
    unfolding build_nonce_eq by (rule map2_xor_inj [rotated 2]) simp_all
  then have "(be_of (be_put 8 s) :: u64) = be_of (be_put 8 s')" by simp
  then show ?thesis by (simp add: be_of_be_put take_bit_word_eq_self)
qed

section \<open>Headers\<close>

definition fixed_hdr :: "u16 \<Rightarrow> u16 \<Rightarrow> u16 \<Rightarrow> nd_unified_hdr" where
  "fixed_hdr epoch seq16 len =
     \<lparr>uh_cid_present = False, uh_seq_len_is_16bit = True, uh_length_present = True,
      uh_epoch_low2 = ucast (epoch AND 0x03), uh_cid = None, uh_cid_len = 0,
      uh_sequence_number = seq16, uh_length = len\<rparr>"

lemma ucast_and3: "ucast (e AND 3 :: u16) AND 3 = (ucast (e AND 3) :: byte)"
  by (rule bit_word_eqI) (auto simp: bit_simps)

lemma fixed_shape_serialize:
  assumes "length payload \<le> 0xFFFF" and "5 + length payload \<le> cap"
  shows "nd_unified_serialize (Some (fixed_hdr epoch seq16 len)) (Buf payload) cap =
    Inr (write_fixed_shape_header (epoch AND 3) seq16 (of_nat (length payload)) @ payload)"
  using assms
  by (simp add: fixed_hdr_def unified_first_byte_def write_fixed_shape_header_def put_be16_def ucast_and3 and.assoc
      Let_def)

lemma fixed_shape_parse:
  assumes "length payload \<le> 0xFFFF"
  shows "unified_parse_exact
      (write_fixed_shape_header (epoch AND 3) seq16 (of_nat (length payload)) @ payload @ rest) 0 =
    Inr (fixed_hdr epoch seq16 (of_nat (length payload)), 5, payload)"
proof -
  let ?hdr = "fixed_hdr epoch seq16 (of_nat (length payload))"
  have "unat (ucast (epoch AND 3) :: byte) \<le> 3"
    using unat_take_bit_less [of 2 "ucast (epoch AND 3) :: byte"] ucast_and3 [of epoch]
    by (simp add: take_bit_eq_mask mask_numeral)
  then have "unified_hdr_wf ?hdr"
    by (simp add: unified_hdr_wf_def fixed_hdr_def word_le_nat_alt)
  from unified_parse_written [OF fixed_shape_serialize [OF assms order_refl] this, of rest]
  show ?thesis by (simp add: fixed_hdr_def write_fixed_shape_header_def)
qed

lemma and3: "(e :: u16) AND 3 = take_bit 2 e"
  by (simp add: take_bit_eq_mask mask_numeral)

lemma fixed_hdr_epoch: "nd_reconstruct_epoch epoch (ucast (epoch AND 3)) = epoch"
proof -
  have "uint (ucast (epoch AND 3) :: byte) mod 4 = uint (ucast epoch :: byte) mod 4"
  proof -
    have "take_bit 2 (ucast (epoch AND 3) :: byte) = take_bit 2 (ucast epoch)"
      unfolding and3 by (rule bit_word_eqI) (auto simp: bit_simps)
    then have "uint (take_bit 2 (ucast (epoch AND 3) :: byte)) = uint (take_bit 2 (ucast epoch :: byte))" by simp
    then show ?thesis unfolding unsigned_take_bit_eq by (simp add: take_bit_eq_mod)
  qed
  then have "uint (nd_reconstruct_epoch epoch (ucast (epoch AND 3))) = uint (nd_reconstruct_epoch epoch (ucast epoch))"
    unfolding uint_reconstruct_epoch by simp
  then show ?thesis using epoch_exact [of epoch epoch] by (simp add: word_uint_eq_iff)
qed

lemma wire_sequence: "(ucast (s AND 0xFFFF :: u64) :: u16) = ucast s"
proof -
  have "s AND 0xFFFF = take_bit 16 s" by (simp add: take_bit_eq_mask mask_numeral)
  then show ?thesis by (auto intro: bit_word_eqI simp: bit_simps)
qed

section \<open>Padding\<close>

lemma strip_padding_spec:
  "strip_padding inner n \<le> n \<and> (\<forall>k. strip_padding inner n \<le> k \<and> k < n \<longrightarrow> inner ! k = 0) \<and>
   (strip_padding inner n \<noteq> 0 \<longrightarrow> inner ! (strip_padding inner n - 1) \<noteq> 0)"
  by (induction n) (auto simp: less_Suc_eq)

lemma strip_padding_inner:
  assumes "strip_padding inner (length inner) = Suc i"
  shows "\<exists>pad. inner = take i inner @ [inner ! i] @ replicate pad 0 \<and> inner ! i \<noteq> 0 \<and> i < length inner"
proof (intro exI conjI)
  note spec = strip_padding_spec [of inner "length inner", unfolded assms]
  then show "inner ! i \<noteq> 0" "i < length inner" by auto
  show "inner = take i inner @ [inner ! i] @ replicate (length inner - Suc i) 0"
    using spec by (intro nth_equalityI) (auto simp: nth_append nth_Cons' not_less less_Suc_eq_le min_def)
qed

section \<open>Protecting and unprotecting\<close>

text \<open>The record for a content with a given sequence number.\<close>

definition record_bytes :: "byte list \<Rightarrow> byte list \<Rightarrow> u16 \<Rightarrow> u64 \<Rightarrow> byte \<Rightarrow> byte list \<Rightarrow> byte list" where
  "record_bytes key iv epoch seq content_type content =
     (let header = write_fixed_shape_header (epoch AND 3) (ucast seq) (of_nat (length content + 1 + 16));
          (c, t) = aead_seal key (build_nonce iv seq) header (content @ [content_type])
      in header @ c @ t)"

lemma record_protect_eq:
  assumes "length content < 2048" and "length content + 22 \<le> cap"
  shows "nd_record_protect (Some p) content_type (Buf content) cap =
    (Some (p\<lparr>next_send_sequence := next_send_sequence p + 1\<rparr>),
     Inr (record_bytes (write_key p) (write_iv p) (send_epoch p) (next_send_sequence p) content_type content))"
  using assms
  by (simp add: nd_record_protect.simps(1) aead_encrypt_eq record_bytes_def wire_sequence Let_def
      split: prod.split del: nd_aead_chacha20poly1305_encrypt.simps)

lemma record_protect_too_long:
  "length content \<ge> 2048 \<or> cap < length content + 22 \<Longrightarrow>
   nd_record_protect (Some p) content_type (Buf content) cap = (Some p, Inl ND_ERR_BAD_LENGTH)"
  by (auto simp: nd_record_protect.simps(1) Let_def)

definition see :: "nd_record_unprotection \<Rightarrow> u64 \<Rightarrow> nd_record_unprotection" where
  "see u seq = u\<lparr>highest_seen_sequence := max (highest_seen_sequence u) seq\<rparr>"

lemma see_if: "(if seq > highest_seen_sequence u then u\<lparr>highest_seen_sequence := seq\<rparr> else u) = see u seq"
  by (simp add: see_def max_def)

lemma unprotect_inner_content:
  assumes "content_type \<noteq> 0" and "length content \<le> cap"
  shows "unprotect_inner u seq (content @ [content_type]) cap = (Some (see u seq), Inr (content, content_type))"
  using assms by (simp add: unprotect_inner_def see_if)

lemma length_fixed_shape_header [simp, len_simps]: "length (write_fixed_shape_header e s l) = 5"
  by (simp add: write_fixed_shape_header_def)

lemma record_unprotect_eq:
  assumes "nd_reconstruct_sequence_number (highest_seen_sequence u) (ucast seq) 16 = seq"
    and "length content < 2048" and "length content \<le> cap" and "content_type \<noteq> 0"
  shows "nd_record_unprotect (Some u)
      (Buf (record_bytes (read_key u) (read_iv u) (read_epoch u) seq content_type content @ rest)) cap =
    (Some (see u seq), Inr (content, content_type))"
proof -
  let ?h = "write_fixed_shape_header (read_epoch u AND 3) (ucast seq) (of_nat (length content + 1 + 16))"
  obtain c t where seal: "aead_seal (read_key u) (build_nonce (read_iv u) seq) ?h (content @ [content_type]) = (c, t)"
    by fastforce
  have len: "length c = length content + 1" "length t = 16"
    using chachapoly.length_seal [OF seal] by simp_all
  have parse: "unified_parse_exact (?h @ c @ t @ rest) 0 =
      Inr (fixed_hdr (read_epoch u) (ucast seq) (of_nat (length content + 1 + 16)), 5, c @ t)"
    using fixed_shape_parse [of "c @ t" "read_epoch u" "ucast seq" rest] assms(2) len by simp
  have "record_bytes (read_key u) (read_iv u) (read_epoch u) seq content_type content = ?h @ c @ t"
    by (simp only: record_bytes_def Let_def seal prod.case)
  then show ?thesis
    using assms len parse chachapoly.unseal_seal [OF seal]
    by (simp add: nd_record_unprotect.simps(1) unified_parse_no_cid fixed_hdr_def fixed_hdr_epoch unprotect_inner_content Let_def
        del: nd_aead_chacha20poly1305_decrypt.simps nd_unified_parse.simps)
qed

text \<open>What an accepted record is.\<close>

lemma unprotect_inner_accepts:
  assumes "unprotect_inner u seq inner cap = (u', Inr (content, content_type))"
  shows "u' = Some (see u seq) \<and> content_type \<noteq> 0 \<and> length content \<le> cap \<and>
    (\<exists>pad. inner = content @ [content_type] @ replicate pad 0)"
proof -
  obtain i where i: "strip_padding inner (length inner) = Suc i"
    using assms by (cases "strip_padding inner (length inner)") (simp_all add: unprotect_inner_def)
  then obtain pad where "inner = take i inner @ [inner ! i] @ replicate pad 0" "inner ! i \<noteq> 0" "i < length inner"
    using strip_padding_inner by blast
  moreover have "u' = Some (see u seq)" "i \<le> cap" "content = take i inner" "content_type = inner ! i"
    using assms i by (auto simp: unprotect_inner_def see_if Let_def split: if_splits)
  ultimately show ?thesis by (metis length_take min.coboundedI2)
qed

lemma record_unprotect_accepts:
  assumes "nd_record_unprotect (Some u) (Buf buf) cap = (u', Inr (content, content_type))"
  obtains seq header c t rest pad where "u' = Some (see u seq)" "content_type \<noteq> 0"
    "buf = header @ c @ t @ rest"
    "aead_seal (read_key u) (build_nonce (read_iv u) seq) header (content @ [content_type] @ replicate pad 0) = (c, t)"
proof -
  obtain hdr off payload where parse: "unified_parse_exact buf 0 = Inr (hdr, off, payload)"
    using assms by (auto simp: nd_record_unprotect.simps(1) unified_parse_no_cid simp del: nd_unified_parse.simps split: sum.splits)
  define c where "c = take (length payload - 16) payload"
  define t where "t = drop (length payload - 16) payload"
  define seq where "seq = nd_reconstruct_sequence_number (highest_seen_sequence u) (uh_sequence_number hdr)
      (if uh_seq_len_is_16bit hdr then 16 else 8)"
  let ?dec = "nd_aead_chacha20poly1305_decrypt (Some (read_key u)) (Some (build_nonce (read_iv u) seq))
      (Buf (take off buf)) (Buf c) (Some t)"
  have "length payload \<ge> 16 \<and> (\<exists>inner. ?dec = Inr inner \<and>
      unprotect_inner u seq inner cap = (u', Inr (content, content_type)))"
    using assms parse unfolding c_def t_def seq_def nd_record_unprotect.simps(1) unified_parse_no_cid option.sel
    by (cases ?dec) (simp_all add: Let_def c_def t_def seq_def split: if_splits
        del: nd_aead_chacha20poly1305_decrypt.simps nd_unified_parse.simps)
  then obtain inner where inner: "length payload \<ge> 16" "?dec = Inr inner"
      "unprotect_inner u seq inner cap = (u', Inr (content, content_type))" by blast
  note acc = unprotect_inner_accepts [OF inner(3)]
  obtain pad where pad: "inner = content @ [content_type] @ replicate pad 0" using acc by blast
  have "aead_seal (read_key u) (build_nonce (read_iv u) seq) (take off buf) inner = (c, t)"
    using inner(1,2) chachapoly.unseal_iff [of t] by (simp add: t_def)
  moreover have "off + length payload \<le> length buf \<and> payload = slice_of off (length payload) buf"
    using unified_parsed [OF parse] by blast
  then have "buf = take off buf @ c @ t @ drop (off + length payload) buf"
    by (metis append.assoc append_take_drop_id c_def t_def slice_of_split)
  ultimately show ?thesis using that acc pad by blast
qed

lemma record_unprotect_error:
  "nd_record_unprotect (Some u) (Buf buf) cap = (u', Inl e) \<Longrightarrow> u' = Some u"
  unfolding nd_record_unprotect.simps(1) unprotect_inner_def Let_def
  by (simp split: sum.splits prod.splits if_splits
      del: nd_aead_chacha20poly1305_decrypt.simps nd_unified_parse.simps)

section \<open>Streams of records\<close>

text \<open>A sender that protects a list of contents, and a receiver that unprotects a list of datagrams.\<close>

fun send_all ::
  "nd_record_protection ptr \<Rightarrow> (byte list \<times> byte) list \<Rightarrow> nat \<Rightarrow> byte list result list" where
  "send_all p [] cap = []"
| "send_all p ((content, content_type) # ms) cap =
     (case nd_record_protect p content_type (Buf content) cap of (p', r) \<Rightarrow> r # send_all p' ms cap)"

fun receive_all ::
  "nd_record_unprotection ptr \<Rightarrow> byte list list \<Rightarrow> nat \<Rightarrow> (byte list \<times> byte) result list" where
  "receive_all u [] cap = []"
| "receive_all u (b # bs) cap =
     (case nd_record_unprotect u (Buf b) cap of (u', r) \<Rightarrow> r # receive_all u' bs cap)"

text \<open>Each index of the list is less than half a window away from the highest one before it.\<close>

primrec in_window :: "nat \<Rightarrow> nat list \<Rightarrow> bool" where
  "in_window h [] = True"
| "in_window h (j # js) = (2 * \<bar>int j - int h\<bar> < 2 ^ 16 \<and> in_window (max h j) js)"

definition sendable :: "byte list \<times> byte \<Rightarrow> bool" where
  "sendable m \<longleftrightarrow> length (fst m) < 2048 \<and> snd m \<noteq> 0"

lemma send_all_nth:
  "list_all sendable ms \<Longrightarrow> 2070 \<le> cap \<Longrightarrow> i < length ms \<Longrightarrow>
   send_all (Some p) ms cap ! i =
     Inr (record_bytes (write_key p) (write_iv p) (send_epoch p) (next_send_sequence p + of_nat i)
       (snd (ms ! i)) (fst (ms ! i)))"
proof (induction "Some p" ms cap arbitrary: p i rule: send_all.induct)
  case (2 content content_type ms cap)
  have ok: "length content < 2048" "length content + 22 \<le> cap"
    using 2(2,3) by (simp_all add: sendable_def)
  show ?case
  proof (cases i)
    case 0
    then show ?thesis by (simp add: record_protect_eq [OF ok])
  next
    case (Suc j)
    have "send_all (Some (p\<lparr>next_send_sequence := next_send_sequence p + 1\<rparr>)) ms cap ! j =
        Inr (record_bytes (write_key p) (write_iv p) (send_epoch p) (next_send_sequence p + 1 + of_nat j)
          (snd (ms ! j)) (fst (ms ! j)))"
      using 2(1) [OF record_protect_eq [OF ok, symmetric], of j] 2(2-) Suc by simp
    then show ?thesis by (simp add: record_protect_eq [OF ok] Suc add.assoc)
  qed
qed simp

lemma length_send_all [simp]: "length (send_all p ms cap) = length ms"
  by (induction p ms cap rule: send_all.induct) (auto split: prod.split)

lemma uint_max: "uint (max a b) = max (uint a) (uint b)" for a b :: u64
  by (simp add: max_def word_le_def)

lemma uint_of_nat48: "n < 2 ^ 48 \<Longrightarrow> uint (of_nat n :: u64) = int n"
  by (simp add: unsigned_of_nat take_bit_nat_eq_self)

lemma receive_all_window:
  assumes "list_all (\<lambda>j. j < length ms) js" and "length ms \<le> 2 ^ 48" and "list_all sendable ms" and "2070 \<le> cap"
    and "uint (highest_seen_sequence u) = int h" "h < 2 ^ 48" "in_window h js"
  shows "receive_all (Some u) (map (\<lambda>j. record_bytes (read_key u) (read_iv u) (read_epoch u) (of_nat j)
      (snd (ms ! j)) (fst (ms ! j))) js) cap = map (\<lambda>j. Inr (ms ! j)) js"
  using assms(1,5-)
proof (induction js arbitrary: u h)
  case (Cons j js)
  have j: "j < length ms" "j < 2 ^ 48" using Cons.prems(1) assms(2) by simp_all
  then have ok: "length (fst (ms ! j)) < 2048" "snd (ms ! j) \<noteq> 0"
    using assms(3) by (auto simp: list_all_length sendable_def)
  have "nd_reconstruct_sequence_number (highest_seen_sequence u) (ucast (of_nat j :: u64)) 16 = of_nat j"
    using Cons.prems(2-) uint_of_nat48 [OF j(2)] j(2) by (intro sequence_number_exact) simp_all
  then have step: "nd_record_unprotect (Some u) (Buf (record_bytes (read_key u) (read_iv u) (read_epoch u) (of_nat j)
      (snd (ms ! j)) (fst (ms ! j)))) cap = (Some (see u (of_nat j)), Inr (ms ! j))"
    using record_unprotect_eq [of u "of_nat j" "fst (ms ! j)" cap "snd (ms ! j)" "[]"] ok assms(4) by simp
  have "uint (highest_seen_sequence (see u (of_nat j))) = int (max h j)" "max h j < 2 ^ 48"
    using Cons.prems(2,3) uint_of_nat48 [OF j(2)] j(2) by (simp_all add: see_def uint_max)
  then have "receive_all (Some (see u (of_nat j))) (map (\<lambda>j. record_bytes (read_key u) (read_iv u) (read_epoch u)
      (of_nat j) (snd (ms ! j)) (fst (ms ! j))) js) cap = map (\<lambda>j. Inr (ms ! j)) js"
    using Cons.IH [of "see u (of_nat j)" "max h j"] Cons.prems by (simp add: see_def)
  then show ?case by (simp add: step)
qed simp

section \<open>Properties\<close>

text \<open>C1: Whatever the network loses, repeats or reorders, a receiver with the sender's key, IV and epoch gets
  from every datagram it is handed exactly the content and the content type that was protected in it,
  as long as each record is less than half a 16-bit window from the highest one received before.\<close>

theorem record_stream_delivered:
  fixes key iv :: "byte list" and epoch :: u16
  assumes "list_all sendable ms" and "length ms \<le> 2 ^ 48" and "2070 \<le> cap"
    and "list_all (\<lambda>j. j < length ms) js" and "in_window 0 js"
  defines "records \<equiv> send_all (Some (nd_record_protection_init key iv epoch)) ms cap"
  shows "receive_all (Some (nd_record_unprotection_init key iv epoch)) (map (\<lambda>j. projr (records ! j)) js) cap =
    map (\<lambda>j. Inr (ms ! j)) js"
proof -
  let ?u = "nd_record_unprotection_init key iv epoch"
  have eq: "map (\<lambda>j. projr (records ! j)) js = map (\<lambda>j. record_bytes (read_key ?u) (read_iv ?u) (read_epoch ?u)
      (of_nat j) (snd (ms ! j)) (fst (ms ! j))) js"
    using assms(1,3,4) by (auto simp: records_def send_all_nth nd_record_protection_init_def
        nd_record_unprotection_init_def list_all_iff)
  show ?thesis
    unfolding eq by (rule receive_all_window [OF assms(4,2,1,3) _ _ assms(5)])
      (simp_all add: nd_record_unprotection_init_def)
qed

theorem record_stream_delivered_witness:
  "receive_all (Some (nd_record_unprotection_init [1] [2] 2)) (map (\<lambda>j. projr (send_all
      (Some (nd_record_protection_init [1] [2] 2)) [([1, 2], 22), ([], 21), ([9], 23)] 4096 ! j)) [2, 0, 2]) 4096 =
   [Inr ([9], 23), Inr ([1, 2], 22), Inr ([9], 23)]"
  using record_stream_delivered [of "[([1, 2], 22), ([], 21), ([9], 23)]" 4096 "[2, 0, 2]" "[1]" "[2]" 2]
  by (simp add: sendable_def)

text \<open>C2: \<^verbatim>\<open>nd_record_unprotect\<close> accepts only records that hold, after their header, the encryption of the
  returned content, content type and zero padding under the receiver's key, with the header as
  associated data; then only the highest sequence number seen can change, and it never decreases. An
  error of any kind leaves the state as it was.\<close>

theorem record_unprotect_authentic:
  assumes "nd_record_unprotect (Some u) (Buf buf) cap = (u', r)"
  shows "(\<forall>e. r = Inl e \<longrightarrow> u' = Some u) \<and>
    (\<forall>content content_type. r = Inr (content, content_type) \<longrightarrow>
      (\<exists>seq header c t rest pad. u' = Some (see u seq) \<and> content_type \<noteq> 0 \<and> buf = header @ c @ t @ rest \<and>
        nd_aead_chacha20poly1305_encrypt (Some (read_key u)) (Some (build_nonce (read_iv u) seq)) (Buf header)
          (Buf (content @ [content_type] @ replicate pad 0)) = Inr (c, t)))"
proof (intro conjI allI impI)
  show "u' = Some u" if "r = Inl e" for e using assms that record_unprotect_error by blast
  fix content content_type
  assume "r = Inr (content, content_type)"
  then show "\<exists>seq header c t rest pad. u' = Some (see u seq) \<and> content_type \<noteq> 0 \<and> buf = header @ c @ t @ rest \<and>
      nd_aead_chacha20poly1305_encrypt (Some (read_key u)) (Some (build_nonce (read_iv u) seq)) (Buf header)
        (Buf (content @ [content_type] @ replicate pad 0)) = Inr (c, t)"
    using record_unprotect_accepts assms unfolding aead_encrypt_eq by metis
qed

theorem record_unprotect_authentic_witness:
  "\<exists>seq header c t rest pad. record_bytes [1] [2] 2 0 22 [5] = header @ c @ t @ rest \<and>
     nd_aead_chacha20poly1305_encrypt (Some [1]) (Some (build_nonce [2] seq)) (Buf header)
       (Buf ([5] @ [22] @ replicate pad 0)) = Inr (c, t)"
proof -
  let ?u = "nd_record_unprotection_init [1] [2] 2"
  have "nd_reconstruct_sequence_number 0 (ucast (0 :: u64)) 16 = 0"
    by (intro sequence_number_exact) simp_all
  then have "nd_record_unprotect (Some ?u) (Buf (record_bytes [1] [2] 2 0 22 [5])) 64 = (Some (see ?u 0), Inr ([5], 22))"
    using record_unprotect_eq [of ?u 0 "[5]" 64 22 "[]"] by (simp add: nd_record_unprotection_init_def)
  from record_unprotect_authentic [OF this]
  have "\<exists>seq header c t rest pad. record_bytes [1] [2] 2 0 22 [5] = header @ c @ t @ rest \<and>
     nd_aead_chacha20poly1305_encrypt (Some (read_key ?u)) (Some (build_nonce (read_iv ?u) seq)) (Buf header)
       (Buf ([5] @ [22] @ replicate pad 0)) = Inr (c, t)" by blast
  then show ?thesis by (simp only: nd_record_unprotection_init_def nd_record_unprotection.select_convs)
qed

text \<open>C3: A sender never uses a nonce twice under one key: record number \<open>i\<close> is encrypted with the nonce made
  from \<open>i\<close>, and these nonces are pairwise different for the first 2 to the 64 records.\<close>

theorem record_nonces_unique:
  assumes "list_all sendable ms" and "2070 \<le> cap" and "length ms \<le> 2 ^ 64"
  shows "list_all (\<lambda>i. \<exists>header c t.
      nd_aead_chacha20poly1305_encrypt (Some key) (Some (build_nonce iv (of_nat i))) (Buf header)
        (Buf (fst (ms ! i) @ [snd (ms ! i)])) = Inr (c, t) \<and>
      send_all (Some (nd_record_protection_init key iv epoch)) ms cap ! i = Inr (header @ c @ t)) [0..<length ms] \<and>
    distinct (map (\<lambda>i. build_nonce iv (of_nat i)) [0..<length ms])"
proof
  show "distinct (map (\<lambda>i. build_nonce iv (of_nat i)) [0..<length ms])"
    using assms(3) by (auto simp: distinct_map inj_on_def unat_of_nat dest!: build_nonce_inj
        dest: arg_cong [where f = unat])
  show "list_all (\<lambda>i. \<exists>header c t.
      nd_aead_chacha20poly1305_encrypt (Some key) (Some (build_nonce iv (of_nat i))) (Buf header)
        (Buf (fst (ms ! i) @ [snd (ms ! i)])) = Inr (c, t) \<and>
      send_all (Some (nd_record_protection_init key iv epoch)) ms cap ! i = Inr (header @ c @ t)) [0..<length ms]"
    unfolding aead_encrypt_eq using assms(1,2)
    by (auto simp: list_all_iff [of _ "[0..<length ms]"] send_all_nth nd_record_protection_init_def record_bytes_def
        Let_def split: prod.split)
qed

theorem record_nonces_unique_witness:
  "distinct (map (\<lambda>i. build_nonce (replicate 12 7) (of_nat i)) [0..<2])"
proof -
  let ?ms = "[([1], 22), ([2], 23)] :: (byte list \<times> byte) list"
  have "list_all sendable ?ms" "2070 \<le> (4096 :: nat)" "length ?ms \<le> 2 ^ 64" by (simp_all add: sendable_def)
  from record_nonces_unique [OF this, of "[]" "replicate 12 7" 0]
  have "distinct (map (\<lambda>i. build_nonce (replicate 12 7) (of_nat i)) [0..<length ?ms])" by (rule conjunct2)
  moreover have "length ?ms = 2" by simp
  ultimately show ?thesis by (simp only:)
qed

text \<open>C4: The header that \<^verbatim>\<open>nd_record_protect\<close> writes by hand is the one \<^verbatim>\<open>nd_unified_serialize\<close> writes for the
  same fields, for every epoch, sequence number and payload.\<close>

theorem fixed_shape_header_equiv:
  assumes "length payload \<le> 0xFFFF" and "5 + length payload \<le> cap"
  shows "nd_unified_serialize (Some \<lparr>uh_cid_present = False, uh_seq_len_is_16bit = True,
      uh_length_present = True, uh_epoch_low2 = ucast (epoch AND 0x03), uh_cid = None, uh_cid_len = 0,
      uh_sequence_number = seq16, uh_length = len\<rparr>) (Buf payload) cap =
    Inr (write_fixed_shape_header (epoch AND 3) seq16 (of_nat (length payload)) @ payload)"
  using fixed_shape_serialize [OF assms] unfolding fixed_hdr_def .

theorem fixed_shape_header_equiv_witness:
  "nd_unified_serialize (Some \<lparr>uh_cid_present = False, uh_seq_len_is_16bit = True,
      uh_length_present = True, uh_epoch_low2 = ucast (6 AND 0x03 :: u16), uh_cid = None, uh_cid_len = 0,
      uh_sequence_number = 0x1234, uh_length = 0\<rparr>) (Buf [7, 8]) 64 =
    Inr (write_fixed_shape_header (6 AND 3) 0x1234 2 @ [7, 8])"
  using fixed_shape_header_equiv [of "[7, 8]" 64 6 "0x1234" 0]
  by (simp del: nd_unified_serialize.simps)

end
