(* ===== verification/X25519.thy ===== *)
theory X25519
  imports Prelude
begin

text \<open>
  X25519: \<^verbatim>\<open>src/crypto/x25519.c\<close> and \<^verbatim>\<open>include/nanodtls/x25519.h\<close>. A field element is the list of its 16
  limbs; a limb (\<^verbatim>\<open>int64_t\<close>) is an integer, and the bounds shown below keep every intermediate value
  inside 64 bits. \<^verbatim>\<open>>>\<close> on a negative limb is the arithmetic shift, as compilers implement it.
  Shown: the carry, multiplication, inversion and packing compute modulo 2 to the 255 minus 19, and the
  scalar multiplication is the Montgomery ladder of RFC 7748 on numbers modulo that prime.
\<close>

unbundle bit_operations_syntax

abbreviation (input) ND_X25519_LEN :: nat where "ND_X25519_LEN \<equiv> 32"

type_synonym fe = "int list"

section \<open>Field elements\<close>

definition fe_0 :: fe where
  "fe_0 = map (\<lambda>i. 0) [0..<16]"

definition fe_1 :: fe where
  "fe_1 = 1 # map (\<lambda>i. 0) [1..<16]"

definition fe_add :: "fe \<Rightarrow> fe \<Rightarrow> fe" where
  "fe_add a b = map (\<lambda>i. a ! i + b ! i) [0..<16]"

definition fe_sub :: "fe \<Rightarrow> fe \<Rightarrow> fe" where
  "fe_sub a b = map (\<lambda>i. a ! i - b ! i) [0..<16]"

definition fe_cswap :: "int \<Rightarrow> fe \<Rightarrow> fe \<Rightarrow> fe \<times> fe" where
  "fe_cswap swap_flag a b =
     (let mask = - swap_flag;
          dummy = map (\<lambda>i. mask AND (a ! i XOR b ! i)) [0..<16]
      in (map (\<lambda>i. a ! i XOR dummy ! i) [0..<16], map (\<lambda>i. b ! i XOR dummy ! i) [0..<16]))"

text \<open>One iteration of the loop of \<^verbatim>\<open>fe_carry\<close>.\<close>

definition fe_carry_limb :: "nat \<Rightarrow> fe \<Rightarrow> fe" where
  "fe_carry_limb i o1 =
     (let o1 = o1[i := o1 ! i + push_bit 16 1];
          raw_carry = drop_bit 16 (o1 ! i);
          carry = raw_carry - 1;
          o1 = o1[i := o1 ! i - push_bit 16 raw_carry]
      in if i < 15 then o1[i + 1 := o1 ! (i + 1) + carry]
         else o1[0 := o1 ! 0 + 38 * carry])"

definition fe_carry :: "fe \<Rightarrow> fe" where
  "fe_carry o1 = fold fe_carry_limb [0..<16] o1"

text \<open>The row \<open>i\<close> of the product, all products, and the reduction of the upper half.\<close>

definition fe_mul_row :: "fe \<Rightarrow> fe \<Rightarrow> nat \<Rightarrow> fe \<Rightarrow> fe" where
  "fe_mul_row a b i t = fold (\<lambda>j t. t[i + j := t ! (i + j) + a ! i * b ! j]) [0..<16] t"

definition fe_mul_products :: "fe \<Rightarrow> fe \<Rightarrow> fe" where
  "fe_mul_products a b = fold (fe_mul_row a b) [0..<16] (replicate 31 0)"

definition fe_mul_fold :: "fe \<Rightarrow> fe" where
  "fe_mul_fold t = fold (\<lambda>i t. t[i - 16 := t ! (i - 16) + 38 * t ! i]) [16..<31] t"

definition fe_mul :: "fe \<Rightarrow> fe \<Rightarrow> fe" where
  "fe_mul a b =
     (let t = fe_mul_products a b;
          t = fe_mul_fold t;
          o1 = map (\<lambda>i. t ! i) [0..<16];
          o1 = fe_carry o1
      in fe_carry o1)"

definition fe_sq :: "fe \<Rightarrow> fe" where
  "fe_sq a = fe_mul a a"

definition fe_inv :: "fe \<Rightarrow> fe" where
  "fe_inv a = fold (\<lambda>i c. let c = fe_sq c in if i \<noteq> 2 \<and> i \<noteq> 4 then fe_mul c a else c) (rev [0..<254]) a"

definition fe_unpack :: "byte list \<Rightarrow> fe" where
  "fe_unpack n =
     (let o1 = map (\<lambda>i. uint (n ! (2 * i)) OR push_bit 8 (uint (n ! (2 * i + 1)))) [0..<16]
      in o1[15 := o1 ! 15 AND 0x7fff])"

text \<open>One limb of the trial subtraction of the prime, one pass, and the two passes.\<close>

definition fe_pack_limb :: "fe \<Rightarrow> nat \<Rightarrow> fe \<times> int \<Rightarrow> fe \<times> int" where
  "fe_pack_limb t i = (\<lambda>(m, borrow).
     let p_limb = (if i = 0 then 0xffed else if i = 15 then 0x7fff else 0xffff);
         d = t ! i - p_limb - borrow;
         borrow = (if d < 0 then 1 else 0);
         d = (if borrow \<noteq> 0 then d + 0x10000 else d)
     in (m @ [d], borrow))"

definition fe_pack_pass :: "fe \<Rightarrow> fe" where
  "fe_pack_pass t =
     (let (m, borrow) = fold (fe_pack_limb t) [0..<16] ([], 0)
      in if borrow = 0 then m else t)"

definition fe_pack :: "fe \<Rightarrow> byte list" where
  "fe_pack n =
     (let t = fe_carry (fe_carry (fe_carry n));
          t = fe_pack_pass (fe_pack_pass t)
      in concat (map (\<lambda>i. [word_of_int (t ! i AND 0xff), word_of_int (drop_bit 8 (t ! i) AND 0xff)]) [0..<16]))"

section \<open>The ladder\<close>

definition a24 :: fe where
  "a24 = 121665 # replicate 15 0"

text \<open>The arithmetic of one iteration, after the swaps.\<close>

definition ladder_arith :: "fe \<Rightarrow> fe \<times> fe \<times> fe \<times> fe \<Rightarrow> fe \<times> fe \<times> fe \<times> fe" where
  "ladder_arith x1 = (\<lambda>(x2, z2, x3, z3).
     let A = fe_add x2 z2;
         AA = fe_sq A;
         B = fe_sub x2 z2;
         BB = fe_sq B;
         E = fe_sub AA BB;
         C = fe_add x3 z3;
         D = fe_sub x3 z3;
         DA = fe_mul D A;
         CB = fe_mul C B;
         sum = fe_add DA CB;
         x3 = fe_sq sum;
         diff = fe_sub DA CB;
         sq_diff = fe_sq diff;
         z3 = fe_mul x1 sq_diff;
         x2 = fe_mul AA BB;
         a24E = fe_mul E a24;
         aa_plus_a24e = fe_add AA a24E;
         z2 = fe_mul E aa_plus_a24e
     in (x2, z2, x3, z3))"

text \<open>One iteration of the loop over the bits of the scalar; the state holds \<^verbatim>\<open>swap\<close> and the four
  coordinates.\<close>

definition ladder_iter :: "byte list \<Rightarrow> fe \<Rightarrow> nat \<Rightarrow> int \<times> fe \<times> fe \<times> fe \<times> fe \<Rightarrow> int \<times> fe \<times> fe \<times> fe \<times> fe" where
  "ladder_iter k x1 t = (\<lambda>(swap, x2, z2, x3, z3).
     let kt = drop_bit (t mod 8) (uint (k ! (t div 8))) AND 1;
         swap = swap XOR kt;
         (x2, x3) = fe_cswap swap x2 x3;
         (z2, z3) = fe_cswap swap z2 z3
     in (kt, ladder_arith x1 (x2, z2, x3, z3)))"

definition clamp_scalar :: "byte list \<Rightarrow> byte list" where
  "clamp_scalar scalar =
     (let k = take 32 scalar;
          k = k[0 := k ! 0 AND 248];
          k = k[31 := k ! 31 AND 127]
      in k[31 := k ! 31 OR 64])"

fun nd_x25519_scalarmult :: "byte list ptr \<Rightarrow> byte list ptr \<Rightarrow> byte list result" where
  "nd_x25519_scalarmult (Some scalar) (Some u_in) =
     (let k = clamp_scalar scalar;
          x1 = fe_unpack u_in;
          (swap, x2, z2, x3, z3) = fold (ladder_iter k x1) (rev [0..<255]) (0, fe_1, fe_0, x1, fe_1);
          (x2, x3) = fe_cswap swap x2 x3;
          (z2, z3) = fe_cswap swap z2 z3;
          z2_inv = fe_inv z2;
          result = fe_mul x2 z2_inv
      in Inr (fe_pack result))"
| "nd_x25519_scalarmult scalar u_in = Inl ND_ERR_BAD_ARG"

definition nd_x25519_base :: "byte list ptr \<Rightarrow> byte list result" where
  "nd_x25519_base scalar = (let base = 9 # replicate 31 0 in nd_x25519_scalarmult scalar (Some base))"

section \<open>Limbs as numbers\<close>

primrec fval :: "fe \<Rightarrow> int" where
  "fval [] = 0"
| "fval (x # xs) = x + 2 ^ 16 * fval xs"

abbreviation (input) P25519 :: int where "P25519 \<equiv> 2 ^ 255 - 19"

lemma fval_append: "fval (xs @ ys) = fval xs + 2 ^ (16 * length xs) * fval ys"
  by (induction xs) (simp_all add: algebra_simps power_add)

lemma fval_update: "k < length xs \<Longrightarrow> fval (xs[k := x]) = fval xs + 2 ^ (16 * k) * (x - xs ! k)"
proof (induction xs arbitrary: k)
  case (Cons y ys)
  show ?case using Cons.prems by (cases k) (simp_all add: Cons.IH algebra_simps power_add)
qed simp

lemma fval_replicate0 [simp]: "fval (replicate n 0) = 0"
  by (induction n) simp_all

lemma fval_nonneg_bound:
  "list_all (\<lambda>x. 0 \<le> x \<and> x < 2 ^ 16) xs \<Longrightarrow> 0 \<le> fval xs \<and> fval xs < 2 ^ (16 * length xs)"
proof (induction xs)
  case (Cons x xs)
  have "fval (x # xs) \<le> (2 ^ 16 - 1) + 2 ^ 16 * (2 ^ (16 * length xs) - 1)"
    using Cons by simp
  also have "\<dots> < 2 ^ (16 * length (x # xs))" by (simp add: power_add)
  finally show ?case using Cons by simp
qed simp

lemma fval_abs_bound:
  "list_all (\<lambda>x. \<bar>x\<bar> \<le> B) xs \<Longrightarrow> 0 \<le> B \<Longrightarrow> \<bar>fval xs\<bar> * (2 ^ 16 - 1) \<le> B * (2 ^ (16 * length xs) - 1)"
proof (induction xs)
  case (Cons x xs)
  have "\<bar>fval (x # xs)\<bar> \<le> \<bar>x\<bar> + \<bar>2 ^ 16 * fval xs\<bar>"
    unfolding fval.simps by (rule abs_triangle_ineq)
  then have "\<bar>fval (x # xs)\<bar> \<le> B + 2 ^ 16 * \<bar>fval xs\<bar>"
    using Cons.prems by (simp add: abs_mult)
  then have "\<bar>fval (x # xs)\<bar> * (2 ^ 16 - 1) \<le> (B + 2 ^ 16 * \<bar>fval xs\<bar>) * (2 ^ 16 - 1)"
    by (rule mult_right_mono) simp
  also have "\<dots> = B * (2 ^ 16 - 1) + 2 ^ 16 * (\<bar>fval xs\<bar> * (2 ^ 16 - 1))" by (simp add: algebra_simps)
  also have "\<dots> \<le> B * (2 ^ 16 - 1) + 2 ^ 16 * (B * (2 ^ (16 * length xs) - 1))"
    using Cons by simp
  also have "\<dots> = B * (2 ^ (16 * length (x # xs)) - 1)" by (simp add: algebra_simps power_add)
  finally show ?case .
qed simp

section \<open>Carries\<close>

lemma fe_carry_limb_eq:
  "i < length o1 \<Longrightarrow> fe_carry_limb i o1 =
     (let c = o1 ! i div 2 ^ 16; o2 = o1[i := o1 ! i mod 2 ^ 16]
      in if i < 15 then o2[i + 1 := o2 ! (i + 1) + c] else o2[0 := o2 ! 0 + 38 * c])"
proof -
  assume i: "i < length o1"
  have raw: "drop_bit 16 (x + 65536) = x div 65536 + 1" for x :: int
    by (simp add: drop_bit_eq_div push_bit_eq_mult)
  have low: "x + 65536 - push_bit 16 (x div 65536 + 1) = x mod 65536" for x :: int
    by (simp add: push_bit_eq_mult algebra_simps minus_div_mult_eq_mod [symmetric])
  show ?thesis using i unfolding fe_carry_limb_def Let_def by (simp add: raw low)
qed

text \<open>The limbs below the current one are final, those above it untouched, the value is kept.\<close>

lemma fe_carry_prefix:
  assumes "length o1 = 16" and "n \<le> 15"
  shows "let o2 = fold fe_carry_limb [0..<n] o1 in
    length o2 = 16 \<and> fval o2 = fval o1 \<and> list_all (\<lambda>x. 0 \<le> x \<and> x < 2 ^ 16) (take n o2) \<and>
    (\<forall>k. n < k \<and> k < 16 \<longrightarrow> o2 ! k = o1 ! k) \<and> (0 < n \<longrightarrow> o2 ! 0 = o1 ! 0 mod 2 ^ 16)"
  using assms(2)
proof (induction n)
  case 0
  then show ?case using assms(1) by simp
next
  case (Suc n)
  define o2 where "o2 = fold fe_carry_limb [0..<n] o1"
  note IH = Suc.IH [folded o2_def, unfolded Let_def]
  have n: "n < 15" "n < 16" "n < length o2" "n + 1 < length o2" using Suc.prems IH by simp_all
  let ?o3 = "o2[n := o2 ! n mod 2 ^ 16, n + 1 := o2 ! (n + 1) + o2 ! n div 2 ^ 16]"
  have step: "fold fe_carry_limb [0..<Suc n] o1 = ?o3"
    using n by (simp add: o2_def [symmetric] fe_carry_limb_eq Let_def)
  have "fval ?o3 = fval o2 + 2 ^ (16 * n) * (o2 ! n mod 2 ^ 16 - o2 ! n) + 2 ^ (16 * (n + 1)) * (o2 ! n div 2 ^ 16)"
    using n by (simp add: fval_update)
  also have "o2 ! n mod 2 ^ 16 - o2 ! n = - (2 ^ 16 * (o2 ! n div 2 ^ 16))"
    by (simp add: minus_mod_eq_mult_div [symmetric])
  finally have "fval ?o3 = fval o1" using IH Suc.prems by (simp add: power_add)
  moreover have "take (Suc n) ?o3 = take n o2 @ [o2 ! n mod 2 ^ 16]"
    using n by (simp add: take_Suc_conv_app_nth take_update_cancel)
  moreover have "n = 0 \<longrightarrow> o2 = o1" by (simp add: o2_def)
  ultimately show ?case
    using IH n assms(1) unfolding step Let_def by (auto simp: nth_list_update)
qed

lemma fe_carry_spec:
  assumes "length o1 = 16"
  defines "c \<equiv> fval o1 div 2 ^ 256"
  shows "length (fe_carry o1) = 16" and "fval (fe_carry o1) = fval o1 - c * (2 ^ 256 - 38)"
    and "list_all (\<lambda>x. 0 \<le> x \<and> x < 2 ^ 16) (tl (fe_carry o1))"
    and "hd (fe_carry o1) = o1 ! 0 mod 2 ^ 16 + 38 * c"
proof -
  define o2 where "o2 = fold fe_carry_limb [0..<15] o1"
  have P: "length o2 = 16" "fval o2 = fval o1" "list_all (\<lambda>x. 0 \<le> x \<and> x < 2 ^ 16) (take 15 o2)"
      "o2 ! 0 = o1 ! 0 mod 2 ^ 16"
    using fe_carry_prefix [OF assms(1), of 15] unfolding o2_def [symmetric] Let_def by simp_all
  have "o2 = take 15 o2 @ [o2 ! 15]" using P(1) by (simp add: take_Suc_conv_app_nth [symmetric])
  then have V: "fval o1 = fval (take 15 o2) + 2 ^ 240 * (o2 ! 15)"
    using fval_append [of "take 15 o2" "[o2 ! 15]"] P(1,2) by simp
  moreover have L: "0 \<le> fval (take 15 o2)" "fval (take 15 o2) < 2 ^ 240"
    using fval_nonneg_bound [OF P(3)] P(1) by simp_all
  ultimately have "fval o1 div 2 ^ 240 = o2 ! 15" by simp
  then have c: "c = o2 ! 15 div 2 ^ 16"
    unfolding c_def using zdiv_zmult2_eq [of "2 ^ 16" "fval o1" "2 ^ 240"] by simp
  have step: "fe_carry o1 = o2[15 := o2 ! 15 mod 2 ^ 16, 0 := o2 ! 0 + 38 * c]"
  proof -
    have "[0..<16] = [0..<15] @ [15 :: nat]" by (simp add: upt_Suc_append [symmetric] del: upt_Suc)
    then show ?thesis
      using P(1) by (simp add: fe_carry_def o2_def [symmetric] fe_carry_limb_eq Let_def c del: upt_rec_numeral)
  qed
  show "length (fe_carry o1) = 16" by (simp add: step P(1))
  show "hd (fe_carry o1) = o1 ! 0 mod 2 ^ 16 + 38 * c"
    unfolding step using P(1,4) by (subst hd_conv_nth) auto
  show "fval (fe_carry o1) = fval o1 - c * (2 ^ 256 - 38)"
  proof -
    have "fval (fe_carry o1) = fval o2 + 2 ^ 240 * (o2 ! 15 mod 2 ^ 16 - o2 ! 15) + 38 * c"
      using P(1) by (simp add: step fval_update)
    also have "o2 ! 15 mod 2 ^ 16 - o2 ! 15 = - (2 ^ 16 * c)" unfolding c by (simp add: minus_mod_eq_mult_div [symmetric])
    finally show ?thesis by (simp add: P(2) algebra_simps)
  qed
  show "list_all (\<lambda>x. 0 \<le> x \<and> x < 2 ^ 16) (tl (fe_carry o1))"
    using P(1,3) by (auto simp: step list_all_length nth_tl nth_list_update)
qed

section \<open>Multiplication\<close>

lemma nth_bound: "list_all (\<lambda>x. \<bar>x\<bar> \<le> B) xs \<Longrightarrow> k < length xs \<Longrightarrow> \<bar>xs ! k\<bar> \<le> B" for xs :: "int list"
  by (simp add: list_all_length)

lemma fe_mul_row_prefix:
  assumes "length t = 31" and "i < 16" and "length b = 16" and "n \<le> 16"
  shows "let t' = fold (\<lambda>j t. t[i + j := t ! (i + j) + a ! i * b ! j]) [0..<n] t in
    length t' = 31 \<and> fval t' = fval t + 2 ^ (16 * i) * (a ! i * fval (take n b)) \<and>
    (\<forall>k<31. t' ! k = t ! k + (if i \<le> k \<and> k < i + n then a ! i * b ! (k - i) else 0))"
  using assms(4)
proof (induction n)
  case 0
  then show ?case using assms(1) by simp
next
  case (Suc n)
  define u where "u = fold (\<lambda>j t. t[i + j := t ! (i + j) + a ! i * b ! j]) [0..<n] t"
  note IH = Suc.IH [folded u_def, unfolded Let_def]
  have n: "n < 16" "i + n < length u" using Suc.prems assms(2) IH by simp_all
  have step: "fold (\<lambda>j t. t[i + j := t ! (i + j) + a ! i * b ! j]) [0..<Suc n] t = u[i + n := u ! (i + n) + a ! i * b ! n]"
    by (simp add: u_def)
  have "take (Suc n) b = take n b @ [b ! n]" using n assms(3) by (simp add: take_Suc_conv_app_nth)
  then have "fval (take (Suc n) b) = fval (take n b) + 2 ^ (16 * n) * b ! n"
    using n assms(3) by (simp add: fval_append)
  then have "fval (u[i + n := u ! (i + n) + a ! i * b ! n]) = fval t + 2 ^ (16 * i) * (a ! i * fval (take (Suc n) b))"
    using IH Suc.prems n by (simp add: fval_update algebra_simps power_add)
  then show ?case
    using IH Suc.prems n unfolding step Let_def by (auto simp: nth_list_update)
qed

lemma fe_mul_row_ok:
  assumes "length t = 31" and "i < 16" and "length b = 16"
  shows "length (fe_mul_row a b i t) = 31"
    and "fval (fe_mul_row a b i t) = fval t + 2 ^ (16 * i) * (a ! i * fval b)"
    and "list_all (\<lambda>x. \<bar>x\<bar> \<le> T) t \<Longrightarrow> \<bar>a ! i\<bar> \<le> A \<Longrightarrow> list_all (\<lambda>x. \<bar>x\<bar> \<le> B) b \<Longrightarrow>
      list_all (\<lambda>x. \<bar>x\<bar> \<le> T + A * B) (fe_mul_row a b i t)"
proof -
  note row = fe_mul_row_prefix [OF assms, of 16 a, folded fe_mul_row_def, unfolded Let_def]
  show "length (fe_mul_row a b i t) = 31"
    and "fval (fe_mul_row a b i t) = fval t + 2 ^ (16 * i) * (a ! i * fval b)"
    using row assms(3) by simp_all
  assume T: "list_all (\<lambda>x. \<bar>x\<bar> \<le> T) t" and A: "\<bar>a ! i\<bar> \<le> A" and B: "list_all (\<lambda>x. \<bar>x\<bar> \<le> B) b"
  have AB: "\<bar>a ! i * b ! j\<bar> \<le> A * B" if "j < 16" for j
    using that A nth_bound [OF B, of j] assms(3) by (simp add: abs_mult mult_mono)
  then have "0 \<le> A * B" using abs_ge_zero order_trans zero_less_numeral by blast
  then have "\<bar>fe_mul_row a b i t ! k\<bar> \<le> T + A * B" if "k < 31" for k
  proof (cases "i \<le> k \<and> k < i + 16")
    case True
    then have "fe_mul_row a b i t ! k = t ! k + a ! i * b ! (k - i)" using row that by simp
    moreover have "k - i < 16" using True by linarith
    ultimately show ?thesis using nth_bound [OF T, of k] AB [of "k - i"] that assms(1) by linarith
  next
    case False
    then have "fe_mul_row a b i t ! k = t ! k" using row that by auto
    then show ?thesis using nth_bound [OF T, of k] that assms(1) \<open>0 \<le> A * B\<close> by linarith
  qed
  then show "list_all (\<lambda>x. \<bar>x\<bar> \<le> T + A * B) (fe_mul_row a b i t)" using row by (simp add: list_all_length)
qed

lemma fe_mul_products_prefix:
  assumes "length a = 16" and "length b = 16" and "n \<le> 16"
    and "list_all (\<lambda>x. \<bar>x\<bar> \<le> A) a" and "list_all (\<lambda>x. \<bar>x\<bar> \<le> B) b"
  shows "let t = fold (fe_mul_row a b) [0..<n] (replicate 31 0) in
    length t = 31 \<and> fval t = fval (take n a) * fval b \<and> list_all (\<lambda>x. \<bar>x\<bar> \<le> int n * (A * B)) t"
  using assms(3)
proof (induction n)
  case 0
  then show ?case by (simp add: list_all_length)
next
  case (Suc n)
  define t where "t = fold (fe_mul_row a b) [0..<n] (replicate 31 0)"
  note IH = Suc.IH [folded t_def, unfolded Let_def]
  have n: "n < 16" "length t = 31" using Suc.prems IH by simp_all
  have "take (Suc n) a = take n a @ [a ! n]" using n assms(1) by (simp add: take_Suc_conv_app_nth)
  then have "fval (take (Suc n) a) = fval (take n a) + 2 ^ (16 * n) * a ! n"
    using n assms(1) by (simp add: fval_append)
  then have "fval (fe_mul_row a b n t) = fval (take (Suc n) a) * fval b"
    using IH Suc.prems n fe_mul_row_ok(2) [OF n(2,1) assms(2), of a] by (simp add: algebra_simps)
  moreover have "list_all (\<lambda>x. \<bar>x\<bar> \<le> int n * (A * B) + A * B) (fe_mul_row a b n t)"
    using IH Suc.prems n nth_bound [OF assms(4), of n] assms(1,5)
    by (intro fe_mul_row_ok(3) [OF n(2,1) assms(2)]) simp_all
  moreover have "int n * (A * B) + A * B = int (Suc n) * (A * B)" by (simp add: algebra_simps)
  ultimately show ?case
    using fe_mul_row_ok(1) [OF n(2,1) assms(2)] by (simp add: t_def [symmetric] Let_def)
qed

lemma fe_mul_fold_prefix:
  assumes "length t = 31" and "n \<le> 15"
  shows "let t' = fold (\<lambda>i t. t[i - 16 := t ! (i - 16) + 38 * t ! i]) [16..<16 + n] t in
    length t' = 31 \<and> (\<forall>k<31. t' ! k = t ! k + (if k < n then 38 * t ! (k + 16) else 0)) \<and>
    fval t' = fval t + 38 * fval (take n (drop 16 t))"
  using assms(2)
proof (induction n)
  case 0
  then show ?case using assms(1) by simp
next
  case (Suc n)
  define u where "u = fold (\<lambda>i t. t[i - 16 := t ! (i - 16) + 38 * t ! i]) [16..<16 + n] t"
  note IH = Suc.IH [folded u_def, unfolded Let_def]
  have step: "fold (\<lambda>i t. t[i - 16 := t ! (i - 16) + 38 * t ! i]) [16..<16 + Suc n] t =
      u[n := u ! n + 38 * u ! (n + 16)]"
  proof -
    have "[16..<16 + Suc n] = [16..<16 + n] @ [16 + n]" unfolding add_Suc_right by (rule upt_Suc_append) simp
    then show ?thesis unfolding u_def by (simp only: fold_append comp_apply fold_simps) (simp add: add.commute)
  qed
  have un: "u ! (n + 16) = t ! (n + 16)" "n < length u" using IH Suc.prems by simp_all
  have "take (Suc n) (drop 16 t) = take n (drop 16 t) @ [t ! (n + 16)]"
    using Suc.prems assms(1) by (simp add: take_Suc_conv_app_nth add.commute)
  then have "fval (take (Suc n) (drop 16 t)) = fval (take n (drop 16 t)) + 2 ^ (16 * n) * t ! (n + 16)"
    using Suc.prems assms(1) by (simp add: fval_append)
  then have "fval (u[n := u ! n + 38 * u ! (n + 16)]) = fval t + 38 * fval (take (Suc n) (drop 16 t))"
    using IH Suc.prems un by (simp add: fval_update)
  then show ?case
    using IH Suc.prems un unfolding step Let_def by (auto simp: nth_list_update)
qed

text \<open>A reduced element: what \<^verbatim>\<open>fe_mul\<close> returns.\<close>

definition fe_reduced :: "fe \<Rightarrow> bool" where
  "fe_reduced a \<longleftrightarrow> length a = 16 \<and> - 38 \<le> hd a \<and> hd a < 2 ^ 16 + 38 \<and> list_all (\<lambda>x. 0 \<le> x \<and> x < 2 ^ 16) (tl a)"

text \<open>What \<^verbatim>\<open>fe_mul\<close> accepts: reduced elements and sums and differences of two of them.\<close>

definition fe_wide :: "fe \<Rightarrow> bool" where
  "fe_wide a \<longleftrightarrow> length a = 16 \<and> list_all (\<lambda>x. \<bar>x\<bar> \<le> 2 ^ 18) a"

lemma fe_mul_folded:
  assumes "fe_wide a" and "fe_wide b"
  defines "o1 \<equiv> map (\<lambda>i. fe_mul_fold (fe_mul_products a b) ! i) [0..<16]"
  shows "length o1 = 16" and "\<exists>q. fval o1 = fval a * fval b - q * (2 ^ 256 - 38)"
    and "list_all (\<lambda>x. \<bar>x\<bar> \<le> 2 ^ 46) o1"
    and "list_all (\<lambda>x. \<bar>x\<bar> \<le> 2 ^ 40) (fe_mul_products a b)"
proof -
  define t where "t = fe_mul_products a b"
  have t: "length t = 31" "fval t = fval a * fval b" "list_all (\<lambda>x. \<bar>x\<bar> \<le> 2 ^ 40) t"
    using fe_mul_products_prefix [of a b 16 "2 ^ 18" "2 ^ 18"] assms(1,2)
    by (simp_all add: t_def fe_mul_products_def fe_wide_def Let_def del: upt_rec_numeral)
  then show "list_all (\<lambda>x. \<bar>x\<bar> \<le> 2 ^ 40) (fe_mul_products a b)" unfolding t_def by blast
  define u where "u = fe_mul_fold t"
  have u: "length u = 31" "\<forall>k<31. u ! k = t ! k + (if k < 15 then 38 * t ! (k + 16) else 0)"
      "fval u = fval t + 38 * fval (drop 16 t)"
    using fe_mul_fold_prefix [OF t(1), of 15] t(1) by (simp_all add: u_def fe_mul_fold_def Let_def del: upt_rec_numeral)
  have o1: "o1 = take 16 u" using u(1) by (simp add: o1_def u_def t_def take_map_nth del: upt_rec_numeral)
  show "length o1 = 16" by (simp add: o1 u(1))
  have "drop 16 u = drop 16 t" using u(1,2) t(1) by (intro nth_equalityI) simp_all
  then have "u = take 16 u @ drop 16 t" by (metis append_take_drop_id)
  then have "fval u = fval o1 + 2 ^ (16 * length (take 16 u)) * fval (drop 16 t)"
    unfolding o1 by (metis fval_append)
  then have "fval u = fval o1 + 2 ^ 256 * fval (drop 16 t)" using u(1) by simp
  then have "fval o1 = fval a * fval b - fval (drop 16 t) * (2 ^ 256 - 38)"
    using u(3) t(2) by (simp add: algebra_simps)
  then show "\<exists>q. fval o1 = fval a * fval b - q * (2 ^ 256 - 38)" by blast
  have "\<bar>u ! k\<bar> \<le> 2 ^ 46" if "k < 16" for k
    using u(2) that nth_bound [OF t(3), of k] nth_bound [OF t(3), of "k + 16"] t(1)
    by (cases "k < 15") (simp_all add: abs_le_iff)
  then show "list_all (\<lambda>x. \<bar>x\<bar> \<le> 2 ^ 46) o1" using u(1) by (simp add: o1 list_all_length)
qed

lemma fe_reduced_val: "fe_reduced a \<Longrightarrow> - 38 \<le> fval a \<and> fval a < 2 ^ 256 + 38"
proof -
  assume a: "fe_reduced a"
  then obtain x xs where x: "a = x # xs" by (cases a) (simp_all add: fe_reduced_def)
  then have "0 \<le> fval xs" "fval xs < 2 ^ 240" "- 38 \<le> x" "x < 2 ^ 16 + 38"
    using a fval_nonneg_bound [of xs] by (simp_all add: fe_reduced_def)
  then show ?thesis unfolding x by simp
qed

text \<open>One carry makes a bounded element nearly reduced, two make it reduced.\<close>

lemma fe_carry_twice:
  assumes "length o1 = 16" and "list_all (\<lambda>x. \<bar>x\<bar> \<le> 2 ^ 46) o1"
  shows "fe_reduced (fe_carry (fe_carry o1)) \<and> (\<exists>q. fval (fe_carry (fe_carry o1)) = fval o1 - q * (2 ^ 256 - 38))"
proof -
  define c where "c = fval o1 div 2 ^ 256"
  define o2 where "o2 = fe_carry o1"
  note s1 = fe_carry_spec [OF assms(1), folded c_def o2_def]
  have "\<bar>fval o1\<bar> * 65535 \<le> 2 ^ 46 * (2 ^ 256 - 1)" using fval_abs_bound [OF assms(2)] assms(1) by simp
  then have "\<bar>fval o1\<bar> < 2 ^ 31 * 2 ^ 256" by simp
  then have V: "- (2 ^ 31 * 2 ^ 256) \<le> fval o1" "fval o1 < 2 ^ 31 * 2 ^ 256"
    unfolding abs_less_iff by linarith+
  have c: "- (2 ^ 31) \<le> c" "c < 2 ^ 31"
    unfolding c_def using V(2) zdiv_mono1 [OF V(1), of "2 ^ 256"]
      zdiv_mono1 [of "fval o1" "2 ^ 31 * 2 ^ 256 - 1" "2 ^ 256"] by simp_all
  obtain x xs where x: "o2 = x # xs" using s1(1) by (cases o2) simp_all
  have xs: "0 \<le> fval xs" "fval xs < 2 ^ 240" using s1(1,3) x fval_nonneg_bound [of xs] by simp_all
  have "0 \<le> o1 ! 0 mod 2 ^ 16" "o1 ! 0 mod 2 ^ 16 < 2 ^ 16" by simp_all
  then have "- (2 ^ 37) \<le> x" "x < 2 ^ 37" using s1(4) c x by simp_all
  then have W: "- (2 ^ 37) \<le> fval o2" "fval o2 < 2 ^ 256 + 2 ^ 37" using xs x by simp_all
  define d where "d = fval o2 div 2 ^ 256"
  have d: "- 1 \<le> d" "d \<le> 1"
    unfolding d_def using zdiv_mono1 [OF W(1), of "2 ^ 256"] zdiv_mono1 [OF less_imp_le [OF W(2)], of "2 ^ 256"] by simp_all
  note s2 = fe_carry_spec [OF s1(1), folded d_def]
  have "0 \<le> o2 ! 0 mod 2 ^ 16" "o2 ! 0 mod 2 ^ 16 < 2 ^ 16" by simp_all
  then have "- 38 \<le> hd (fe_carry o2)" "hd (fe_carry o2) < 2 ^ 16 + 38" using s2(4) d by linarith+
  then have "fe_reduced (fe_carry o2)" using s2(1,3) by (simp add: fe_reduced_def)
  moreover have "fval (fe_carry o2) = fval o1 - (c + d) * (2 ^ 256 - 38)" using s1(2) s2(2) by (simp add: algebra_simps)
  ultimately show ?thesis unfolding o2_def by blast
qed

lemma mod_P25519: "x = y - q * (2 ^ 256 - 38) \<Longrightarrow> x mod P25519 = y mod P25519" for x y q :: int
proof -
  assume "x = y - q * (2 ^ 256 - 38)"
  then have "y = x + (2 * q) * P25519" by simp
  then show ?thesis by (simp only: mod_mult_self1)
qed

lemma fe_mul_ok:
  assumes "fe_wide a" and "fe_wide b"
  shows "fe_reduced (fe_mul a b)" and "fval (fe_mul a b) mod P25519 = (fval a * fval b) mod P25519"
proof -
  note f = fe_mul_folded [OF assms]
  note c = fe_carry_twice [OF f(1,3)]
  then show "fe_reduced (fe_mul a b)" by (simp only: fe_mul_def Let_def)
  show "fval (fe_mul a b) mod P25519 = (fval a * fval b) mod P25519"
    using c f(2) mod_P25519 unfolding fe_mul_def Let_def by metis
qed

section \<open>Sums, swaps and inversion\<close>

lemma nth_limbs: "fe_reduced a \<Longrightarrow> k < 16 \<Longrightarrow> - 38 \<le> a ! k \<and> a ! k < 2 ^ 16 + 38"
proof -
  assume a: "fe_reduced a" and k: "k < 16"
  then obtain x xs where "a = x # xs" by (cases a) (simp_all add: fe_reduced_def)
  then show ?thesis using a k by (cases k) (auto simp: fe_reduced_def list_all_length)
qed

lemma fe_reduced_length: "fe_reduced a \<Longrightarrow> length a = 16"
  by (simp add: fe_reduced_def)

lemma fe_reduced_wide: "fe_reduced a \<Longrightarrow> fe_wide a"
proof -
  assume a: "fe_reduced a"
  have "\<bar>a ! k\<bar> \<le> 2 ^ 18" if "k < 16" for k using nth_limbs [OF a that] by (simp add: abs_le_iff)
  then show ?thesis using a by (simp add: fe_wide_def fe_reduced_def list_all_length)
qed

lemma fval_map2:
  "length a = length b \<Longrightarrow> fval (map2 (+) a b) = fval a + fval b \<and> fval (map2 (-) a b) = fval a - fval b"
  by (induction a b rule: list_induct2) (simp_all add: algebra_simps)

lemma map2_upt: "length a = 16 \<Longrightarrow> length b = 16 \<Longrightarrow> map (\<lambda>i. f (a ! i) (b ! i)) [0..<16] = map2 f a b"
  by (rule nth_equalityI) (simp_all del: upt_rec_numeral)

lemma fe_add_ok:
  assumes "fe_reduced a" and "fe_reduced b"
  shows "fe_wide (fe_add a b)" and "fval (fe_add a b) = fval a + fval b"
    and "fe_wide (fe_sub a b)" and "fval (fe_sub a b) = fval a - fval b"
proof -
  have l: "length a = 16" "length b = 16" using assms by (simp_all add: fe_reduced_length)
  show "fval (fe_add a b) = fval a + fval b" "fval (fe_sub a b) = fval a - fval b"
    using fval_map2 [of a b] l map2_upt [OF l, of "(+)"] map2_upt [OF l, of "(-)"]
    by (simp_all add: fe_add_def fe_sub_def del: upt_rec_numeral)
  have b: "\<bar>a ! k + b ! k\<bar> \<le> 2 ^ 18" "\<bar>a ! k - b ! k\<bar> \<le> 2 ^ 18" if "k < 16" for k
    using nth_limbs [OF assms(1) that] nth_limbs [OF assms(2) that] by (simp_all add: abs_le_iff)
  show "fe_wide (fe_add a b)" "fe_wide (fe_sub a b)"
    using b by (simp_all add: fe_wide_def fe_add_def fe_sub_def list_all_length del: upt_rec_numeral)
qed

lemma fe_cswap_ok:
  assumes "length a = 16" and "length b = 16"
  shows "fe_cswap 0 a b = (a, b)" and "fe_cswap 1 a b = (b, a)"
proof -
  have x: "x XOR (x XOR y) = y" "y XOR (x XOR y) = x" for x y :: int
    by (simp_all add: xor.assoc [symmetric]) (simp add: xor.commute [of y x] xor.assoc)
  show "fe_cswap 0 a b = (a, b)" and "fe_cswap 1 a b = (b, a)"
    using assms by (auto simp: fe_cswap_def Let_def x intro!: nth_equalityI simp del: upt_rec_numeral)
qed

lemma fe_sq_ok:
  "fe_wide a \<Longrightarrow> fe_reduced (fe_sq a)" "fe_wide a \<Longrightarrow> fval (fe_sq a) mod P25519 = fval a ^ 2 mod P25519"
  unfolding fe_sq_def power2_eq_square by (rule fe_mul_ok; assumption)+

definition inv_exponent :: "nat list \<Rightarrow> nat \<Rightarrow> nat" where
  "inv_exponent is e = fold (\<lambda>i e. if i \<noteq> 2 \<and> i \<noteq> 4 then 2 * e + 1 else 2 * e) is e"

lemma fe_inv_chain:
  assumes "fe_reduced a" and "fe_reduced c" and "fval c mod P25519 = fval a ^ e mod P25519"
  defines "f \<equiv> \<lambda>i c. let c = fe_sq c in if i \<noteq> 2 \<and> i \<noteq> 4 then fe_mul c a else c"
  shows "fe_reduced (fold f is c) \<and> fval (fold f is c) mod P25519 = fval a ^ inv_exponent is e mod P25519"
  using assms(2,3)
proof (induction "is" arbitrary: c e)
  case Nil
  then show ?case by (simp add: inv_exponent_def)
next
  case (Cons i "is")
  have sq: "fe_reduced (fe_sq c)" "fval (fe_sq c) mod P25519 = fval a ^ (2 * e) mod P25519"
  proof -
    have w: "fe_wide c" using Cons.prems(1) by (rule fe_reduced_wide)
    show "fe_reduced (fe_sq c)" by (rule fe_sq_ok(1) [OF w])
    have "fval (fe_sq c) mod P25519 = (fval c mod P25519) ^ 2 mod P25519"
      by (simp only: fe_sq_ok(2) [OF w] power_mod)
    then show "fval (fe_sq c) mod P25519 = fval a ^ (2 * e) mod P25519"
      by (simp only: Cons.prems(2) power_mod) (simp only: power_mult [symmetric] mult.commute)
  qed
  have mul: "fe_reduced (fe_mul (fe_sq c) a)" "fval (fe_mul (fe_sq c) a) mod P25519 = fval a ^ (2 * e + 1) mod P25519"
  proof -
    note m = fe_mul_ok [OF fe_reduced_wide [OF sq(1)] fe_reduced_wide [OF assms(1)]]
    show "fe_reduced (fe_mul (fe_sq c) a)" by (rule m(1))
    have "fval (fe_mul (fe_sq c) a) mod P25519 = ((fval (fe_sq c) mod P25519) * fval a) mod P25519"
      by (simp only: m(2) mod_mult_left_eq)
    then show "fval (fe_mul (fe_sq c) a) mod P25519 = fval a ^ (2 * e + 1) mod P25519"
      by (simp only: sq(2) mod_mult_left_eq) (simp only: power_add power_one_right)
  qed
  show ?case
    using Cons.IH [OF sq] Cons.IH [OF mul] by (simp add: f_def Let_def inv_exponent_def)
qed

lemma inv_exponent_value: "inv_exponent (rev [0..<254]) 1 = 2 ^ 255 - 21"
  by code_simp

lemma fe_inv_ok:
  assumes "fe_reduced a"
  shows "fe_reduced (fe_inv a)" and "fval (fe_inv a) mod P25519 = fval a ^ (2 ^ 255 - 21) mod P25519"
  using fe_inv_chain [OF assms assms, of 1 "rev [0..<254]"]
  unfolding inv_exponent_value fe_inv_def by (simp_all only: power_one_right)

section \<open>Reading and writing field elements\<close>

lemma fval_le_pairs:
  "2 * m \<le> length n \<Longrightarrow>
   fval (map (\<lambda>i. uint (n ! (2 * i)) + 256 * uint (n ! (2 * i + 1))) [0..<m]) = int (le_nat (take (2 * m) n))"
proof (induction m)
  case (Suc m)
  have "take (2 * Suc m) n = take (2 * m) n @ [n ! (2 * m), n ! (2 * m + 1)]"
    using Suc.prems by (simp add: take_Suc_conv_app_nth)
  then have "le_nat (take (2 * Suc m) n) =
      le_nat (take (2 * m) n) + 256 ^ (2 * m) * (unat (n ! (2 * m)) + 256 * unat (n ! (2 * m + 1)))"
    using Suc.prems by (simp add: le_nat_append)
  moreover have "(256 :: int) ^ (2 * m) = 2 ^ (16 * m)" by (simp add: power_mult)
  ultimately show ?case using Suc by (simp add: fval_append algebra_simps)
qed simp

lemma byte_pair_or: "uint (a :: byte) OR push_bit 8 (uint (b :: byte)) = uint a + 256 * uint b"
proof -
  have "uint a AND push_bit 8 (uint b) = 0"
    by (rule bit_eqI) (auto simp: bit_simps dest: bit_imp_le_length)
  then show ?thesis by (simp add: disjunctive_add_eq_or [symmetric] push_bit_eq_mult)
qed

lemma uint_byte_range: "0 \<le> uint (b :: byte)" "uint b < 256"
  using uint_lt2p [of b] by simp_all

lemma pair_range: "0 \<le> uint a + 256 * uint b \<and> uint a + 256 * uint b < 2 ^ 16" for a b :: byte
  using uint_byte_range [of a] uint_byte_range [of b] by simp

lemma fe_unpack_ok:
  assumes "length n = 32"
  shows "fe_reduced (fe_unpack n)" and "fval (fe_unpack n) = int (le_nat n mod 2 ^ 255)"
proof -
  let ?g = "\<lambda>i. uint (n ! (2 * i)) + 256 * uint (n ! (2 * i + 1))"
  define L where "L = map ?g [0..<15]"
  define r where "r = ?g 15"
  have l: "map ?g [0..<16] = L @ [r]"
  proof -
    have "[0..<16] = [0..<15] @ [15 :: nat]" by (simp add: upt_Suc_append [symmetric] del: upt_Suc)
    then show ?thesis by (simp only: L_def r_def map_append list.map)
  qed
  have L: "length L = 15" "list_all (\<lambda>x. 0 \<le> x \<and> x < 2 ^ 16) L"
    using pair_range by (simp_all add: L_def list_all_length del: upt_rec_numeral)
  have "r AND 0x7fff = r mod 2 ^ 15"
    using take_bit_eq_mask [of 15 r] by (simp add: mask_numeral take_bit_eq_mod)
  then have un: "fe_unpack n = L @ [r mod 2 ^ 15]"
    using L(1) unfolding fe_unpack_def byte_pair_or Let_def l by (simp add: list_update_append nth_append)
  have "r mod 2 ^ 15 < 2 ^ 16" "0 \<le> r mod 2 ^ 15" using pos_mod_bound [of "2 ^ 15" r] by simp_all
  then have "list_all (\<lambda>x. 0 \<le> x \<and> x < 2 ^ 16) (fe_unpack n)" "length (fe_unpack n) = 16"
    using L by (simp_all add: un)
  then show "fe_reduced (fe_unpack n)" by (cases "fe_unpack n") (simp_all add: fe_reduced_def)
  have v: "fval (fe_unpack n) = fval L + 2 ^ 240 * (r mod 2 ^ 15)"
    using fval_append [of L "[r mod 2 ^ 15]"] L(1) by (simp add: un)
  have "int (le_nat n) = fval L + 2 ^ 240 * r"
    using fval_le_pairs [of 16 n] assms L(1) fval_append [of L "[r]"] by (simp only: l) simp
  also have "\<dots> = fval L + 2 ^ 240 * (r mod 2 ^ 15 + 2 ^ 15 * (r div 2 ^ 15))" by (simp only: mod_mult_div_eq)
  also have "\<dots> = fval (fe_unpack n) + 2 ^ 255 * (r div 2 ^ 15)" unfolding v distrib_left by simp
  finally have "int (le_nat n) = fval (fe_unpack n) + 2 ^ 255 * (r div 2 ^ 15)" .
  moreover have "0 \<le> fval (fe_unpack n)" "fval (fe_unpack n) < 2 ^ 255"
  proof -
    define m where "m = r mod 2 ^ 15"
    have "0 \<le> m" "m < 2 ^ 15" by (simp_all add: m_def)
    then show "0 \<le> fval (fe_unpack n)" "fval (fe_unpack n) < 2 ^ 255"
      unfolding v m_def [symmetric] using fval_nonneg_bound [OF L(2)] L(1) by simp_all
  qed
  ultimately show "fval (fe_unpack n) = int (le_nat n mod 2 ^ 255)" by (simp add: zmod_int)
qed

text \<open>The trial subtraction.\<close>

definition p_limbs :: fe where
  "p_limbs = 0xffed # replicate 14 0xffff @ [0x7fff]"

lemma p_limbs_val: "fval p_limbs = P25519" and length_p_limbs: "length p_limbs = 16"
  by code_simp+

lemma p_limbs_nth: "i < 16 \<Longrightarrow> (if i = 0 then 0xffed else if i = 15 then 0x7fff else 0xffff) = p_limbs ! i"
  by (auto simp: p_limbs_def nth_Cons' nth_append)

lemma p_limbs_range: "i < 16 \<Longrightarrow> 0 \<le> p_limbs ! i \<and> p_limbs ! i < 2 ^ 16"
  by (simp add: p_limbs_nth [symmetric])

lemma fe_pack_prefix:
  assumes "length t = 16" and "list_all (\<lambda>x. 0 \<le> x \<and> x < 2 ^ 16) t" and "n \<le> 16"
  shows "case fold (fe_pack_limb t) [0..<n] ([], 0) of (m, borrow) \<Rightarrow>
    length m = n \<and> list_all (\<lambda>x. 0 \<le> x \<and> x < 2 ^ 16) m \<and> (borrow = 0 \<or> borrow = 1) \<and>
    fval m = fval (take n t) - fval (take n p_limbs) + borrow * 2 ^ (16 * n)"
  using assms(3)
proof (induction n)
  case (Suc n)
  obtain m borrow where mb: "fold (fe_pack_limb t) [0..<n] ([], 0) = (m, borrow)" by fastforce
  have IH: "length m = n" "list_all (\<lambda>x. 0 \<le> x \<and> x < 2 ^ 16) m" "borrow = 0 \<or> borrow = 1"
      "fval m = fval (take n t) - fval (take n p_limbs) + borrow * 2 ^ (16 * n)"
    using Suc by (simp_all add: mb)
  have n: "n < 16" using Suc.prems by simp
  define d where "d = t ! n - p_limbs ! n - borrow"
  define k where "k = (if d < 0 then 1 else 0 :: int)"
  have step: "fold (fe_pack_limb t) [0..<Suc n] ([], 0) = (m @ [d + k * 2 ^ 16], k)"
    by (simp add: mb fe_pack_limb_def p_limbs_nth [OF n] Let_def d_def k_def)
  have "0 \<le> t ! n" "t ! n < 2 ^ 16" using assms(1,2) n by (simp_all add: list_all_length)
  then have "0 \<le> d + k * 2 ^ 16" "d + k * 2 ^ 16 < 2 ^ 16"
    using p_limbs_range [OF n] IH(3) by (auto simp: d_def k_def)
  moreover have "fval (take (Suc n) t) = fval (take n t) + 2 ^ (16 * n) * t ! n"
      "fval (take (Suc n) p_limbs) = fval (take n p_limbs) + 2 ^ (16 * n) * p_limbs ! n"
    using n assms(1) by (simp_all add: take_Suc_conv_app_nth fval_append length_p_limbs)
  moreover have "fval (m @ [d + k * 2 ^ 16]) = fval m + 2 ^ (16 * n) * (d + k * 2 ^ 16)"
    by (simp add: fval_append IH(1))
  ultimately show ?case
    using IH unfolding step by (auto simp: d_def k_def power_add algebra_simps)
qed simp

lemma fe_pack_pass_ok:
  assumes "length t = 16" and "list_all (\<lambda>x. 0 \<le> x \<and> x < 2 ^ 16) t"
  shows "length (fe_pack_pass t) = 16" and "list_all (\<lambda>x. 0 \<le> x \<and> x < 2 ^ 16) (fe_pack_pass t)"
    and "fval (fe_pack_pass t) = (if fval t < P25519 then fval t else fval t - P25519)"
proof -
  obtain m borrow where mb: "fold (fe_pack_limb t) [0..<16] ([], 0) = (m, borrow)" by fastforce
  have m: "length m = 16" "list_all (\<lambda>x. 0 \<le> x \<and> x < 2 ^ 16) m" "borrow = 0 \<or> borrow = 1"
      "fval m = fval t - P25519 + borrow * 2 ^ 256"
    using fe_pack_prefix [OF assms, of 16] assms(1) by (simp_all add: mb length_p_limbs p_limbs_val del: upt_rec_numeral)
  have res: "fe_pack_pass t = (if borrow = 0 then m else t)" by (simp add: fe_pack_pass_def mb del: upt_rec_numeral)
  show "length (fe_pack_pass t) = 16" "list_all (\<lambda>x. 0 \<le> x \<and> x < 2 ^ 16) (fe_pack_pass t)"
    using m assms by (simp_all add: res)
  have "0 \<le> fval m" "fval m < 2 ^ 256" using fval_nonneg_bound [OF m(2)] m(1) by simp_all
  then have "borrow = 0 \<longleftrightarrow> P25519 \<le> fval t" using m(3,4) fval_nonneg_bound [OF assms(2)] assms(1) by auto
  then show "fval (fe_pack_pass t) = (if fval t < P25519 then fval t else fval t - P25519)"
    using m(4) by (simp add: res)
qed

abbreviation (input) fe_canonical :: "fe \<Rightarrow> bool" where
  "fe_canonical t \<equiv> length t = 16 \<and> list_all (\<lambda>x. 0 \<le> x \<and> x < 2 ^ 16) t"

lemma canonical_reduced: "fe_canonical t \<Longrightarrow> fe_reduced t"
  by (cases t) (auto simp: fe_reduced_def)

lemma fe_carry_reduced:
  assumes "fe_reduced a"
  shows "fe_canonical (fe_carry a)" and "fval (fe_carry a) mod P25519 = fval a mod P25519"
proof -
  obtain x xs where x: "a = x # xs" using assms by (cases a) (simp_all add: fe_reduced_def)
  have X: "length xs = 15" "- 38 \<le> x" "x < 2 ^ 16 + 38" "0 \<le> fval xs" "fval xs < 2 ^ 240"
    using assms fval_nonneg_bound [of xs] by (simp_all add: fe_reduced_def x)
  define c where "c = fval a div 2 ^ 256"
  note s = fe_carry_spec [OF fe_reduced_length [OF assms], folded c_def]
  have "0 \<le> x mod 2 ^ 16 + 38 * c \<and> x mod 2 ^ 16 + 38 * c < 2 ^ 16"
  proof -
    consider (neg) "x < 0" "fval xs = 0" | (top) "2 ^ 16 \<le> x" "fval xs = 2 ^ 240 - 1"
      | (mid) "0 \<le> fval a" "fval a < 2 ^ 256" using X by (fastforce simp: x)
    then show ?thesis
    proof cases
      case neg
      then have "fval a = - (2 ^ 256) + (2 ^ 256 + x)" by (simp add: x)
      then have "c = - 1" unfolding c_def using neg X div_mult_self2 [of "2 ^ 256" "2 ^ 256 + x" "- 1"] by simp
      moreover have "x mod 2 ^ 16 = x + 2 ^ 16" by (rule int_mod_up) (use neg X in simp_all)
      ultimately show ?thesis using neg X by simp
    next
      case top
      then have "c = 1" unfolding c_def using X div_mult_self2 [of "2 ^ 256" "x - 2 ^ 16" 1] by (simp add: x)
      moreover have "x mod 2 ^ 16 = x - 2 ^ 16" by (rule int_mod_down) (use top X in simp_all)
      ultimately show ?thesis using top X by simp
    next
      case mid
      then have "c = 0" unfolding c_def by simp
      then show ?thesis by simp
    qed
  qed
  then have "0 \<le> hd (fe_carry a)" "hd (fe_carry a) < 2 ^ 16" using s(4) by (simp_all add: x)
  then show "fe_canonical (fe_carry a)" using s(1,3) by (cases "fe_carry a") auto
  show "fval (fe_carry a) mod P25519 = fval a mod P25519" by (rule mod_P25519 [OF s(2)])
qed

lemma le_nat_limb_bytes:
  "m \<le> length t \<Longrightarrow> list_all (\<lambda>x. 0 \<le> x \<and> x < 2 ^ 16) t \<Longrightarrow>
   int (le_nat (concat (map (\<lambda>i. [word_of_int (t ! i AND 0xff), word_of_int (drop_bit 8 (t ! i) AND 0xff)]) [0..<m]))) =
     fval (take m t) \<and>
   length (concat (map (\<lambda>i. [word_of_int (t ! i AND 0xff), word_of_int (drop_bit 8 (t ! i) AND 0xff)] :: byte list) [0..<m])) = 2 * m"
proof (induction m)
  case (Suc m)
  define x where "x = t ! m"
  have x: "0 \<le> x" "x < 2 ^ 16" using Suc.prems by (simp_all add: x_def list_all_length)
  have and255: "y AND 0xff = y mod 256" for y :: int
    using take_bit_eq_mask [of 8 y] by (simp add: mask_numeral take_bit_eq_mod)
  have u: "int (unat (word_of_int (y AND 0xff) :: byte)) = y mod 256" for y :: int
    by (simp add: and255 uint_word_of_int)
  have "x div 256 < 256" using x zdiv_mono1 [of x 65535 256] by simp
  then have "x mod 256 + 256 * (drop_bit 8 x mod 256) = x" using x by (simp add: drop_bit_eq_div div_int_pos_iff)
  then have "int (le_nat [word_of_int (x AND 0xff), word_of_int (drop_bit 8 x AND 0xff)]) = x"
    using u [of x] u [of "drop_bit 8 x"] by simp
  moreover have "take (Suc m) t = take m t @ [x]" using Suc.prems by (simp add: take_Suc_conv_app_nth x_def)
  moreover have "(256 :: int) ^ (2 * m) = 2 ^ (16 * m)" by (simp add: power_mult)
  ultimately show ?case
    using Suc by (simp add: le_nat_append fval_append x_def [symmetric] del: le_nat.simps)
qed simp

lemma fe_pack_ok:
  assumes "fe_reduced n"
  shows "fe_pack n = nat_le 32 (nat (fval n mod P25519))"
proof -
  define t where "t = fe_carry (fe_carry (fe_carry n))"
  note c1 = fe_carry_reduced [OF assms]
  note c2 = fe_carry_reduced [OF canonical_reduced [OF c1(1)]]
  note c3 = fe_carry_reduced [OF canonical_reduced [OF c2(1)], folded t_def]
  have t: "length t = 16" "list_all (\<lambda>x. 0 \<le> x \<and> x < 2 ^ 16) t" "fval t mod P25519 = fval n mod P25519"
    using c3(1) c3(2) c2(2) c1(2) by (simp_all only: simp_thms)
  have V: "0 \<le> fval t" "fval t < 2 ^ 256" using fval_nonneg_bound [OF t(2)] t(1) by simp_all
  note p1 = fe_pack_pass_ok [OF t(1,2)]
  note p2 = fe_pack_pass_ok [OF p1(1,2)]
  let ?u = "fe_pack_pass (fe_pack_pass t)"
  have "fval ?u = fval t mod P25519"
  proof -
    have "0 \<le> fval ?u \<and> fval ?u < P25519 \<and> (\<exists>k. fval t = fval ?u + k * P25519)"
    proof (cases "fval t < P25519")
      case True
      then have "fval ?u = fval t" using p1(3) p2(3) by simp
      then show ?thesis using True V by (intro conjI exI [of _ 0]) simp_all
    next
      case False
      then have f: "fval (fe_pack_pass t) = fval t - P25519" using p1(3) by simp
      show ?thesis
      proof (cases "fval t - P25519 < P25519")
        case True
        then have "fval ?u = fval t - P25519" using p2(3) f by simp
        then show ?thesis using True False by (intro conjI exI [of _ 1]) simp_all
      next
        case c: False
        then have "fval ?u = fval t - P25519 - P25519" using p2(3) f by simp
        then show ?thesis using c V by (intro conjI exI [of _ 2]) simp_all
      qed
    qed
    then show ?thesis by (metis mod_mult_self1 mod_pos_pos_trivial)
  qed
  then have v: "fval ?u = fval n mod P25519" using t(3) by (simp only:)
  have b: "int (le_nat (fe_pack n)) = fval ?u" "length (fe_pack n) = 32"
    using le_nat_limb_bytes [OF _ p2(2), of 16] p2(1)
    by (simp_all add: fe_pack_def t_def [symmetric] Let_def del: upt_rec_numeral)
  have "fval n mod P25519 < P25519" by (rule pos_mod_bound) simp
  then have "nat (fval n mod P25519) < 256 ^ 32" by simp
  moreover have "le_nat (fe_pack n) = nat (fval n mod P25519)" using b(1) v by linarith
  ultimately show ?thesis using b(2) by (intro nat_le_unique) simp_all
qed

section \<open>The Montgomery ladder on numbers\<close>

text \<open>Doubling and differential addition on the curve with the coefficient 486662, in projective
  x-coordinates modulo the prime; \<open>u\<close> is the x-coordinate of the difference of the two points.\<close>

definition mont_double_add :: "int \<Rightarrow> (int \<times> int) \<times> (int \<times> int) \<Rightarrow> (int \<times> int) \<times> (int \<times> int)" where
  "mont_double_add u = (\<lambda>((x, z), (x', z')).
     (((x ^ 2 - z ^ 2) ^ 2 mod P25519, 4 * x * z * (x ^ 2 + 486662 * x * z + z ^ 2) mod P25519),
      (4 * (x * x' - z * z') ^ 2 mod P25519, 4 * u * (x * z' - z * x') ^ 2 mod P25519)))"

definition swap_if :: "bool \<Rightarrow> 'a \<times> 'a \<Rightarrow> 'a \<times> 'a" where
  "swap_if b = (\<lambda>(p, q). if b then (q, p) else (p, q))"

definition mont_step :: "int \<Rightarrow> bool \<Rightarrow> (int \<times> int) \<times> (int \<times> int) \<Rightarrow> (int \<times> int) \<times> (int \<times> int)" where
  "mont_step u b ps = swap_if b (mont_double_add u (swap_if b ps))"

definition mont_ladder :: "nat \<Rightarrow> int \<Rightarrow> (int \<times> int) \<times> (int \<times> int)" where
  "mont_ladder k u = fold (\<lambda>t. mont_step u (bit k t)) (rev [0..<255]) ((1, 0), (u, 1))"

definition x25519 :: "nat \<Rightarrow> int \<Rightarrow> int" where
  "x25519 k u = (let (x, z) = fst (mont_ladder k u) in x * z ^ (2 ^ 255 - 21) mod P25519)"

definition clamped :: "nat \<Rightarrow> nat" where
  "clamped n = 2 ^ 254 + 8 * (n mod 2 ^ 254 div 8)"

section \<open>The limbs compute the ladder\<close>

text \<open>\<open>fe_rep a x\<close>: the reduced element \<open>a\<close> represents \<open>x\<close>; \<open>fw_rep\<close> the same for an operand of
  \<^verbatim>\<open>fe_mul\<close>.\<close>

definition fe_rep :: "fe \<Rightarrow> int \<Rightarrow> bool" where
  "fe_rep a x \<longleftrightarrow> fe_reduced a \<and> fval a mod P25519 = x mod P25519"

definition fw_rep :: "fe \<Rightarrow> int \<Rightarrow> bool" where
  "fw_rep a x \<longleftrightarrow> fe_wide a \<and> fval a mod P25519 = x mod P25519"

lemma fw_rep_fe: "fe_rep a x \<Longrightarrow> fw_rep a x"
  by (simp add: fe_rep_def fw_rep_def fe_reduced_wide)

lemma fe_rep_add: "fe_rep a x \<Longrightarrow> fe_rep b y \<Longrightarrow> fw_rep (fe_add a b) (x + y)"
  unfolding fe_rep_def fw_rep_def by (elim conjE, intro conjI) (simp_all only: fe_add_ok, rule mod_add_cong)

lemma fe_rep_sub: "fe_rep a x \<Longrightarrow> fe_rep b y \<Longrightarrow> fw_rep (fe_sub a b) (x - y)"
  unfolding fe_rep_def fw_rep_def by (elim conjE, intro conjI) (simp_all only: fe_add_ok, rule mod_diff_cong)

lemma fe_rep_mul: "fw_rep a x \<Longrightarrow> fw_rep b y \<Longrightarrow> fe_rep (fe_mul a b) (x * y)"
  unfolding fe_rep_def fw_rep_def by (elim conjE, intro conjI) (simp_all only: fe_mul_ok, rule mod_mult_cong)

lemma fe_rep_sq: "fw_rep a x \<Longrightarrow> fe_rep (fe_sq a) (x * x)"
  unfolding fe_sq_def by (rule fe_rep_mul)

lemma fe_rep_inv: "fe_rep a x \<Longrightarrow> fe_rep (fe_inv a) (x ^ (2 ^ 255 - 21))"
  unfolding fe_rep_def using fe_inv_ok [of a] power_mod [of "fval a" P25519 "2 ^ 255 - 21"] power_mod [of x P25519 "2 ^ 255 - 21"]
  by (elim conjE, intro conjI) (simp_all only:)

lemma fe_rep_mod: "fe_rep a x \<Longrightarrow> x = y \<Longrightarrow> fe_rep a (y mod P25519)"
  unfolding fe_rep_def by (simp only: mod_mod_trivial)

lemma fe_rep_consts: "fe_rep fe_0 0" "fe_rep fe_1 1" "fw_rep a24 121665"
  by (simp_all add: fe_rep_def fw_rep_def fe_reduced_def fe_wide_def fe_0_def fe_1_def a24_def upt_rec list_all_iff)

definition pair_rep :: "fe \<times> fe \<times> fe \<times> fe \<Rightarrow> (int \<times> int) \<times> (int \<times> int) \<Rightarrow> bool" where
  "pair_rep = (\<lambda>(x2, z2, x3, z3) ((X, Z), (X', Z')). fe_rep x2 X \<and> fe_rep z2 Z \<and> fe_rep x3 X' \<and> fe_rep z3 Z')"

lemma ladder_arith_ok:
  assumes u: "fe_rep x1 u" and r: "pair_rep st ps"
  shows "pair_rep (ladder_arith x1 st) (mont_double_add u ps)"
proof -
  obtain x2 z2 x3 z3 X Z X' Z' where st: "st = (x2, z2, x3, z3)" and ps: "ps = ((X, Z), (X', Z'))"
    by (metis prod.exhaust)
  have x2: "fe_rep x2 X" and z2: "fe_rep z2 Z" and x3: "fe_rep x3 X'" and z3: "fe_rep z3 Z'"
    using r by (simp_all add: pair_rep_def st ps)
  note A = fe_rep_add [OF x2 z2] and B = fe_rep_sub [OF x2 z2]
  note C = fe_rep_add [OF x3 z3] and D = fe_rep_sub [OF x3 z3]
  note AA = fe_rep_sq [OF A] and BB = fe_rep_sq [OF B]
  note DA = fe_rep_mul [OF D A] and CB = fe_rep_mul [OF C B]
  note E = fe_rep_sub [OF AA BB]
  note x3' = fe_rep_sq [OF fe_rep_add [OF DA CB]]
  note z3' = fe_rep_mul [OF fw_rep_fe [OF u] fw_rep_fe [OF fe_rep_sq [OF fe_rep_sub [OF DA CB]]]]
  note x2' = fe_rep_mul [OF fw_rep_fe [OF AA] fw_rep_fe [OF BB]]
  note z2' = fe_rep_mul [OF E fe_rep_add [OF AA fe_rep_mul [OF E fe_rep_consts(3)]]]
  show ?thesis
    unfolding st ps ladder_arith_def mont_double_add_def pair_rep_def Let_def prod.case
    by (intro conjI fe_rep_mod [OF x2'] fe_rep_mod [OF z2'] fe_rep_mod [OF x3'] fe_rep_mod [OF z3'])
      (simp_all only: power2_eq_square, algebra+)
qed

lemma cswap_ok:
  assumes "pair_rep (x2, z2, x3, z3) ps"
    and "fe_cswap (of_bool b) x2 x3 = (y2, y3)" and "fe_cswap (of_bool b) z2 z3 = (w2, w3)"
  shows "pair_rep (y2, w2, y3, w3) (swap_if b ps)"
proof -
  have "length x2 = 16" "length x3 = 16" "length z2 = 16" "length z3 = 16"
    using assms(1) by (auto simp: pair_rep_def fe_rep_def fe_reduced_length split: prod.splits)
  then show ?thesis using assms by (cases b) (auto simp: fe_cswap_ok swap_if_def pair_rep_def split: prod.splits)
qed

lemma swap_if_twice [simp]: "swap_if a (swap_if b ps) = swap_if (a \<noteq> b) ps"
  by (auto simp: swap_if_def split: prod.splits)

lemma swap_if_False [simp]: "swap_if False ps = ps"
  by (auto simp: swap_if_def split: prod.splits)

text \<open>The invariant of the loop: the pair is swapped exactly when \<^verbatim>\<open>swap\<close> is 1.\<close>

definition ladder_rep :: "int \<times> fe \<times> fe \<times> fe \<times> fe \<Rightarrow> (int \<times> int) \<times> (int \<times> int) \<Rightarrow> bool" where
  "ladder_rep = (\<lambda>(swap, st) ps. \<exists>s. swap = of_bool s \<and> pair_rep st (swap_if s ps))"

lemma scalar_bit:
  assumes "t < 8 * length k"
  shows "drop_bit (t mod 8) (uint (k ! (t div 8))) AND 1 = of_bool (bit (le_nat k) t)"
proof -
  have "bit (le_nat k) t = bit (uint (k ! (t div 8))) (t mod 8)"
    unfolding bit_le_nat [OF assms] by (simp add: bit_uint_iff)
  then show ?thesis by (simp add: and_one_eq bit_iff_odd_drop_bit mod_2_eq_odd)
qed

lemma ladder_iter_ok:
  assumes "fe_rep x1 u" and "ladder_rep st ps" and "t < 8 * length k"
  shows "ladder_rep (ladder_iter k x1 t st) (mont_step u (bit (le_nat k) t) ps)"
proof -
  obtain s x2 z2 x3 z3 where st: "st = (of_bool s, x2, z2, x3, z3)" and r: "pair_rep (x2, z2, x3, z3) (swap_if s ps)"
    using assms(2) by (cases st) (auto simp: ladder_rep_def)
  define b where "b = bit (le_nat k) t"
  have sw: "of_bool s XOR of_bool b = (of_bool (s \<noteq> b) :: int)" by (cases s; cases b) simp_all
  obtain y2 y3 w2 w3 where y: "fe_cswap (of_bool (s \<noteq> b)) x2 x3 = (y2, y3)" "fe_cswap (of_bool (s \<noteq> b)) z2 z3 = (w2, w3)"
    by (metis prod.exhaust)
  have "((s \<noteq> b) \<noteq> s) = b" by blast
  then have "pair_rep (y2, w2, y3, w3) (swap_if b ps)" using cswap_ok [OF r y] by simp
  note l = ladder_arith_ok [OF assms(1) this]
  have "ladder_iter k x1 t st = (of_bool b, ladder_arith x1 (y2, w2, y3, w3))"
    unfolding ladder_iter_def st prod.case scalar_bit [OF assms(3)] b_def [symmetric] Let_def sw y by simp
  moreover have "swap_if b (mont_step u b ps) = mont_double_add u (swap_if b ps)"
    by (simp add: mont_step_def)
  ultimately show ?thesis
    using l unfolding ladder_rep_def b_def [symmetric] by (auto intro!: exI [of _ b])
qed

lemma ladder_fold_ok:
  assumes "fe_rep x1 u" and "\<forall>t \<in> set ts. t < 8 * length k" and "ladder_rep st ps"
  shows "ladder_rep (fold (ladder_iter k x1) ts st) (fold (\<lambda>t. mont_step u (bit (le_nat k) t)) ts ps)"
  using assms(2,3)
proof (induction ts arbitrary: st ps)
  case (Cons t ts)
  then show ?case using ladder_iter_ok [OF assms(1) Cons.prems(2)] by simp
qed simp

lemma byte_bits: "n < LENGTH(8) \<Longrightarrow> n = 0 \<or> n = 1 \<or> n = 2 \<or> n = 3 \<or> n = 4 \<or> n = 5 \<or> n = 6 \<or> n = 7"
  by auto

lemma and_248: "unat (b AND 248) = 8 * (unat b div 8)" for b :: byte
proof -
  have "b AND 248 = push_bit 3 (drop_bit 3 b)"
  proof (rule bit_word_eqI)
    fix n assume "n < LENGTH(8)"
    from byte_bits [OF this] show "bit (b AND 248) n = bit (push_bit 3 (drop_bit 3 b)) n" by (elim disjE) (simp_all add: bit_simps)
  qed
  moreover have "8 * (unat b div 8) < 256" using unat_bound [of b] by simp
  ultimately show ?thesis by (simp add: push_bit_eq_mult unat_drop_bit unat_word_ariths)
qed

lemma and_127_or_64: "unat ((b AND 127) OR 64) = 64 + unat b mod 64" for b :: byte
proof -
  have "(b AND 127) OR 64 = 64 OR take_bit 6 b"
  proof (rule bit_word_eqI)
    fix n assume "n < LENGTH(8)"
    from byte_bits [OF this] show "bit ((b AND 127) OR 64) n = bit (64 OR take_bit 6 b) n" by (elim disjE) (simp_all add: bit_simps)
  qed
  moreover have "64 AND take_bit 6 b = 0"
  proof (rule bit_word_eqI)
    fix n assume "n < LENGTH(8)"
    from byte_bits [OF this] show "bit (64 AND take_bit 6 b) n = bit 0 n" by (elim disjE) (simp_all add: bit_simps)
  qed
  ultimately have "(b AND 127) OR 64 = 64 + take_bit 6 b" by (simp add: disjunctive_add_eq_or)
  moreover have "unat (take_bit 6 b) = unat b mod 64" unfolding unsigned_take_bit_eq by (simp add: take_bit_eq_mod)
  ultimately show ?thesis by (simp add: unat_word_ariths)
qed

lemma clamp_arith:
  fixes a m c :: nat
  assumes "a < 256" and "m < 256 ^ 30"
  shows "8 * (a div 8) + 256 * (m + 256 ^ 30 * (64 + c mod 64)) = clamped (a + 256 * (m + 256 ^ 30 * c))"
proof -
  define q r where "q = c div 64" and "r = c mod 64"
  have c: "c = 64 * q + r" "r < 64" by (simp_all add: q_def r_def)
  then have "a + 256 * (m + 256 ^ 30 * c) = (a + 256 * m + 256 ^ 31 * r) + 2 ^ 254 * q" by simp
  moreover have "a + 256 * m + 256 ^ 31 * r < 2 ^ 254" using assms c(2) by simp
  ultimately have "(a + 256 * (m + 256 ^ 30 * c)) mod 2 ^ 254 = a + 8 * (32 * m + 32 * 256 ^ 30 * r)"
    by (simp only: mod_mult_self2 mod_less) simp
  moreover have "(a + 8 * x) div 8 = a div 8 + x" for x :: nat by simp
  ultimately show ?thesis unfolding clamped_def r_def by (simp only:) simp
qed

lemma clamp_scalar_value:
  assumes "length s = 32"
  shows "length (clamp_scalar s) = 32" and "le_nat (clamp_scalar s) = clamped (le_nat s)"
proof -
  show "length (clamp_scalar s) = 32" using assms by (simp add: clamp_scalar_def)
  obtain a r where r: "s = a # r" "length r = 31" using assms by (cases s) auto
  obtain m c where m: "r = m @ [c]" "length m = 30" using r(2) by (cases r rule: rev_cases) auto
  have "clamp_scalar s = (a AND 248) # m @ [(c AND 127) OR 64]"
    by (simp add: clamp_scalar_def r(1) m nth_append list_update_append)
  then show "le_nat (clamp_scalar s) = clamped (le_nat s)"
    using clamp_arith [of "unat a" "le_nat m" "unat c"] unat_bound [of a] le_nat_bound [of m]
    by (simp add: r(1) m le_nat_append and_248 and_127_or_64)
qed

lemma scalarmult_number:
  assumes "length s = 32" and "length u = 32"
  shows "nd_x25519_scalarmult (Some s) (Some u) =
    Inr (nat_le 32 (nat (x25519 (clamped (le_nat s)) (int (le_nat u mod 2 ^ 255)))))"
proof -
  define k where "k = clamp_scalar s"
  define U where "U = int (le_nat u mod 2 ^ 255)"
  define x1 where "x1 = fe_unpack u"
  have k: "length k = 32" "le_nat k = clamped (le_nat s)" using clamp_scalar_value [OF assms(1)] by (simp_all add: k_def)
  have x1: "fe_rep x1 U" using fe_unpack_ok [OF assms(2)] unfolding fe_rep_def x1_def U_def by (simp only: simp_thms)
  obtain swap x2 z2 x3 z3 where l: "fold (ladder_iter k x1) (rev [0..<255]) (0, fe_1, fe_0, x1, fe_1) = (swap, x2, z2, x3, z3)"
    by (metis prod.exhaust)
  have "ladder_rep (0, fe_1, fe_0, x1, fe_1) ((1, 0), (U, 1))"
    using x1 fe_rep_consts by (auto simp: ladder_rep_def pair_rep_def intro!: exI [of _ False])
  from ladder_fold_ok [OF x1 _ this, of "rev [0..<255]" k]
  have "ladder_rep (swap, x2, z2, x3, z3) (mont_ladder (clamped (le_nat s)) U)"
    unfolding l k(2) by (simp add: mont_ladder_def k(1) del: upt_rec_numeral)
  then obtain b where b: "swap = of_bool b" "pair_rep (x2, z2, x3, z3) (swap_if b (mont_ladder (clamped (le_nat s)) U))"
    by (auto simp: ladder_rep_def)
  obtain y2 y3 w2 w3 where y: "fe_cswap swap x2 x3 = (y2, y3)" "fe_cswap swap z2 z3 = (w2, w3)" by (metis prod.exhaust)
  have "pair_rep (y2, w2, y3, w3) (mont_ladder (clamped (le_nat s)) U)"
    using cswap_ok [OF b(2) y [unfolded b(1)]] by simp
  moreover obtain X Z q where X: "mont_ladder (clamped (le_nat s)) U = ((X, Z), q)" by (metis prod.exhaust)
  ultimately have "fe_rep y2 X" "fe_rep w2 Z" by (auto simp: pair_rep_def split: prod.splits)
  from fe_rep_mul [OF fw_rep_fe [OF this(1)] fw_rep_fe [OF fe_rep_inv [OF this(2)]]]
  have "fe_pack (fe_mul y2 (fe_inv w2)) = nat_le 32 (nat (x25519 (clamped (le_nat s)) U))"
    using fe_pack_ok [of "fe_mul y2 (fe_inv w2)"] unfolding fe_rep_def x25519_def X Let_def by (simp only: fst_conv prod.case)
  moreover have "nd_x25519_scalarmult (Some s) (Some u) = Inr (fe_pack (fe_mul y2 (fe_inv w2)))"
    by (simp only: nd_x25519_scalarmult.simps Let_def k_def [symmetric] x1_def [symmetric] l y prod.case)
  ultimately show ?thesis by (simp only: U_def)
qed

text \<open>C7: X25519 computes the function of RFC 7748: on a 32-byte scalar and a 32-byte coordinate,
  \<^verbatim>\<open>nd_x25519_scalarmult\<close> returns the little-endian bytes of the result of the Montgomery ladder on
  numbers modulo 2 to the 255 minus 19, for the clamped scalar and the coordinate without its top bit.
  The limb arithmetic, the delayed swaps, the inversion by exponentiation and the final reduction are
  exact.\<close>

theorem x25519_correct:
  assumes "length scalar = ND_X25519_LEN" and "length u = ND_X25519_LEN"
  shows "nd_x25519_scalarmult (Some scalar) (Some u) =
    Inr (nat_le 32 (nat (x25519 (clamped (le_nat scalar)) (int (le_nat u mod 2 ^ 255)))))"
  by (rule scalarmult_number [OF assms])

theorem x25519_correct_witness:
  "nd_x25519_scalarmult (Some (7 # replicate 31 0)) (Some (9 # replicate 31 0)) =
     Inr (nat_le 32 (nat (x25519 (2 ^ 254) 9)))"
proof -
  have "le_nat (7 # replicate 31 0) = 7" "le_nat (9 # replicate 31 0) = 9"
    by (simp_all add: le_nat_zeros)
  then show ?thesis
    using x25519_correct [of "7 # replicate 31 0" "9 # replicate 31 0"] by (simp add: clamped_def)
qed

text \<open>The limbs stay inside \<^verbatim>\<open>int64_t\<close>: for the operands that the ladder produces, reduced
  elements and their sums and differences, no limb of the product exceeds 2 to the 40 in absolute value,
  none exceeds 2 to the 46 after the upper half is folded in, and the product is again reduced and
  represents the product modulo the prime.\<close>

theorem fe_mul_in_range:
  assumes "fe_wide a" and "fe_wide b"
  shows "list_all (\<lambda>x. \<bar>x\<bar> \<le> 2 ^ 40) (fe_mul_products a b) \<and>
    list_all (\<lambda>x. \<bar>x\<bar> \<le> 2 ^ 46) (take 16 (fe_mul_fold (fe_mul_products a b))) \<and>
    fe_reduced (fe_mul a b) \<and>
    fval (fe_mul a b) mod P25519 = (fval a * fval b) mod P25519"
proof (intro conjI)
  have "length (fe_mul_fold (fe_mul_products a b)) = 31"
    using fe_mul_fold_prefix [of "fe_mul_products a b" 15] fe_mul_products_prefix [of a b 16 "2 ^ 18" "2 ^ 18"] assms
    by (simp add: fe_mul_products_def fe_mul_fold_def fe_wide_def Let_def del: upt_rec_numeral)
  then show "list_all (\<lambda>x. \<bar>x\<bar> \<le> 2 ^ 46) (take 16 (fe_mul_fold (fe_mul_products a b)))"
    using fe_mul_folded(3) [OF assms] by (simp add: take_map_nth del: upt_rec_numeral)
qed (fact fe_mul_folded(4) [OF assms], fact fe_mul_ok [OF assms], fact fe_mul_ok [OF assms])

theorem fe_mul_in_range_witness:
  "list_all (\<lambda>x. \<bar>x\<bar> \<le> 2 ^ 40) (fe_mul_products (replicate 16 (- (2 ^ 18))) (replicate 16 (2 ^ 18))) \<and>
   fe_reduced (fe_mul (replicate 16 (- (2 ^ 18))) (replicate 16 (2 ^ 18)))"
proof -
  have "fe_wide (replicate 16 (- (2 ^ 18)))" "fe_wide (replicate 16 (2 ^ 18))"
    by (simp_all add: fe_wide_def list_all_iff)
  from fe_mul_in_range [OF this] show ?thesis by (simp only: simp_thms)
qed

text \<open>The bias of \<^verbatim>\<open>fe_carry\<close> does not make every shifted value non-negative: the difference of two
  field elements, multiplied, gives limbs below minus 2 to the 16.\<close>

lemma fe_carry_shifts_negative:
  defines "a \<equiv> fe_sub fe_0 (fe_unpack (replicate 32 1))" and "b \<equiv> fe_unpack (replicate 32 1)"
  shows "fe_mul_fold (fe_mul_products a b) ! 0 + push_bit 16 1 < 0"
  unfolding a_def b_def by code_simp

end
