(* ===== verification/Bignum.thy ===== *)
theory Bignum
  imports Prelude
begin

text \<open>
  The 256-bit integers of \<^verbatim>\<open>src/crypto/p256_internal.h\<close> (lines 36 to 222), with the domain parameters: eight 32-bit limbs, the
  least significant first, with the schoolbook multiplication, the binary long division and the modular
  operations built on them. Limbs are words, and the 64-bit intermediate values are words too, so that
  every wrap-around of the code is in the model. Shown: the operations are exact on the numbers that the
  limbs stand for.
\<close>

unbundle bit_operations_syntax

type_synonym bn256 = "u32 list"

section \<open>Domain parameters\<close>

definition P256_P :: bn256 where
  "P256_P = [0xffffffff, 0xffffffff, 0xffffffff, 0x00000000, 0x00000000, 0x00000000, 0x00000001, 0xffffffff]"

definition P256_A :: bn256 where
  "P256_A = [0xfffffffc, 0xffffffff, 0xffffffff, 0x00000000, 0x00000000, 0x00000000, 0x00000001, 0xffffffff]"

definition P256_B :: bn256 where
  "P256_B = [0x27d2604b, 0x3bce3c3e, 0xcc53b0f6, 0x651d06b0, 0x769886bc, 0xb3ebbd55, 0xaa3a93e7, 0x5ac635d8]"

definition P256_N :: bn256 where
  "P256_N = [0xfc632551, 0xf3b9cac2, 0xa7179e84, 0xbce6faad, 0xffffffff, 0xffffffff, 0x00000000, 0xffffffff]"

definition P256_GX :: bn256 where
  "P256_GX = [0xd898c296, 0xf4a13945, 0x2deb33a0, 0x77037d81, 0x63a440f2, 0xf8bce6e5, 0xe12c4247, 0x6b17d1f2]"

definition P256_GY :: bn256 where
  "P256_GY = [0x37bf51f5, 0xcbb64068, 0x6b315ece, 0x2bce3357, 0x7c0f9e16, 0x8ee7eb4a, 0xfe1a7f9b, 0x4fe342e2]"

section \<open>Limb arrays\<close>

definition bn_is_zero :: "bn256 \<Rightarrow> bool" where
  "bn_is_zero a = list_all (\<lambda>i. a ! i = 0) [0..<8]"

text \<open>The loop of \<^verbatim>\<open>bn_cmp\<close>, from the limb below \<open>i\<close> down to limb 0.\<close>

primrec bn_cmp_loop :: "bn256 \<Rightarrow> bn256 \<Rightarrow> nat \<Rightarrow> int" where
  "bn_cmp_loop a b 0 = 0"
| "bn_cmp_loop a b (Suc i) =
     (if a ! i \<noteq> b ! i then if a ! i < b ! i then - 1 else 1 else bn_cmp_loop a b i)"

definition bn_cmp :: "bn256 \<Rightarrow> bn256 \<Rightarrow> int" where
  "bn_cmp a b = bn_cmp_loop a b 8"

definition bn_test_bit :: "bn256 \<Rightarrow> nat \<Rightarrow> bool" where
  "bn_test_bit a i \<longleftrightarrow> drop_bit (i mod 32) (a ! (i div 32)) AND 1 \<noteq> 0"

text \<open>Addition and subtraction return the limbs and the carry or borrow. One limb of each:\<close>

definition add_limb :: "bn256 \<Rightarrow> bn256 \<Rightarrow> nat \<Rightarrow> u32 list \<times> u64 \<Rightarrow> u32 list \<times> u64" where
  "add_limb a b i = (\<lambda>(o1, carry).
     let s = ucast (a ! i) + ucast (b ! i) + carry
     in (o1 @ [ucast s], drop_bit 32 s))"

definition bn_add_raw :: "bn256 \<Rightarrow> bn256 \<Rightarrow> bn256 \<times> u32" where
  "bn_add_raw a b = (let (o1, carry) = fold (add_limb a b) [0..<8] ([], 0) in (o1, ucast carry))"

definition sub_limb :: "u32 list \<Rightarrow> bn256 \<Rightarrow> nat \<Rightarrow> u32 list \<times> u64 \<Rightarrow> u32 list \<times> u64" where
  "sub_limb a b i = (\<lambda>(o1, borrow).
     let diff = ucast (a ! i) - ucast (b ! i) - borrow
     in (o1 @ [ucast diff], drop_bit 63 diff AND 1))"

definition bn_sub_raw :: "bn256 \<Rightarrow> bn256 \<Rightarrow> bn256 \<times> u32" where
  "bn_sub_raw a b = (let (o1, borrow) = fold (sub_limb a b) [0..<8] ([], 0) in (o1, ucast borrow))"

definition bn_from_bytes_be :: "byte list \<Rightarrow> bn256" where
  "bn_from_bytes_be in1 = map (\<lambda>i. let off = (7 - i) * 4 in
     push_bit 24 (ucast (in1 ! off)) OR push_bit 16 (ucast (in1 ! (off + 1))) OR
     push_bit 8 (ucast (in1 ! (off + 2))) OR ucast (in1 ! (off + 3))) [0..<8]"

text \<open>The bytes of limb \<open>i\<close> go to the offset \<open>(7 - i) * 4\<close>: the limbs come out from the last to the first.\<close>

definition bn_to_bytes_be :: "bn256 \<Rightarrow> byte list" where
  "bn_to_bytes_be a = fold (\<lambda>i out. let off = (7 - i) * 4 in
     out[off := ucast (drop_bit 24 (a ! i)), off + 1 := ucast (drop_bit 16 (a ! i)),
         off + 2 := ucast (drop_bit 8 (a ! i)), off + 3 := ucast (a ! i)]) [0..<8] (replicate 32 0)"

section \<open>Multiplication\<close>

text \<open>The inner loop of one row.\<close>

definition mul_step :: "bn256 \<Rightarrow> bn256 \<Rightarrow> nat \<Rightarrow> nat \<Rightarrow> u32 list \<times> u64 \<Rightarrow> u32 list \<times> u64" where
  "mul_step a b i j = (\<lambda>(o1, carry).
     let t = ucast (a ! i) * ucast (b ! j) + ucast (o1 ! (i + j)) + carry
     in (o1[i + j := ucast t], drop_bit 32 t))"

text \<open>The loop that carries on past the row. It returns the carry too: a carry that is not 0 means that
  the loop has reached the end of the array, which \<open>mul_row_ok\<close> below excludes.\<close>

function mul_carry :: "u32 list \<Rightarrow> nat \<Rightarrow> u64 \<Rightarrow> u32 list \<times> u64" where
  "mul_carry o1 k carry =
     (if carry = 0 \<or> k \<ge> length o1 then (o1, carry)
      else let t = ucast (o1 ! k) + carry
           in mul_carry (o1[k := ucast t]) (k + 1) (drop_bit 32 t))"
  by pat_completeness auto

termination mul_carry
  by (relation "measure (\<lambda>(o1, k, carry). length o1 - k)") auto

declare mul_carry.simps [simp del]

definition mul_row :: "bn256 \<Rightarrow> bn256 \<Rightarrow> nat \<Rightarrow> u32 list \<Rightarrow> u32 list" where
  "mul_row a b i o1 =
     (let (o1, carry) = fold (mul_step a b i) [0..<8] (o1, 0)
      in fst (mul_carry o1 (i + 8) carry))"

definition bn_mul_wide :: "bn256 \<Rightarrow> bn256 \<Rightarrow> u32 list" where
  "bn_mul_wide a b = fold (mul_row a b) [0..<8] (replicate 16 0)"

section \<open>Reduction\<close>

primrec rem9_ge_loop :: "u32 list \<Rightarrow> bn256 \<Rightarrow> nat \<Rightarrow> bool" where
  "rem9_ge_loop rem m 0 = True"
| "rem9_ge_loop rem m (Suc i) =
     (if rem ! i > m ! i then True else if rem ! i < m ! i then False else rem9_ge_loop rem m i)"

definition rem9_ge_m :: "u32 list \<Rightarrow> bn256 \<Rightarrow> bool" where
  "rem9_ge_m rem m = (if rem ! 8 \<noteq> 0 then True else rem9_ge_loop rem m 8)"

text \<open>Two steps of an iteration of \<^verbatim>\<open>mod_reduce_wide\<close>: the shift of the remainder by one bit, and
  the subtraction of the modulus.\<close>

definition rem_shift :: "u32 list \<Rightarrow> u32 list" where
  "rem_shift rem = fst (fold (\<lambda>i (r, carry).
     let next_carry = drop_bit 31 (rem ! i)
     in (r @ [push_bit 1 (rem ! i) OR carry], next_carry)) [0..<9] ([], 0))"

definition rem_subtract :: "u32 list \<Rightarrow> bn256 \<Rightarrow> u32 list" where
  "rem_subtract rem m =
     (let (r, borrow) = fold (sub_limb rem m) [0..<8] ([], 0)
      in r @ [ucast (ucast (rem ! 8) - borrow :: u64)])"

definition reduce_bit :: "u32 list \<Rightarrow> bn256 \<Rightarrow> nat \<Rightarrow> u32 list \<Rightarrow> u32 list" where
  "reduce_bit wide m bit1 rem =
     (let rem = rem_shift rem;
          limb_idx = bit1 div 32;
          bit_idx = bit1 mod 32;
          rem = rem[0 := rem ! 0 OR (drop_bit bit_idx (wide ! limb_idx) AND 1)]
      in if rem9_ge_m rem m then rem_subtract rem m else rem)"

definition mod_reduce_wide :: "u32 list \<Rightarrow> bn256 \<Rightarrow> bn256" where
  "mod_reduce_wide wide m =
     (let rem = fold (reduce_bit wide m) (rev [0..<512]) (replicate 9 0)
      in map (\<lambda>i. rem ! i) [0..<8])"

section \<open>Modular operations\<close>

definition mod_add :: "bn256 \<Rightarrow> bn256 \<Rightarrow> bn256 \<Rightarrow> bn256" where
  "mod_add a b m =
     (let (sum, carry) = bn_add_raw a b
      in if carry \<noteq> 0 \<or> bn_cmp sum m \<ge> 0 then fst (bn_sub_raw sum m) else sum)"

definition mod_sub :: "bn256 \<Rightarrow> bn256 \<Rightarrow> bn256 \<Rightarrow> bn256" where
  "mod_sub a b m =
     (let (diff, borrow) = bn_sub_raw a b
      in if borrow \<noteq> 0 then fst (bn_add_raw diff m) else diff)"

definition mod_mul :: "bn256 \<Rightarrow> bn256 \<Rightarrow> bn256 \<Rightarrow> bn256" where
  "mod_mul a b m = mod_reduce_wide (bn_mul_wide a b) m"

definition mod_pow :: "bn256 \<Rightarrow> bn256 \<Rightarrow> bn256 \<Rightarrow> bn256" where
  "mod_pow base exp m =
     (let (result, b) = fold (\<lambda>i (result, b).
        (if bn_test_bit exp i then mod_mul result b m else result, mod_mul b b m))
        [0..<256] ([1, 0, 0, 0, 0, 0, 0, 0], base)
      in result)"

definition mod_inv :: "bn256 \<Rightarrow> bn256 \<Rightarrow> bn256" where
  "mod_inv a m =
     (let two = [2, 0, 0, 0, 0, 0, 0, 0];
          exp = fst (bn_sub_raw m two)
      in mod_pow a exp m)"

text \<open>\<open>None\<close> is the loop that does not end.\<close>

partial_function (option) mod_reduce_once :: "bn256 \<Rightarrow> bn256 \<Rightarrow> bn256 option" where
  "mod_reduce_once a m =
     (if bn_cmp a m \<ge> 0 then mod_reduce_once (fst (bn_sub_raw a m)) m else Some a)"

declare mod_reduce_once.simps [code]

section \<open>The number that limbs stand for\<close>

primrec bnv :: "u32 list \<Rightarrow> nat" where
  "bnv [] = 0"
| "bnv (x # xs) = unat x + 2 ^ 32 * bnv xs"

lemma bnv_append: "bnv (xs @ ys) = bnv xs + 2 ^ (32 * length xs) * bnv ys"
  by (induction xs) (simp_all add: algebra_simps power_add)

lemma bnv_bound: "bnv xs < 2 ^ (32 * length xs)"
proof (induction xs)
  case (Cons x xs)
  have "unat x < 2 ^ 32" using unat_bound [of x] by simp
  moreover have "bnv xs + 1 \<le> 2 ^ (32 * length xs)" using Cons by simp
  then have "2 ^ 32 * (bnv xs + 1) \<le> 2 ^ 32 * 2 ^ (32 * length xs)" by (rule mult_le_mono2)
  ultimately have "bnv (x # xs) < 2 ^ 32 * 2 ^ (32 * length xs)" by simp
  then show ?case by (simp add: power_add)
qed simp

lemma bnv_zeros [simp]: "bnv (replicate n 0) = 0"
  by (induction n) simp_all

lemma bnv_update:
  "k < length xs \<Longrightarrow> bnv (xs[k := x]) + 2 ^ (32 * k) * unat (xs ! k) = bnv xs + 2 ^ (32 * k) * unat x"
proof (induction xs arbitrary: k)
  case (Cons y ys)
  show ?case
  proof (cases k)
    case (Suc j)
    then have "bnv (ys[j := x]) + 2 ^ (32 * j) * unat (ys ! j) = bnv ys + 2 ^ (32 * j) * unat x"
      using Cons by simp
    then have "2 ^ 32 * (bnv (ys[j := x]) + 2 ^ (32 * j) * unat (ys ! j)) = 2 ^ 32 * (bnv ys + 2 ^ (32 * j) * unat x)"
      by (simp only:)
    then show ?thesis by (simp add: Suc power_add distrib_left mult.assoc)
  qed simp
qed simp

lemma bnv_inj: "length xs = length ys \<Longrightarrow> bnv xs = bnv ys \<Longrightarrow> xs = ys"
proof (induction xs ys rule: list_induct2)
  case (Cons x xs y ys)
  have d: "(a + 2 ^ 32 * n) mod 2 ^ 32 = a" "(a + 2 ^ 32 * n) div 2 ^ 32 = n" if "a < 2 ^ 32" for a n :: nat
    using that by simp_all
  have b: "unat x < 2 ^ 32" "unat y < 2 ^ 32" using unat_bound [of x] unat_bound [of y] by simp_all
  have e: "unat x + 2 ^ 32 * bnv xs = unat y + 2 ^ 32 * bnv ys" using Cons.prems by (simp only: bnv.simps)
  have "unat x = unat y" using d(1) [OF b(1), of "bnv xs"] d(1) [OF b(2), of "bnv ys"] unfolding e by (simp only:)
  moreover have "bnv xs = bnv ys" using d(2) [OF b(1), of "bnv xs"] d(2) [OF b(2), of "bnv ys"] unfolding e by (simp only:)
  ultimately show ?case using Cons.IH by (simp add: word_unat_eq_iff)
qed simp

lemma bnv_take_Suc: "k < length xs \<Longrightarrow> bnv (take (Suc k) xs) = bnv (take k xs) + 2 ^ (32 * k) * unat (xs ! k)"
  by (simp add: take_Suc_conv_app_nth bnv_append)

lemma bnv_eq_0: "bnv xs = 0 \<longleftrightarrow> (\<forall>x \<in> set xs. x = 0)"
  by (induction xs) (auto simp: unat_eq_0)

lemma bn_is_zero_iff: "length a = 8 \<Longrightarrow> bn_is_zero a \<longleftrightarrow> bnv a = 0"
  unfolding bn_is_zero_def bnv_eq_0 by (auto simp: list_all_iff all_set_conv_all_nth simp del: upt_rec_numeral)

lemma bnv_Cons_or: "bnv (x # xs) = unat x OR push_bit 32 (bnv xs)"
proof -
  have "unat x AND push_bit 32 (bnv xs) = 0"
    by (rule bit_eqI) (auto simp: bit_simps dest: bit_imp_le_length)
  then show ?thesis by (simp add: disjunctive_add_eq_or [symmetric] push_bit_eq_mult)
qed

lemma bit_bnv: "t < 32 * length xs \<Longrightarrow> bit (bnv xs) t = bit (xs ! (t div 32)) (t mod 32)"
proof (induction xs arbitrary: t)
  case (Cons x xs)
  show ?case
  proof (cases "t < 32")
    case True
    then show ?thesis unfolding bnv_Cons_or by (simp add: bit_simps)
  next
    case False
    then obtain u where t: "t = 32 + u" using le_Suc_ex [of 32 t] by auto
    then have "bit (bnv (x # xs)) t = bit (bnv xs) u"
      unfolding bnv_Cons_or by (auto simp: bit_simps dest: bit_imp_le_length)
    moreover have "t div 32 = Suc (u div 32)" "t mod 32 = u mod 32" unfolding t by simp_all
    ultimately show ?thesis using Cons t by simp
  qed
qed simp

lemma bit_drop_and_1: "drop_bit n x AND 1 = of_bool (bit x n)" for x :: "'a::len word"
  by (simp add: and_one_eq bit_iff_odd_drop_bit mod_2_eq_odd)

lemma bn_test_bit_iff: "length a = 8 \<Longrightarrow> i < 256 \<Longrightarrow> bn_test_bit a i \<longleftrightarrow> bit (bnv a) i"
  by (simp add: bn_test_bit_def bit_drop_and_1 bit_bnv)

text \<open>Comparisons decide the order of the numbers, limb by limb from the top.\<close>

lemma top_limb_less:
  assumes "a < 2 ^ k" and "b < (2 :: nat) ^ k" and "x < (y :: nat)"
  shows "a + 2 ^ k * x < b + 2 ^ k * y"
proof -
  have "a + 2 ^ k * x < 2 ^ k * (x + 1)" using assms(1) by simp
  also have "\<dots> \<le> 2 ^ k * y" using assms(3) by (intro mult_le_mono2) simp
  finally show ?thesis by simp
qed

lemma bn_cmp_loop_ok:
  "n \<le> length a \<Longrightarrow> n \<le> length b \<Longrightarrow> bn_cmp_loop a b n =
     (if bnv (take n a) < bnv (take n b) then - 1 else if bnv (take n a) = bnv (take n b) then 0 else 1)"
proof (induction n)
  case (Suc n)
  have l: "n < length a" "n < length b" using Suc.prems by simp_all
  have b: "bnv (take n a) < 2 ^ (32 * n)" "bnv (take n b) < 2 ^ (32 * n)"
    using bnv_bound [of "take n a"] bnv_bound [of "take n b"] l by simp_all
  consider "a ! n = b ! n" | "unat (a ! n) < unat (b ! n)" | "unat (b ! n) < unat (a ! n)"
    by (metis linorder_neqE_nat word_unat_eq_iff)
  then show ?case
  proof cases
    case 1
    then show ?thesis using Suc l by (simp add: bnv_take_Suc)
  next
    case 2
    then show ?thesis using top_limb_less [OF b 2] l by (simp add: bnv_take_Suc word_less_nat_alt) auto
  next
    case 3
    then show ?thesis using top_limb_less [OF b(2,1) 3] l by (simp add: bnv_take_Suc word_less_nat_alt) auto
  qed
qed simp

lemma bn_cmp_ok:
  assumes "length a = 8" and "length b = 8"
  shows "bn_cmp a b \<ge> 0 \<longleftrightarrow> bnv b \<le> bnv a" and "bn_cmp a b = 0 \<longleftrightarrow> bnv a = bnv b"
  using bn_cmp_loop_ok [of 8 a b] assms by (auto simp: bn_cmp_def)

lemma rem9_ge_loop_ok:
  "n \<le> length r \<Longrightarrow> n \<le> length m \<Longrightarrow> rem9_ge_loop r m n \<longleftrightarrow> bnv (take n m) \<le> bnv (take n r)"
proof (induction n)
  case (Suc n)
  have l: "n < length r" "n < length m" using Suc.prems by simp_all
  have b: "bnv (take n r) < 2 ^ (32 * n)" "bnv (take n m) < 2 ^ (32 * n)"
    using bnv_bound [of "take n r"] bnv_bound [of "take n m"] l by simp_all
  consider "r ! n = m ! n" | "unat (r ! n) < unat (m ! n)" | "unat (m ! n) < unat (r ! n)"
    by (metis linorder_neqE_nat word_unat_eq_iff)
  then show ?case
  proof cases
    case 1
    then show ?thesis using Suc l by (simp add: bnv_take_Suc)
  next
    case 2
    then show ?thesis using top_limb_less [OF b 2] l by (simp add: bnv_take_Suc word_less_nat_alt)
  next
    case 3
    then show ?thesis using top_limb_less [OF b(2,1) 3] l by (simp add: bnv_take_Suc word_less_nat_alt)
  qed
qed simp

lemma rem9_ge_m_ok:
  assumes "length r = 9" and "length m = 8"
  shows "rem9_ge_m r m \<longleftrightarrow> bnv m \<le> bnv r"
proof -
  have r: "bnv r = bnv (take 8 r) + 2 ^ 256 * unat (r ! 8)"
    using bnv_take_Suc [of 8 r] assms(1) by simp
  have m: "bnv m < 2 ^ 256" using bnv_bound [of m] assms(2) by simp
  show ?thesis
  proof (cases "r ! 8 = 0")
    case False
    then have "1 \<le> unat (r ! 8)" by (simp add: Suc_leI unat_gt_0)
    then have "2 ^ 256 * 1 \<le> 2 ^ 256 * unat (r ! 8)" by (rule mult_le_mono2)
    then have "bnv m \<le> bnv r" using m r by linarith
    then show ?thesis using False by (simp add: rem9_ge_m_def)
  qed (use r rem9_ge_loop_ok [of 8 r m] assms in \<open>simp add: rem9_ge_m_def\<close>)
qed

section \<open>Addition and subtraction\<close>

lemma unat_limb: "unat (x :: u32) < 2 ^ 32"
  using unat_bound [of x] by simp

lemma unat_ucast_limb: "unat (ucast (x :: u32) :: u64) = unat x"
  by (rule unat_ucast_up) simp

lemma unat_low: "unat (ucast (s :: u64) :: u32) = unat s mod 2 ^ 32"
  by (simp add: unsigned_ucast_eq take_bit_eq_mod)

lemma unat_high: "unat (drop_bit 32 (s :: u64)) = unat s div 2 ^ 32"
  by (rule unat_drop_bit)

lemma unat_add_small: "unat a + unat b < 2 ^ 64 \<Longrightarrow> unat (a + b) = unat a + unat b" for a b :: u64
  by (simp add: unat_word_ariths)

lemma limb_sum:
  fixes x y :: u32 and c :: u64
  assumes "unat c \<le> 1"
  shows "unat (ucast x + ucast y + c :: u64) = unat x + unat y + unat c"
proof -
  have "unat x + unat y + unat c < 2 ^ 64" using assms unat_limb [of x] unat_limb [of y] by simp
  then show ?thesis using unat_add_small [of "ucast x" "ucast y"] unat_add_small [of "ucast x + ucast y" c]
    by (simp add: unat_ucast_limb)
qed

lemma carry_step:
  fixes v P c A B x y m :: nat
  assumes "v + P * c = A + B"
  shows "v + P * ((x + y + c) mod m) + P * m * ((x + y + c) div m) = A + P * x + (B + P * y)"
proof -
  define q r where "q = (x + y + c) div m" and "r = (x + y + c) mod m"
  have "m * q + r = x + y + c" unfolding q_def r_def by (rule mult_div_mod_eq)
  then have "P * (m * q + r) = P * (x + y + c)" by (simp only:)
  then show ?thesis unfolding q_def [symmetric] r_def [symmetric] using assms by (simp add: algebra_simps)
qed

lemma bn_add_limbs_ok:
  "n \<le> length a \<Longrightarrow> n \<le> length b \<Longrightarrow>
   case fold (add_limb a b) [0..<n] ([], 0) of (o1, carry) \<Rightarrow>
     length o1 = n \<and> unat carry \<le> 1 \<and> bnv o1 + 2 ^ (32 * n) * unat carry = bnv (take n a) + bnv (take n b)"
proof (induction n)
  case (Suc n)
  obtain o1 c where f: "fold (add_limb a b) [0..<n] ([], 0) = (o1, c)" by fastforce
  have I: "length o1 = n" "unat c \<le> 1" "bnv o1 + 2 ^ (32 * n) * unat c = bnv (take n a) + bnv (take n b)"
    using Suc f by simp_all
  define s where "s = unat (a ! n) + unat (b ! n) + unat c"
  have s: "unat (ucast (a ! n) + ucast (b ! n) + c :: u64) = s" unfolding s_def by (rule limb_sum [OF I(2)])
  have "s < 2 * 2 ^ 32" unfolding s_def using I(2) unat_limb [of "a ! n"] unat_limb [of "b ! n"] by simp
  then have "s div 2 ^ 32 < 2" by (intro less_mult_imp_div_less) simp
  moreover have "bnv (o1 @ [ucast (ucast (a ! n) + ucast (b ! n) + c :: u64)]) + 2 ^ (32 * Suc n) * (s div 2 ^ 32) =
      bnv (take (Suc n) a) + bnv (take (Suc n) b)"
  proof -
    have "2 ^ (32 * Suc n) = 2 ^ (32 * n) * (2 ^ 32 :: nat)" by (simp add: power_add)
    moreover have "bnv (o1 @ [ucast (ucast (a ! n) + ucast (b ! n) + c :: u64)]) = bnv o1 + 2 ^ (32 * n) * (s mod 2 ^ 32)"
      using I(1) by (simp add: bnv_append unat_low s)
    ultimately show ?thesis
      using carry_step [OF I(3), of "unat (a ! n)" "unat (b ! n)" "2 ^ 32"] Suc.prems
      unfolding s_def [symmetric] by (simp only: bnv_take_Suc Suc_le_eq)
  qed
  moreover have "fold (add_limb a b) [0..<Suc n] ([], 0) =
      (o1 @ [ucast (ucast (a ! n) + ucast (b ! n) + c :: u64)], drop_bit 32 (ucast (a ! n) + ucast (b ! n) + c))"
    by (simp add: f) (simp add: add_limb_def Let_def)
  ultimately show ?case using I(1) by (simp add: unat_high s)
qed simp

lemma bn_add_raw_ok:
  assumes "length a = 8" and "length b = 8" and "bn_add_raw a b = (s, c)"
  shows "length s = 8" and "bnv s + 2 ^ 256 * unat c = bnv a + bnv b" and "unat c \<le> 1"
proof -
  obtain o1 d where f: "fold (add_limb a b) [0..<8] ([], 0) = (o1, d)" by fastforce
  have I: "length o1 = 8" "unat d \<le> 1" "bnv o1 + 2 ^ 256 * unat d = bnv a + bnv b"
    using bn_add_limbs_ok [of 8 a b] assms(1,2) unfolding f by simp_all
  moreover have "unat (ucast d :: u32) = unat d" using I(2) by (simp add: unat_low)
  ultimately show "length s = 8" "bnv s + 2 ^ 256 * unat c = bnv a + bnv b" "unat c \<le> 1"
    using assms(3) unfolding bn_add_raw_def f by auto
qed

lemma div_below_two: "n < 2 * m \<Longrightarrow> n div m = (if m \<le> n then 1 else 0)" for n m :: nat
  by (auto simp: le_div_geq)

lemma bn_borrow_step:
  fixes x y b d :: nat
  assumes "x < 2 ^ 32" and "y < 2 ^ 32" and "b \<le> 1" and d: "int d = (int x - int y - int b) mod 2 ^ 64"
  shows "d mod 2 ^ 32 + y + b = x + 2 ^ 32 * (if 2 ^ 63 \<le> d then 1 else 0)"
proof (cases "x < y + b")
  case True
  have "(int x - int y - int b) mod 2 ^ 64 = int x - int y - int b + 2 ^ 64"
    using True assms(1-3) by (intro int_mod_up) simp_all
  then have "d + y + b = x + 2 ^ 64" using d by simp
  moreover from this have "d = (x + 2 ^ 32 - y - b) + (2 ^ 32 - 1) * 2 ^ 32" using True assms(1-3) by simp
  then have "d mod 2 ^ 32 = (x + 2 ^ 32 - y - b) mod 2 ^ 32" by (simp only: mod_mult_self1)
  ultimately show ?thesis using True assms(1-3) by simp
next
  case False
  then have "(int x - int y - int b) mod 2 ^ 64 = int x - int y - int b" using assms(1-3) by simp
  then have "d + y + b = x" using d False by simp
  then show ?thesis using assms(1) by simp
qed

lemma limb_diff:
  fixes x y :: u32 and b :: u64
  assumes "unat b \<le> 1"
  defines "d \<equiv> ucast x - ucast y - b :: u64"
  shows "unat (ucast d :: u32) + unat y + unat b = unat x + 2 ^ 32 * unat (drop_bit 63 d AND 1)"
    and "unat (drop_bit 63 d AND 1) \<le> 1"
proof -
  show "unat (drop_bit 63 d AND 1) \<le> 1" unfolding bit_drop_and_1 by simp
  define v where "v = int (unat x) - int (unat y) - int (unat b)"
  have lim: "unat x < 2 ^ 32" "unat y < 2 ^ 32" by (rule unat_limb)+
  have "uint d = v mod 2 ^ 64"
  proof -
    have z: "uint (ucast z :: u64) = int (unat z)" for z :: u32
      unfolding uint_nat [of "ucast z :: u64"] unat_ucast_limb by (rule refl)
    have "uint d = ((int (unat x) - int (unat y)) mod 2 ^ 64 - uint b) mod 2 ^ 64"
      unfolding d_def uint_word_ariths z by simp
    then show ?thesis unfolding v_def uint_nat [of b] mod_diff_left_eq .
  qed
  then have d: "int (unat d) = v mod 2 ^ 64" unfolding uint_nat [of d] .
  have top: "unat (drop_bit 63 d AND 1) = (if 2 ^ 63 \<le> unat d then 1 else 0)"
  proof -
    have "unat (drop_bit 63 d AND 1) = unat d div 2 ^ 63 mod 2"
      using unat_and_mask [of "drop_bit 63 d" 1] by (simp add: unat_drop_bit)
    moreover have "unat d div 2 ^ 63 = (if 2 ^ 63 \<le> unat d then 1 else 0)"
      using unat_bound [of d] by (intro div_below_two) simp
    ultimately show ?thesis by simp
  qed
  show "unat (ucast d :: u32) + unat y + unat b = unat x + 2 ^ 32 * unat (drop_bit 63 d AND 1)"
    unfolding top unat_low by (rule bn_borrow_step [OF lim assms(1) d [unfolded v_def]])
qed

lemma sub_limbs_ok:
  "n \<le> length a \<Longrightarrow> n \<le> length b \<Longrightarrow>
   case fold (sub_limb a b) [0..<n] ([], 0) of (o1, borrow) \<Rightarrow>
     length o1 = n \<and> unat borrow \<le> 1 \<and> bnv o1 + bnv (take n b) = bnv (take n a) + 2 ^ (32 * n) * unat borrow"
proof (induction n)
  case (Suc n)
  obtain o1 c where f: "fold (sub_limb a b) [0..<n] ([], 0) = (o1, c)" by fastforce
  have I: "length o1 = n" "unat c \<le> 1" "bnv o1 + bnv (take n b) = bnv (take n a) + 2 ^ (32 * n) * unat c"
    using Suc f by simp_all
  define d :: u64 where "d = ucast (a ! n) - ucast (b ! n) - c"
  note l = limb_diff [OF I(2), of "a ! n" "b ! n", folded d_def]
  have "2 ^ (32 * n) * (unat (ucast d :: u32) + unat (b ! n) + unat c) =
      2 ^ (32 * n) * (unat (a ! n) + 2 ^ 32 * unat (drop_bit 63 d AND 1))" by (simp only: l(1))
  then have "bnv (o1 @ [ucast d]) + bnv (take (Suc n) b) = bnv (take (Suc n) a) + 2 ^ (32 * Suc n) * unat (drop_bit 63 d AND 1)"
    using I(1,3) Suc.prems by (simp add: bnv_append bnv_take_Suc power_add algebra_simps)
  moreover have "fold (sub_limb a b) [0..<Suc n] ([], 0) = (o1 @ [ucast d], drop_bit 63 d AND 1)"
    by (simp add: f) (simp add: sub_limb_def Let_def d_def)
  ultimately show ?case using I(1) l(2) by simp
qed simp

lemma bn_sub_raw_ok:
  assumes "length a = 8" and "length b = 8" and "bn_sub_raw a b = (s, c)"
  shows "length s = 8" and "bnv s + bnv b = bnv a + 2 ^ 256 * unat c" and "unat c \<le> 1"
proof -
  obtain o1 d where f: "fold (sub_limb a b) [0..<8] ([], 0) = (o1, d)" by fastforce
  have I: "length o1 = 8" "unat d \<le> 1" "bnv o1 + bnv b = bnv a + 2 ^ 256 * unat d"
    using sub_limbs_ok [of 8 a b] assms(1,2) unfolding f by simp_all
  moreover have "unat (ucast d :: u32) = unat d" using I(2) by (simp add: unat_low)
  ultimately show "length s = 8" "bnv s + bnv b = bnv a + 2 ^ 256 * unat c" "unat c \<le> 1"
    using assms(3) unfolding bn_sub_raw_def f by auto
qed

section \<open>Multiplication\<close>

lemma mul_limb:
  fixes x y z :: u32 and c :: u64
  assumes "unat c < 2 ^ 32"
  shows "unat (ucast x * ucast y + ucast z + c :: u64) = unat x * unat y + unat z + unat c"
proof -
  have "unat x \<le> 2 ^ 32 - 1" "unat y \<le> 2 ^ 32 - 1" "unat z \<le> 2 ^ 32 - 1"
    using unat_limb [of x] unat_limb [of y] unat_limb [of z] by simp_all
  moreover from this(1,2) have "unat x * unat y \<le> (2 ^ 32 - 1) * (2 ^ 32 - 1)" by (rule mult_le_mono)
  ultimately have b: "unat x * unat y + unat z + unat c < 2 ^ 64" using assms by simp
  then have "unat (ucast x * ucast y :: u64) = unat x * unat y"
    by (simp add: unat_word_ariths unat_ucast_limb)
  then show ?thesis
    using b unat_add_small [of "ucast x * ucast y" "ucast z"] unat_add_small [of "ucast x * ucast y + ucast z" c]
    by (simp add: unat_ucast_limb)
qed

lemma mul_carry_step:
  fixes v w P x z c m A :: nat
  assumes "w + P * z = v + P * ((x + z + c) mod m)" and "v + P * c = A"
  shows "w + P * m * ((x + z + c) div m) = A + P * x"
proof -
  define q r where "q = (x + z + c) div m" and "r = (x + z + c) mod m"
  have "m * q + r = x + z + c" unfolding q_def r_def by (rule mult_div_mod_eq)
  then have "P * (m * q + r) = P * (x + z + c)" by (simp only:)
  then show ?thesis using assms unfolding q_def [symmetric] r_def [symmetric] by (simp add: algebra_simps)
qed

lemma mul_steps_ok:
  assumes "length o1 = 16" and "i < 8" and "length b = 8" and "n \<le> 8"
  shows "case fold (mul_step a b i) [0..<n] (o1, 0) of (o2, carry) \<Rightarrow>
    length o2 = 16 \<and> unat carry < 2 ^ 32 \<and> (\<forall>k < 16. k \<ge> i + n \<longrightarrow> o2 ! k = o1 ! k) \<and>
    bnv o2 + 2 ^ (32 * (i + n)) * unat carry = bnv o1 + 2 ^ (32 * i) * (unat (a ! i) * bnv (take n b))"
  using assms(4)
proof (induction n)
  case 0
  then show ?case using assms(1) by simp
next
  case (Suc n)
  obtain o2 c where f: "fold (mul_step a b i) [0..<n] (o1, 0) = (o2, c)" by fastforce
  have I: "length o2 = 16" "unat c < 2 ^ 32" "\<forall>k < 16. k \<ge> i + n \<longrightarrow> o2 ! k = o1 ! k"
      "bnv o2 + 2 ^ (32 * (i + n)) * unat c = bnv o1 + 2 ^ (32 * i) * (unat (a ! i) * bnv (take n b))"
    using Suc f by simp_all
  define t :: u64 where "t = ucast (a ! i) * ucast (b ! n) + ucast (o2 ! (i + n)) + c"
  note t = mul_limb [OF I(2), of "a ! i" "b ! n" "o2 ! (i + n)", folded t_def]
  have idx: "i + n < length o2" using assms(2) Suc.prems I(1) by simp
  have u: "bnv (o2[i + n := ucast t]) + 2 ^ (32 * (i + n)) * unat (o2 ! (i + n)) =
      bnv o2 + 2 ^ (32 * (i + n)) * (unat t mod 2 ^ 32)"
    using bnv_update [OF idx, of "ucast t"] unfolding unat_low .
  have "bnv (o2[i + n := ucast t]) + 2 ^ (32 * (i + n)) * 2 ^ 32 * (unat t div 2 ^ 32) =
      bnv o1 + 2 ^ (32 * i) * (unat (a ! i) * bnv (take n b)) + 2 ^ (32 * (i + n)) * (unat (a ! i) * unat (b ! n))"
    using mul_carry_step [OF u [unfolded t] I(4)] unfolding t [symmetric] .
  moreover have "2 ^ (32 * (i + Suc n)) = 2 ^ (32 * (i + n)) * (2 ^ 32 :: nat)" by (simp add: power_add)
  moreover have "2 ^ (32 * i) * (unat (a ! i) * bnv (take (Suc n) b)) =
      2 ^ (32 * i) * (unat (a ! i) * bnv (take n b)) + 2 ^ (32 * (i + n)) * (unat (a ! i) * unat (b ! n))"
    using Suc.prems assms(3) by (simp add: bnv_take_Suc algebra_simps power_add)
  ultimately have "bnv (o2[i + n := ucast t]) + 2 ^ (32 * (i + Suc n)) * (unat t div 2 ^ 32) =
      bnv o1 + 2 ^ (32 * i) * (unat (a ! i) * bnv (take (Suc n) b))" by (simp only: add.assoc)
  moreover have "unat t div 2 ^ 32 < 2 ^ 32" using unat_bound [of t] by (intro less_mult_imp_div_less) simp
  moreover have "fold (mul_step a b i) [0..<Suc n] (o1, 0) = (o2[i + n := ucast t], drop_bit 32 t)"
    by (simp add: f) (simp add: mul_step_def Let_def t_def)
  ultimately show ?case using I(1,3) by (simp add: unat_high)
qed

text \<open>A row: the limb above it is still 0, so the carry loop runs at most once and ends inside the array.\<close>

lemma mul_row_ok:
  assumes "length o1 = 16" and "i < 8" and "length b = 8" and "\<forall>k < 16. k \<ge> i + 8 \<longrightarrow> o1 ! k = 0"
    and "fold (mul_step a b i) [0..<8] (o1, 0) = (o2, carry)"
  shows "snd (mul_carry o2 (i + 8) carry) = 0"
    and "length (mul_row a b i o1) = 16"
    and "\<forall>k < 16. k \<ge> Suc i + 8 \<longrightarrow> mul_row a b i o1 ! k = 0"
    and "bnv (mul_row a b i o1) = bnv o1 + 2 ^ (32 * i) * (unat (a ! i) * bnv b)"
proof -
  have I: "length o2 = 16" "unat carry < 2 ^ 32" "\<forall>k < 16. k \<ge> i + 8 \<longrightarrow> o2 ! k = o1 ! k"
      "bnv o2 + 2 ^ (32 * (i + 8)) * unat carry = bnv o1 + 2 ^ (32 * i) * (unat (a ! i) * bnv b)"
    using mul_steps_ok [OF assms(1-3), of 8 a] assms(3) unfolding assms(5) by simp_all
  have z: "o2 ! (i + 8) = 0" using I(3) assms(2,4) by simp
  have "unat (drop_bit 32 carry) = 0" using I(2) by (simp add: unat_high)
  then have hi: "drop_bit 32 carry = 0" by (simp add: unat_eq_0)
  have c: "mul_carry o2 (i + 8) carry = (if carry = 0 then o2 else o2[i + 8 := ucast carry], 0)"
    using mul_carry.simps [of o2 "i + 8" carry] mul_carry.simps [of "o2[i + 8 := ucast carry]" "i + 8 + 1" 0]
      I(1) assms(2) by (simp add: z hi Let_def)
  then show "snd (mul_carry o2 (i + 8) carry) = 0" by simp
  have r: "mul_row a b i o1 = (if carry = 0 then o2 else o2[i + 8 := ucast carry])"
    by (simp add: mul_row_def assms(5) c)
  show "length (mul_row a b i o1) = 16" using I(1) by (simp add: r)
  show "\<forall>k < 16. k \<ge> Suc i + 8 \<longrightarrow> mul_row a b i o1 ! k = 0" using I(3) assms(4) by (simp add: r)
  have "bnv (mul_row a b i o1) = bnv o2 + 2 ^ (32 * (i + 8)) * unat carry"
    using bnv_update [of "i + 8" o2 "ucast carry"] I(1,2) assms(2) by (simp add: r z unat_low)
  then show "bnv (mul_row a b i o1) = bnv o1 + 2 ^ (32 * i) * (unat (a ! i) * bnv b)" using I(4) by simp
qed

lemma mul_rows_ok:
  assumes "length a = 8" and "length b = 8" and "n \<le> 8"
  defines "w \<equiv> fold (mul_row a b) [0..<n] (replicate 16 0)"
  shows "length w = 16 \<and> (\<forall>k < 16. k \<ge> n + 8 \<longrightarrow> w ! k = 0) \<and> bnv w = bnv (take n a) * bnv b"
  using assms(3) unfolding w_def
proof (induction n)
  case (Suc n)
  define w where "w = fold (mul_row a b) [0..<n] (replicate 16 0)"
  have I: "length w = 16" "\<forall>k < 16. k \<ge> n + 8 \<longrightarrow> w ! k = 0" "bnv w = bnv (take n a) * bnv b"
    using Suc unfolding w_def by simp_all
  obtain o2 c where f: "fold (mul_step a b n) [0..<8] (w, 0) = (o2, c)" by fastforce
  note r = mul_row_ok [OF I(1) _ assms(2) I(2) f]
  have "bnv (mul_row a b n w) = bnv (take (Suc n) a) * bnv b"
    using r(4) I(3) Suc.prems assms(1) by (simp add: bnv_take_Suc algebra_simps)
  then show ?case using r(2,3) Suc.prems by (simp add: w_def [symmetric])
qed (simp add: nth_replicate)

lemma bn_mul_wide_ok:
  assumes "length a = 8" and "length b = 8"
  shows "length (bn_mul_wide a b) = 16" and "bnv (bn_mul_wide a b) = bnv a * bnv b"
  using mul_rows_ok [OF assms, of 8] assms unfolding bn_mul_wide_def by simp_all

section \<open>Bytes\<close>

lemma limb_bytes:
  fixes a b c d :: byte
  shows "unat (push_bit 24 (ucast a) OR push_bit 16 (ucast b) OR push_bit 8 (ucast c) OR ucast d :: u32) =
    le_nat [d, c, b, a]"
proof -
  have u: "unat (ucast x :: u32) = unat x" for x :: byte by (rule unat_ucast_up) simp
  have l: "unat x < 256" for x :: byte using unat_bound [of x] by simp
  have "push_bit 24 (ucast a) OR push_bit 16 (ucast b) OR push_bit 8 (ucast c) OR ucast d =
      ((ucast d OR push_bit 8 (ucast c)) OR push_bit 16 (ucast b)) OR push_bit 24 (ucast a :: u32)"
    by (simp add: or.commute or.left_commute or.assoc)
  then show ?thesis
    using unat_or4 [of "ucast d :: u32" 8 "ucast c" 16 "ucast b" 24 "ucast a"] l [of a] l [of b] l [of c] l [of d]
    by (simp add: u)
qed

lemma bn_from_bytes_be_ok:
  assumes "length bs = 32"
  shows "length (bn_from_bytes_be bs) = 8" and "bnv (bn_from_bytes_be bs) = be_nat bs"
proof -
  obtain x where x: "bs = map x [0..<32]" using assms by (metis map_nth)
  show "length (bn_from_bytes_be bs) = 8" by (simp add: bn_from_bytes_be_def)
  show "bnv (bn_from_bytes_be bs) = be_nat bs"
    unfolding bn_from_bytes_be_def be_nat_def x Let_def
    by (simp add: limb_bytes upt_rec numeral_eq_Suc [symmetric] del: le_nat.simps) (simp add: upt_rec)
qed

section \<open>Reduction\<close>

lemma shift_limb:
  fixes x c :: u32
  assumes "unat c \<le> 1"
  shows "unat (push_bit 1 x OR c) + 2 ^ 32 * unat (drop_bit 31 x) = 2 * unat x + unat c"
    and "unat (drop_bit 31 x) \<le> 1"
proof -
  have d: "unat (drop_bit 31 x) = unat x div 2 ^ 31" by (rule unat_drop_bit)
  have "unat x div 2 ^ 31 < 2" using unat_limb [of x] by (intro less_mult_imp_div_less) simp
  then show "unat (drop_bit 31 x) \<le> 1" using d by simp
  have "unat (push_bit 1 x OR c) = (unat c + 2 * unat x) mod 2 ^ 32"
    using unat_or_shift_mod [of c 1 x] assms by (simp add: or.commute)
  moreover have "(unat c + 2 * unat x) div 2 = unat x" using assms by simp
  then have "(unat c + 2 * unat x) div 2 ^ 32 = unat x div 2 ^ 31"
    using div_mult2_eq [of "unat c + 2 * unat x" 2 "2 ^ 31"] by simp
  ultimately show "unat (push_bit 1 x OR c) + 2 ^ 32 * unat (drop_bit 31 x) = 2 * unat x + unat c"
    unfolding d using mod_mult_div_eq [of "unat c + 2 * unat x" "2 ^ 32"] by simp
qed

lemma rem_shift_prefix:
  fixes rem :: "u32 list"
  defines "f \<equiv> \<lambda>i (r, carry). let next_carry = drop_bit 31 (rem ! i) in (r @ [push_bit 1 (rem ! i) OR carry], next_carry)"
  shows "n \<le> length rem \<Longrightarrow> case fold f [0..<n] ([], 0) of (r, carry) \<Rightarrow>
    length r = n \<and> unat carry \<le> 1 \<and> bnv r + 2 ^ (32 * n) * unat carry = 2 * bnv (take n rem)"
proof (induction n)
  case (Suc n)
  obtain r c where e: "fold f [0..<n] ([], 0) = (r, c)" by fastforce
  have I: "length r = n" "unat c \<le> 1" "bnv r + 2 ^ (32 * n) * unat c = 2 * bnv (take n rem)" using Suc e by simp_all
  note l = shift_limb [OF I(2), of "rem ! n"]
  have "2 ^ (32 * n) * (unat (push_bit 1 (rem ! n) OR c) + 2 ^ 32 * unat (drop_bit 31 (rem ! n))) =
      2 ^ (32 * n) * (2 * unat (rem ! n) + unat c)" by (simp only: l(1))
  then have "bnv (r @ [push_bit 1 (rem ! n) OR c]) + 2 ^ (32 * Suc n) * unat (drop_bit 31 (rem ! n)) = 2 * bnv (take (Suc n) rem)"
    using I(1,3) Suc.prems by (simp add: bnv_append bnv_take_Suc power_add algebra_simps)
  moreover have "fold f [0..<Suc n] ([], 0) = (r @ [push_bit 1 (rem ! n) OR c], drop_bit 31 (rem ! n))"
    by (simp add: e) (simp add: f_def Let_def)
  ultimately show ?case using I(1) l(2) by simp
qed simp

lemma rem_shift_ok:
  assumes "length rem = 9" and "bnv rem < 2 ^ 256"
  shows "length (rem_shift rem) = 9" and "bnv (rem_shift rem) = 2 * bnv rem"
proof -
  define f where "f = (\<lambda>i (r, carry). let next_carry = drop_bit 31 (rem ! i) in (r @ [push_bit 1 (rem ! i) OR carry], next_carry))"
  obtain r c where e: "fold f [0..<9] ([], 0) = (r, c)" by fastforce
  have s: "rem_shift rem = r" unfolding rem_shift_def f_def [symmetric] e by simp
  have I: "length r = 9" "bnv r + 2 ^ 288 * unat c = 2 * bnv rem"
    using rem_shift_prefix [of 9 rem, folded f_def] assms(1) unfolding e by simp_all
  then have "unat c = 0" using assms(2) by simp
  then show "length (rem_shift rem) = 9" "bnv (rem_shift rem) = 2 * bnv rem" using I s by simp_all
qed

lemma set_low_bit:
  assumes "length r = 9" and "even (bnv r)"
  shows "bnv (r[0 := r ! 0 OR of_bool b]) = bnv r + of_bool b"
proof -
  obtain x xs where r: "r = x # xs" using assms(1) by (cases r) simp_all
  have "even (unat x)" using assms(2) by (simp add: r)
  have "x OR of_bool b = x + of_bool b"
  proof -
    have "\<not> bit (unat x) 0" using \<open>even (unat x)\<close> by (simp add: bit_0)
    then have "\<not> bit x 0" by (simp only: bit_unsigned_iff) simp
    then have "x AND of_bool b = 0" by (cases b) (simp_all add: and_one_eq bit_0 even_iff_mod_2_eq_zero)
    then show ?thesis by (simp add: disjunctive_add_eq_or)
  qed
  moreover obtain k where "unat x = 2 * k" using \<open>even (unat x)\<close> by (rule evenE)
  then have "unat x + 1 < 2 ^ 32" using unat_limb [of x] by simp
  then have "unat (x + of_bool b) = unat x + of_bool b" by (cases b) (simp_all add: unat_word_ariths)
  ultimately show ?thesis by (simp add: r)
qed

lemma rem_subtract_ok:
  assumes "length r = 9" and "length m = 8" and "bnv m \<le> bnv r"
  shows "length (rem_subtract r m) = 9" and "bnv (rem_subtract r m) = bnv r - bnv m"
proof -
  obtain s c where f: "fold (sub_limb r m) [0..<8] ([], 0) = (s, c)" by fastforce
  have I: "length s = 8" "unat c \<le> 1" "bnv s + bnv m = bnv (take 8 r) + 2 ^ 256 * unat c"
    using sub_limbs_ok [of 8 r m] assms(1,2) unfolding f by simp_all
  have r: "bnv r = bnv (take 8 r) + 2 ^ 256 * unat (r ! 8)" using bnv_take_Suc [of 8 r] assms(1) by simp
  have s: "bnv s < 2 ^ 256" using bnv_bound [of s] I(1) by simp
  have c: "unat c \<le> unat (r ! 8)"
  proof (rule ccontr)
    assume "\<not> unat c \<le> unat (r ! 8)"
    then have "unat c = 1" "unat (r ! 8) = 0" using I(2) by simp_all
    then show False using I(3) r s assms(3) by simp
  qed
  then have t: "unat (ucast (ucast (r ! 8) - c :: u64) :: u32) = unat (r ! 8) - unat c"
    using unat_limb [of "r ! 8"] by (simp add: unat_low unat_sub word_le_nat_alt unat_ucast_limb)
  have e: "rem_subtract r m = s @ [ucast (ucast (r ! 8) - c :: u64)]" by (simp add: rem_subtract_def f)
  show "length (rem_subtract r m) = 9" using I(1) by (simp add: e)
  have "2 ^ 256 * unat (r ! 8) = 2 ^ 256 * (unat (r ! 8) - unat c) + 2 ^ 256 * unat c"
    using c by (simp add: distrib_left [symmetric] del: mult_eq_if)
  then show "bnv (rem_subtract r m) = bnv r - bnv m"
    using I(1,3) r by (simp add: e bnv_append t)
qed

lemma reduce_bit_ok:
  assumes "length rem = 9" and "length m = 8" and "bnv rem < bnv m" and "length w = 16" and "t < 512"
  shows "length (reduce_bit w m t rem) = 9"
    and "bnv (reduce_bit w m t rem) = (2 * bnv rem + of_bool (bit (bnv w) t)) mod bnv m"
proof -
  have m: "bnv m < 2 ^ 256" using bnv_bound [of m] assms(2) by simp
  then have "bnv rem < 2 ^ 256" using assms(3) by simp
  note s = rem_shift_ok [OF assms(1) this]
  define v where "v = 2 * bnv rem + of_bool (bit (bnv w) t)"
  define r where "r = (rem_shift rem)[0 := rem_shift rem ! 0 OR (drop_bit (t mod 32) (w ! (t div 32)) AND 1)]"
  have l: "length r = 9" using s(1) by (simp add: r_def)
  have b: "drop_bit (t mod 32) (w ! (t div 32)) AND 1 = of_bool (bit (bnv w) t)"
    using assms(4,5) by (simp add: bit_drop_and_1 bit_bnv)
  have r: "bnv r = v" unfolding r_def b v_def using set_low_bit [OF s(1)] s(2) by simp
  have e: "reduce_bit w m t rem = (if bnv m \<le> v then rem_subtract r m else r)"
    by (simp add: reduce_bit_def Let_def r_def [symmetric] rem9_ge_m_ok [OF l assms(2)] r)
  have "v < 2 * bnv m" unfolding v_def using assms(3) by (cases "bit (bnv w) t") simp_all
  then have "v mod bnv m = (if bnv m \<le> v then v - bnv m else v)" by (simp add: le_mod_geq)
  then show "length (reduce_bit w m t rem) = 9" "bnv (reduce_bit w m t rem) = (2 * bnv rem + of_bool (bit (bnv w) t)) mod bnv m"
    unfolding e v_def [symmetric] using rem_subtract_ok [OF l assms(2)] l r by simp_all
qed

lemma reduce_bits_ok:
  assumes "length m = 8" and "0 < bnv m" and "length w = 16" and "n \<le> 512"
    and "length rem = 9" and "bnv rem = (bnv w div 2 ^ n) mod bnv m"
  shows "length (fold (reduce_bit w m) (rev [0..<n]) rem) = 9 \<and>
    bnv (fold (reduce_bit w m) (rev [0..<n]) rem) = bnv w mod bnv m"
  using assms(4-6)
proof (induction n arbitrary: rem)
  case (Suc n)
  have "bnv rem < bnv m" using Suc.prems(3) assms(2) by simp
  from reduce_bit_ok [OF Suc.prems(2) assms(1) this assms(3), of n] Suc.prems(1)
  have r: "length (reduce_bit w m n rem) = 9"
      "bnv (reduce_bit w m n rem) = (2 * bnv rem + of_bool (bit (bnv w) n)) mod bnv m" by simp_all
  have "bnv w div 2 ^ n = 2 * (bnv w div 2 ^ Suc n) + of_bool (bit (bnv w) n)"
  proof -
    define q where "q = bnv w div 2 ^ n"
    have "bnv w div 2 ^ Suc n = q div 2" unfolding q_def power_Suc2 by (rule div_mult2_eq)
    moreover have "of_bool (bit (bnv w) n) = q mod 2" unfolding q_def bit_iff_odd by (simp add: mod_2_eq_odd)
    ultimately show ?thesis unfolding q_def [symmetric] by simp
  qed
  then have "bnv (reduce_bit w m n rem) = (bnv w div 2 ^ n) mod bnv m"
    unfolding r(2) Suc.prems(3) by (metis mod_add_left_eq mod_mult_right_eq)
  then show ?case using Suc.IH [OF _ r(1)] Suc.prems(1) by simp
qed simp

lemma mod_reduce_wide_ok:
  assumes "length w = 16" and "length m = 8" and "0 < bnv m"
  shows "length (mod_reduce_wide w m) = 8" and "bnv (mod_reduce_wide w m) = bnv w mod bnv m"
proof -
  define r where "r = fold (reduce_bit w m) (rev [0..<512]) (replicate 9 0)"
  have "bnv w div 2 ^ 512 = 0" using bnv_bound [of w] assms(1) by simp
  then have r: "length r = 9" "bnv r = bnv w mod bnv m"
    using reduce_bits_ok [OF assms(2,3,1), of 512 "replicate 9 0"] by (simp_all add: r_def del: upt_rec_numeral)
  have e: "mod_reduce_wide w m = take 8 r"
    by (simp add: mod_reduce_wide_def Let_def r_def [symmetric] take_map_nth r(1) del: upt_rec_numeral)
  show "length (mod_reduce_wide w m) = 8" using r(1) by (simp add: e)
  have "bnv r = bnv (take 8 r) + 2 ^ 256 * unat (r ! 8)" using bnv_take_Suc [of 8 r] r(1) by simp
  moreover have "bnv r < bnv m" using r(2) assms(3) by simp
  then have "bnv r < 2 ^ 256" using bnv_bound [of m] assms(2) by simp
  ultimately have "unat (r ! 8) = 0" by simp
  then show "bnv (mod_reduce_wide w m) = bnv w mod bnv m"
    using \<open>bnv r = bnv (take 8 r) + _\<close> r(2) by (simp add: e)
qed

section \<open>Modular operations\<close>

lemma mod_mul_ok:
  assumes "length a = 8" and "length b = 8" and "length m = 8" and "0 < bnv m"
  shows "length (mod_mul a b m) = 8" and "bnv (mod_mul a b m) = bnv a * bnv b mod bnv m"
  using mod_reduce_wide_ok [OF bn_mul_wide_ok(1) [OF assms(1,2)] assms(3,4)] bn_mul_wide_ok(2) [OF assms(1,2)]
  by (simp_all add: mod_mul_def)

lemma bnv_limit: "length a = 8 \<Longrightarrow> bnv a < 2 ^ 256"
  using bnv_bound [of a] by simp

lemma mod_add_ok:
  assumes l: "length a = 8" "length b = 8" "length m = 8" and r: "bnv a < bnv m" "bnv b < bnv m"
  shows "length (mod_add a b m) = 8" and "bnv (mod_add a b m) = (bnv a + bnv b) mod bnv m"
proof -
  obtain s c where f: "bn_add_raw a b = (s, c)" by fastforce
  note S = bn_add_raw_ok [OF l(1,2) f]
  obtain t d where g: "bn_sub_raw s m = (t, d)" by fastforce
  note T = bn_sub_raw_ok [OF S(1) l(3) g]
  have cd: "unat c = 0 \<or> unat c = 1" "unat d = 0 \<or> unat d = 1" using S(3) T(3) by linarith+
  have c0: "c = 0 \<longleftrightarrow> unat c = 0" by (simp add: unat_eq_0)
  note lim = bnv_limit [OF S(1)] bnv_limit [OF T(1)] bnv_limit [OF l(3)]
  have e: "mod_add a b m = (if c \<noteq> 0 \<or> bnv m \<le> bnv s then t else s)"
    by (simp add: mod_add_def f g bn_cmp_ok(1) [OF S(1) l(3)])
  show "length (mod_add a b m) = 8" using S(1) T(1) by (simp add: e)
  show "bnv (mod_add a b m) = (bnv a + bnv b) mod bnv m"
  proof (cases "bnv m \<le> bnv a + bnv b")
    case True
    then have "c \<noteq> 0 \<or> bnv m \<le> bnv s" using S(2) c0 by auto
    moreover have "bnv t = bnv a + bnv b - bnv m" using True S(2) T(2) cd lim r by auto
    moreover have "(bnv a + bnv b) mod bnv m = bnv a + bnv b - bnv m" using True r by (simp add: le_mod_geq)
    ultimately show ?thesis by (simp add: e)
  next
    case False
    then have "unat c = 0" using S(2) cd(1) lim(3) by auto
    then show ?thesis using False S(2) c0 by (simp add: e)
  qed
qed

lemma mod_sub_ok:
  assumes l: "length a = 8" "length b = 8" "length m = 8" and r: "bnv a < bnv m" "bnv b < bnv m"
  shows "length (mod_sub a b m) = 8" and "int (bnv (mod_sub a b m)) = (int (bnv a) - int (bnv b)) mod int (bnv m)"
proof -
  obtain s c where f: "bn_sub_raw a b = (s, c)" by fastforce
  note S = bn_sub_raw_ok [OF l(1,2) f]
  obtain t d where g: "bn_add_raw s m = (t, d)" by fastforce
  note T = bn_add_raw_ok [OF S(1) l(3) g]
  have cd: "unat c = 0 \<or> unat c = 1" "unat d = 0 \<or> unat d = 1" using S(3) T(3) by linarith+
  have c0: "c = 0 \<longleftrightarrow> unat c = 0" by (simp add: unat_eq_0)
  note lim = bnv_limit [OF S(1)] bnv_limit [OF T(1)] bnv_limit [OF l(3)]
  have e: "mod_sub a b m = (if c \<noteq> 0 then t else s)" by (simp add: mod_sub_def f g)
  show "length (mod_sub a b m) = 8" using S(1) T(1) by (simp add: e)
  show "int (bnv (mod_sub a b m)) = (int (bnv a) - int (bnv b)) mod int (bnv m)"
  proof (cases "bnv b \<le> bnv a")
    case True
    then have "unat c = 0" using S(2) cd(1) lim r by auto
    then have "bnv (mod_sub a b m) + bnv b = bnv a" using S(2) c0 by (simp add: e)
    then have "int (bnv (mod_sub a b m)) = int (bnv a) - int (bnv b)" by linarith
    then show ?thesis using True r by simp
  next
    case False
    then have "unat c = 1" using S(2) cd(1) by auto
    moreover have "bnv t + bnv b = bnv a + bnv m"
      using cd(2) calculation S(2) T(2) False lim r by (elim disjE) simp_all
    ultimately have "bnv (mod_sub a b m) + bnv b = bnv a + bnv m" using c0 by (simp add: e)
    then have "int (bnv (mod_sub a b m)) = int (bnv a) - int (bnv b) + int (bnv m)" by linarith
    then show ?thesis using False r by (simp add: int_mod_up)
  qed
qed

lemma power_bit_step: "b ^ (e mod 2 ^ Suc n) = b ^ (e mod 2 ^ n) * (if bit e n then b ^ 2 ^ n else 1)" for b e :: nat
proof -
  have "e mod 2 ^ Suc n = e mod 2 ^ n + 2 ^ n * (e div 2 ^ n mod 2)"
    unfolding power_Suc2 by (simp add: mod_mult2_eq)
  then show ?thesis by (simp add: power_add bit_iff_odd mod_2_eq_odd)
qed

lemma mod_pow_loop:
  assumes l: "length base = 8" "length e = 8" "length m = 8" and m: "1 < bnv m"
  defines "f \<equiv> \<lambda>i (result, b). (if bn_test_bit e i then mod_mul result b m else result, mod_mul b b m)"
  shows "n \<le> 256 \<Longrightarrow> case fold f [0..<n] ([1, 0, 0, 0, 0, 0, 0, 0], base) of (result, b) \<Rightarrow>
    length result = 8 \<and> length b = 8 \<and> bnv result = bnv base ^ (bnv e mod 2 ^ n) mod bnv m \<and>
    bnv b mod bnv m = bnv base ^ 2 ^ n mod bnv m"
proof (induction n)
  case 0
  then show ?case using l m by simp
next
  case (Suc n)
  obtain r b where e: "fold f [0..<n] ([1, 0, 0, 0, 0, 0, 0, 0], base) = (r, b)" by fastforce
  have I: "length r = 8" "length b = 8" "bnv r = bnv base ^ (bnv e mod 2 ^ n) mod bnv m"
      "bnv b mod bnv m = bnv base ^ 2 ^ n mod bnv m" using Suc e by simp_all
  have m0: "0 < bnv m" using m by simp
  note rb = mod_mul_ok [OF I(1,2) l(3) m0] and bb = mod_mul_ok [OF I(2,2) l(3) m0]
  have "bnv (mod_mul b b m) mod bnv m = bnv base ^ 2 ^ n * bnv base ^ 2 ^ n mod bnv m"
    unfolding bb(2) using I(4) by (metis mod_mod_trivial mod_mult_cong)
  then have "bnv (mod_mul b b m) mod bnv m = bnv base ^ 2 ^ Suc n mod bnv m"
    by (simp add: power_add [symmetric] mult_2 [symmetric])
  moreover have "bnv (mod_mul r b m) = bnv base ^ (bnv e mod 2 ^ n) * bnv base ^ 2 ^ n mod bnv m"
    unfolding rb(2) I(3) using I(4) by (metis mod_mod_trivial mod_mult_cong)
  moreover have "fold f [0..<Suc n] ([1, 0, 0, 0, 0, 0, 0, 0], base) =
      (if bit (bnv e) n then mod_mul r b m else r, mod_mul b b m)"
    using Suc.prems l(2) by (simp add: e) (simp add: f_def bn_test_bit_iff)
  ultimately show ?case using I rb(1) bb(1) by (simp add: power_bit_step [of _ _ n] del: power_Suc)
qed

lemma mod_pow_ok:
  assumes "length base = 8" and "length e = 8" and "length m = 8" and "1 < bnv m"
  shows "length (mod_pow base e m) = 8" and "bnv (mod_pow base e m) = bnv base ^ bnv e mod bnv m"
proof -
  define f where "f = (\<lambda>i (result, b). (if bn_test_bit e i then mod_mul result b m else result, mod_mul b b m))"
  obtain r b where g: "fold f [0..<256] ([1, 0, 0, 0, 0, 0, 0, 0], base) = (r, b)" by fastforce
  have p: "mod_pow base e m = r" unfolding mod_pow_def f_def [symmetric] g by simp
  show "length (mod_pow base e m) = 8" "bnv (mod_pow base e m) = bnv base ^ bnv e mod bnv m"
    using mod_pow_loop [OF assms, of 256, folded f_def] bnv_limit [OF assms(2)] unfolding g p by simp_all
qed

lemma mod_inv_ok:
  assumes "length a = 8" and "length m = 8" and "2 \<le> bnv m"
  shows "length (mod_inv a m) = 8" and "bnv (mod_inv a m) = bnv a ^ (bnv m - 2) mod bnv m"
proof -
  obtain s c where f: "bn_sub_raw m [2, 0, 0, 0, 0, 0, 0, 0] = (s, c)" by fastforce
  note S = bn_sub_raw_ok [OF assms(2) _ f]
  have "unat c = 0" using S(2,3) assms(3) bnv_limit [OF S(1)] by (cases "unat c") auto
  then have s: "length s = 8" "bnv s = bnv m - 2" using S by simp_all
  have "1 < bnv m" using assms(3) by simp
  from mod_pow_ok [OF assms(1) s(1) assms(2) this]
  show "length (mod_inv a m) = 8" "bnv (mod_inv a m) = bnv a ^ (bnv m - 2) mod bnv m"
    by (simp_all add: mod_inv_def f s(2))
qed

lemma mod_reduce_once_ok:
  assumes "length a = 8" and "length m = 8" and "0 < bnv m"
  shows "\<exists>r. mod_reduce_once a m = Some r \<and> length r = 8 \<and> bnv r = bnv a mod bnv m"
  using assms(1)
proof (induction "bnv a" arbitrary: a rule: less_induct)
  case less
  show ?case
  proof (cases "bnv m \<le> bnv a")
    case True
    obtain s c where f: "bn_sub_raw a m = (s, c)" by fastforce
    note S = bn_sub_raw_ok [OF less.prems assms(2) f]
    have "unat c = 0" using S(2,3) True bnv_limit [OF S(1)] by (cases "unat c") auto
    then have s: "length s = 8" "bnv s = bnv a - bnv m" using S(1,2) by simp_all
    have "bnv s < bnv a" using s(2) True assms(3) by simp
    from less.hyps [OF this s(1)] s(2) True
    have "\<exists>r. mod_reduce_once s m = Some r \<and> length r = 8 \<and> bnv r = bnv a mod bnv m" by (simp add: le_mod_geq)
    moreover have "mod_reduce_once a m = mod_reduce_once s m"
      using True by (subst mod_reduce_once.simps) (simp add: bn_cmp_ok [OF less.prems assms(2)] f)
    ultimately show ?thesis by simp
  next
    case False
    then have "mod_reduce_once a m = Some a"
      by (subst mod_reduce_once.simps) (simp add: bn_cmp_ok [OF less.prems assms(2)])
    then show ?thesis using False less.prems by simp
  qed
qed

lemma limb_to_bytes:
  "le_nat [ucast w, ucast (drop_bit 8 w), ucast (drop_bit 16 w), ucast (drop_bit 24 w)] = unat w" for w :: u32
proof -
  have b: "unat (ucast x :: byte) = unat x mod 256" for x :: u32
    by (simp add: unsigned_ucast_eq take_bit_eq_mod)
  have d: "unat (drop_bit k w) = unat w div 2 ^ k" for k by (rule unat_drop_bit)
  define v where "v = unat w"
  have "v mod 256 + 256 * (v div 256 mod 256 + 256 * (v div 256 div 256 mod 256 + 256 * (v div 256 div 256 div 256))) = v"
    by (simp only: mod_mult_div_eq)
  moreover have "v div 16777216 < 256" unfolding v_def using unat_limb [of w] by (intro less_mult_imp_div_less) simp
  then have "v div 16777216 mod 256 = v div 16777216" by (rule mod_less)
  ultimately show ?thesis
    by (simp add: b d v_def [symmetric] div_mult2_eq [symmetric])
qed

lemma bn_to_bytes_be_ok:
  assumes "length a = 8"
  shows "length (bn_to_bytes_be a) = 32" and "be_nat (bn_to_bytes_be a) = bnv a"
proof -
  obtain a0 a1 a2 a3 a4 a5 a6 a7 where a: "a = [a0, a1, a2, a3, a4, a5, a6, a7]"
    using assms by (auto simp: length_Suc_conv numeral_eq_Suc)
  define f :: "u32 \<Rightarrow> byte list" where "f = (\<lambda>w. [ucast w, ucast (drop_bit 8 w), ucast (drop_bit 16 w), ucast (drop_bit 24 w)])"
  have e: "rev (bn_to_bytes_be a) = f a0 @ f a1 @ f a2 @ f a3 @ f a4 @ f a5 @ f a6 @ f a7"
    by (simp add: bn_to_bytes_be_def a f_def Let_def upt_rec numeral_eq_Suc)
  have l: "length (f w) = 4" "le_nat (f w) = unat w" for w
    unfolding f_def limb_to_bytes by simp_all
  have "length (rev (bn_to_bytes_be a)) = 32" unfolding e by (simp add: l)
  then show "length (bn_to_bytes_be a) = 32" by simp
  show "be_nat (bn_to_bytes_be a) = bnv a"
    unfolding be_nat_def e by (simp add: le_nat_append l a)
qed

section \<open>The interface of modular arithmetic\<close>

text \<open>What the curve arithmetic relies on: addition, subtraction and multiplication of reduced elements
  compute modulo \<open>p\<close> and give reduced elements. \<open>rep a x\<close> says that \<open>a\<close> is the reduced element of the
  class of the integer \<open>x\<close>.\<close>

locale modular_arithmetic =
  fixes val :: "'a \<Rightarrow> nat"
    and reduced :: "'a \<Rightarrow> bool"
    and p :: int
    and add :: "'a \<Rightarrow> 'a \<Rightarrow> 'a"
    and sub :: "'a \<Rightarrow> 'a \<Rightarrow> 'a"
    and mul :: "'a \<Rightarrow> 'a \<Rightarrow> 'a"
  assumes reduced_less: "reduced a \<Longrightarrow> int (val a) < p"
    and add_mod: "reduced a \<Longrightarrow> reduced b \<Longrightarrow> reduced (add a b) \<and> int (val (add a b)) = (int (val a) + int (val b)) mod p"
    and sub_mod: "reduced a \<Longrightarrow> reduced b \<Longrightarrow> reduced (sub a b) \<and> int (val (sub a b)) = (int (val a) - int (val b)) mod p"
    and mul_mod: "reduced a \<Longrightarrow> reduced b \<Longrightarrow> reduced (mul a b) \<and> int (val (mul a b)) = (int (val a) * int (val b)) mod p"
begin

definition rep :: "'a \<Rightarrow> int \<Rightarrow> bool" where
  "rep a x \<longleftrightarrow> reduced a \<and> int (val a) = x mod p"

lemma rep_self: "reduced a \<Longrightarrow> rep a (int (val a))"
  using reduced_less by (simp add: rep_def)

lemma rep_add: "rep a x \<Longrightarrow> rep b y \<Longrightarrow> rep (add a b) (x + y)"
  using add_mod [of a b] by (simp add: rep_def mod_add_eq)

lemma rep_sub: "rep a x \<Longrightarrow> rep b y \<Longrightarrow> rep (sub a b) (x - y)"
  using sub_mod [of a b] by (simp add: rep_def mod_diff_eq)

lemma rep_mul: "rep a x \<Longrightarrow> rep b y \<Longrightarrow> rep (mul a b) (x * y)"
  using mul_mod [of a b] by (simp add: rep_def mod_mult_eq)

lemma rep_val: "rep a x \<Longrightarrow> x = y \<Longrightarrow> int (val a) = y mod p"
  by (simp add: rep_def)

lemma rep_reduced: "rep a x \<Longrightarrow> reduced a"
  by (simp add: rep_def)

lemma rep_zero: "rep a x \<Longrightarrow> val a = 0 \<longleftrightarrow> x mod p = 0"
  by (auto simp: rep_def)

end

definition bn_reduced :: "bn256 \<Rightarrow> bn256 \<Rightarrow> bool" where
  "bn_reduced m a \<longleftrightarrow> length a = 8 \<and> bnv a < bnv m"

lemma bn_reduced_ops:
  assumes "length m = 8" and "bn_reduced m a" and "bn_reduced m b"
  shows "bn_reduced m (mod_add a b m) \<and> int (bnv (mod_add a b m)) = (int (bnv a) + int (bnv b)) mod int (bnv m)"
    and "bn_reduced m (mod_sub a b m) \<and> int (bnv (mod_sub a b m)) = (int (bnv a) - int (bnv b)) mod int (bnv m)"
    and "bn_reduced m (mod_mul a b m) \<and> int (bnv (mod_mul a b m)) = (int (bnv a) * int (bnv b)) mod int (bnv m)"
proof -
  have ab: "length a = 8" "length b = 8" "bnv a < bnv m" "bnv b < bnv m" and m: "0 < bnv m"
    using assms(2,3) by (auto simp: bn_reduced_def)
  note A = mod_add_ok [OF ab(1,2) assms(1) ab(3,4)] and S = mod_sub_ok [OF ab(1,2) assms(1) ab(3,4)]
    and M = mod_mul_ok [OF ab(1,2) assms(1) m]
  have "int (bnv (mod_sub a b m)) < int (bnv m)" unfolding S(2) using m by simp
  then have s: "bnv (mod_sub a b m) < bnv m" by (simp only: of_nat_less_iff)
  show "bn_reduced m (mod_add a b m) \<and> int (bnv (mod_add a b m)) = (int (bnv a) + int (bnv b)) mod int (bnv m)"
    and "bn_reduced m (mod_sub a b m) \<and> int (bnv (mod_sub a b m)) = (int (bnv a) - int (bnv b)) mod int (bnv m)"
    and "bn_reduced m (mod_mul a b m) \<and> int (bnv (mod_mul a b m)) = (int (bnv a) * int (bnv b)) mod int (bnv m)"
    using A S M m s by (simp_all add: bn_reduced_def zmod_int)
qed

text \<open>The prime of the field and the order of the base point, as numbers.\<close>

definition p256_p :: int where
  "p256_p = 2 ^ 256 - 2 ^ 224 + 2 ^ 192 + 2 ^ 96 - 1"

definition p256_n :: int where
  "p256_n = 0xffffffff00000000ffffffffffffffffbce6faada7179e84f3b9cac2fc632551"

lemma length_params: "length P256_P = 8" "length P256_A = 8" "length P256_B = 8" "length P256_N = 8"
    "length P256_GX = 8" "length P256_GY = 8"
  by (simp_all add: P256_P_def P256_A_def P256_B_def P256_N_def P256_GX_def P256_GY_def)

lemma bnv_moduli: "int (bnv P256_P) = p256_p" "int (bnv P256_N) = p256_n"
  by (simp_all add: P256_P_def P256_N_def p256_p_def p256_n_def)

lemma moduli_pos: "2 \<le> bnv P256_P" "2 \<le> bnv P256_N" "0 < bnv P256_P" "0 < bnv P256_N"
  by (simp_all add: P256_P_def P256_N_def)

interpretation fp: modular_arithmetic bnv "bn_reduced P256_P" p256_p
  "\<lambda>a b. mod_add a b P256_P" "\<lambda>a b. mod_sub a b P256_P" "\<lambda>a b. mod_mul a b P256_P"
proof unfold_locales
  show "bn_reduced P256_P a \<Longrightarrow> int (bnv a) < p256_p" for a
    unfolding bnv_moduli(1) [symmetric] by (simp add: bn_reduced_def)
qed (fact bn_reduced_ops [OF length_params(1), unfolded bnv_moduli])+

interpretation fn: modular_arithmetic bnv "bn_reduced P256_N" p256_n
  "\<lambda>a b. mod_add a b P256_N" "\<lambda>a b. mod_sub a b P256_N" "\<lambda>a b. mod_mul a b P256_N"
proof unfold_locales
  show "bn_reduced P256_N a \<Longrightarrow> int (bnv a) < p256_n" for a
    unfolding bnv_moduli(2) [symmetric] by (simp add: bn_reduced_def)
qed (fact bn_reduced_ops [OF length_params(4), unfolded bnv_moduli])+

section \<open>Properties\<close>

lemma mod_ops_exact:
  assumes "length m = 8" and "2 \<le> bnv m" and "bn_reduced m a" and "bn_reduced m b" and "length e = 8"
  shows "bnv (mod_add a b m) = (bnv a + bnv b) mod bnv m"
    and "int (bnv (mod_sub a b m)) = (int (bnv a) - int (bnv b)) mod int (bnv m)"
    and "bnv (mod_mul a b m) = bnv a * bnv b mod bnv m"
    and "bnv (mod_pow a e m) = bnv a ^ bnv e mod bnv m"
    and "bnv (mod_inv a m) = bnv a ^ (bnv m - 2) mod bnv m"
  using assms by (simp_all add: bn_reduced_def mod_add_ok mod_sub_ok mod_mul_ok mod_pow_ok mod_inv_ok)

text \<open>C33: modular arithmetic is exact: for reduced operands and a modulus of at least 2 the limb
  operations give the sum, the difference, the product, the power (for every 256-bit exponent) and the
  power with the exponent of Fermat's inverse, each reduced modulo the modulus.\<close>

theorem modular_operations_exact:
  assumes "length m = 8" and "2 \<le> bnv m" and "bn_reduced m a" and "bn_reduced m b" and "length e = 8"
  shows "bnv (mod_add a b m) = (bnv a + bnv b) mod bnv m \<and>
    int (bnv (mod_sub a b m)) = (int (bnv a) - int (bnv b)) mod int (bnv m) \<and>
    bnv (mod_mul a b m) = bnv a * bnv b mod bnv m \<and>
    bnv (mod_pow a e m) = bnv a ^ bnv e mod bnv m \<and>
    bnv (mod_inv a m) = bnv a ^ (bnv m - 2) mod bnv m"
  using mod_ops_exact [OF assms] by blast

theorem modular_operations_exact_witness:
  "bnv (mod_mul P256_GX P256_GY P256_P) = bnv P256_GX * bnv P256_GY mod bnv P256_P \<and>
   bnv (mod_inv P256_GX P256_P) = bnv P256_GX ^ (bnv P256_P - 2) mod bnv P256_P"
proof -
  have "bn_reduced P256_P P256_GX" "bn_reduced P256_P P256_GY"
    by (simp_all add: bn_reduced_def P256_P_def P256_GX_def P256_GY_def)
  from modular_operations_exact [OF length_params(1) moduli_pos(1) this length_params(4)]
  show ?thesis by (simp only: simp_thms)
qed

text \<open>The carry loop of the multiplication stays inside the 16-limb array: in every row of a product
  it ends with no carry left before the end of the array is reached, and the product is exact.\<close>

theorem bn_mul_wide_in_bounds:
  assumes "length a = 8" and "length b = 8" and "i < 8"
    and "fold (mul_step a b i) [0..<8] (fold (mul_row a b) [0..<i] (replicate 16 0), 0) = (o1, carry)"
  shows "snd (mul_carry o1 (i + 8) carry) = 0 \<and> bnv (bn_mul_wide a b) = bnv a * bnv b"
  using mul_row_ok(1) [OF _ assms(3,2) _ assms(4)] mul_rows_ok [OF assms(1,2), of i] assms(3)
    bn_mul_wide_ok(2) [OF assms(1,2)] by simp

theorem bn_mul_wide_in_bounds_witness:
  "\<exists>o1 carry. snd (mul_carry o1 8 carry) = 0 \<and>
     fold (mul_step P256_P P256_P 0) [0..<8] (replicate 16 0, 0) = (o1, carry) \<and>
     bnv (bn_mul_wide P256_P P256_P) = bnv P256_P * bnv P256_P"
proof -
  obtain o1 carry where f: "fold (mul_step P256_P P256_P 0) [0..<8] (replicate 16 0, 0) = (o1, carry)"
    by (metis prod.exhaust)
  then show ?thesis
    using bn_mul_wide_in_bounds [OF length_params(1,1), of 0 o1 carry] by (intro exI [of _ o1] exI [of _ carry]) simp
qed

lemma mod_reduce_once_result:
  assumes "mod_reduce_once a m = Some r"
  shows "length m = 8 \<longrightarrow> length a = 8 \<longrightarrow> length r = 8 \<and> bn_cmp r m < 0"
proof (rule mod_reduce_once.raw_induct [OF _ assms])
  fix f a m r
  assume IH: "\<And>a m r. f a m = Some r \<Longrightarrow> length m = 8 \<longrightarrow> length a = 8 \<longrightarrow> length r = 8 \<and> bn_cmp r m < 0"
    and e: "(if 0 \<le> bn_cmp a m then f (fst (bn_sub_raw a m)) m else Some a) = Some r"
  obtain s c where "bn_sub_raw a m = (s, c)" by fastforce
  then show "length m = 8 \<longrightarrow> length a = 8 \<longrightarrow> length r = 8 \<and> bn_cmp r m < 0"
    using bn_sub_raw_ok(1) [of a m] IH [of s m r] e by (simp split: if_splits)
qed

text \<open>C34: the reduction loop of \<^verbatim>\<open>mod_reduce_once\<close> ends exactly for a modulus other than 0, and it then
  returns the remainder; for the modulus 0 it runs forever.\<close>

theorem mod_reduce_once_total:
  assumes "length a = 8" and "length m = 8"
  shows "case mod_reduce_once a m of None \<Rightarrow> bnv m = 0 | Some r \<Rightarrow> bnv m > 0 \<and> bnv r = bnv a mod bnv m"
proof (cases "bnv m = 0")
  case True
  then have "mod_reduce_once a m \<noteq> Some r" for r
    using mod_reduce_once_result [of a m r] assms bn_cmp_ok(1) [of r m] by auto
  then show ?thesis using True by (cases "mod_reduce_once a m") auto
next
  case False
  then obtain r where "mod_reduce_once a m = Some r" "bnv r = bnv a mod bnv m"
    using mod_reduce_once_ok [OF assms] by auto
  then show ?thesis using False by simp
qed

theorem mod_reduce_once_total_witness:
  "case mod_reduce_once P256_P P256_N of None \<Rightarrow> False | Some r \<Rightarrow> bnv r = bnv P256_P mod bnv P256_N"
  using mod_reduce_once_total [OF length_params(1,4)] moduli_pos(4) by (cases "mod_reduce_once P256_P P256_N") simp_all

end
