(* ===== verification/P256.thy ===== *)
theory P256
  imports Bignum
begin

text \<open>
  The curve P-256 and ECDSA verification: \<^verbatim>\<open>src/crypto/p256_internal.h\<close> (points, lines 38 to 42 and 224
  to 367) and \<^verbatim>\<open>src/crypto/p256.c\<close>. Points are Jacobian with an explicit flag for infinity; where the
  code sets only the flag, the coordinates keep what the object held before. The object is an argument
  (\<open>r\<close>), and the contents of objects that the code declares without an initial value are the argument
  \<open>uninit\<close>. Shown: the formulas are the chord and tangent rules, they keep points on the curve, and
  verification answers as the ECDSA equation on numbers says, whatever \<open>uninit\<close> is.
\<close>

unbundle bit_operations_syntax

section \<open>Points\<close>

record ec_point =
  pt_x :: bn256
  pt_y :: bn256
  pt_z :: bn256
  infinity :: bool

definition point_double :: "ec_point \<Rightarrow> ec_point \<Rightarrow> ec_point" where
  "point_double r p =
     (if infinity p \<or> bn_is_zero (pt_y p) then r\<lparr>infinity := True\<rparr>
      else
        let delta = mod_mul (pt_z p) (pt_z p) P256_P;
            gamma = mod_mul (pt_y p) (pt_y p) P256_P;
            beta = mod_mul (pt_x p) gamma P256_P;
            x1_minus_delta = mod_sub (pt_x p) delta P256_P;
            x1_plus_delta = mod_add (pt_x p) delta P256_P;
            alpha_base = mod_mul x1_minus_delta x1_plus_delta P256_P;
            alpha = mod_add alpha_base alpha_base P256_P;
            alpha = mod_add alpha alpha_base P256_P;
            alpha_sq = mod_mul alpha alpha P256_P;
            two_beta = mod_add beta beta P256_P;
            four_beta = mod_add two_beta two_beta P256_P;
            eight_beta = mod_add four_beta four_beta P256_P;
            x3 = mod_sub alpha_sq eight_beta P256_P;
            y1_plus_z1 = mod_add (pt_y p) (pt_z p) P256_P;
            y1z1_sq = mod_mul y1_plus_z1 y1_plus_z1 P256_P;
            z3_tmp = mod_sub y1z1_sq gamma P256_P;
            z3 = mod_sub z3_tmp delta P256_P;
            four_beta_minus_x3 = mod_sub four_beta x3 P256_P;
            alpha_times = mod_mul alpha four_beta_minus_x3 P256_P;
            gamma_sq = mod_mul gamma gamma P256_P;
            two_gamma_sq = mod_add gamma_sq gamma_sq P256_P;
            four_gamma_sq = mod_add two_gamma_sq two_gamma_sq P256_P;
            eight_gamma_sq = mod_add four_gamma_sq four_gamma_sq P256_P;
            y3 = mod_sub alpha_times eight_gamma_sq P256_P
        in r\<lparr>pt_x := x3, pt_y := y3, pt_z := z3, infinity := False\<rparr>)"

definition point_add :: "ec_point \<Rightarrow> ec_point \<Rightarrow> ec_point \<Rightarrow> ec_point" where
  "point_add r p q =
     (if infinity p then q
      else if infinity q then p
      else
        let z1z1 = mod_mul (pt_z p) (pt_z p) P256_P;
            z2z2 = mod_mul (pt_z q) (pt_z q) P256_P;
            u1 = mod_mul (pt_x p) z2z2 P256_P;
            u2 = mod_mul (pt_x q) z1z1 P256_P;
            z1z1z1 = mod_mul z1z1 (pt_z p) P256_P;
            z2z2z2 = mod_mul z2z2 (pt_z q) P256_P;
            s1 = mod_mul (pt_y p) z2z2z2 P256_P;
            s2 = mod_mul (pt_y q) z1z1z1 P256_P;
            h = mod_sub u2 u1 P256_P;
            rr = mod_sub s2 s1 P256_P
        in if bn_is_zero h then
             if bn_is_zero rr then point_double r p else r\<lparr>infinity := True\<rparr>
           else
             let h2 = mod_mul h h P256_P;
                 h3 = mod_mul h2 h P256_P;
                 u1h2 = mod_mul u1 h2 P256_P;
                 two_u1h2 = mod_add u1h2 u1h2 P256_P;
                 rr2 = mod_mul rr rr P256_P;
                 tmp = mod_sub rr2 h3 P256_P;
                 x3 = mod_sub tmp two_u1h2 P256_P;
                 u1h2_minus_x3 = mod_sub u1h2 x3 P256_P;
                 tmp = mod_mul rr u1h2_minus_x3 P256_P;
                 s1h3 = mod_mul s1 h3 P256_P;
                 y3 = mod_sub tmp s1h3 P256_P;
                 z1z2 = mod_mul (pt_z p) (pt_z q) P256_P;
                 z3 = mod_mul z1z2 h P256_P
             in r\<lparr>pt_x := x3, pt_y := y3, pt_z := z3, infinity := False\<rparr>)"

text \<open>One iteration of the double-and-add loop, on \<open>(result, addend)\<close>.\<close>

definition scalar_mult_step :: "ec_point \<Rightarrow> bn256 \<Rightarrow> nat \<Rightarrow> ec_point \<times> ec_point \<Rightarrow> ec_point \<times> ec_point" where
  "scalar_mult_step uninit k i = (\<lambda>(result, addend).
     (if bn_test_bit k i then point_add uninit result addend else result, point_double uninit addend))"

definition point_scalar_mult :: "ec_point \<Rightarrow> bn256 \<Rightarrow> ec_point \<Rightarrow> ec_point" where
  "point_scalar_mult uninit k p =
     (let result = uninit\<lparr>infinity := True\<rparr>;
          addend = p;
          (result, addend) = fold (scalar_mult_step uninit k) [0..<256] (result, addend)
      in result)"

definition point_from_affine :: "bn256 \<Rightarrow> bn256 \<Rightarrow> ec_point" where
  "point_from_affine x y =
     (let one = [1, 0, 0, 0, 0, 0, 0, 0]
      in \<lparr>pt_x = x, pt_y = y, pt_z = one, infinity = False\<rparr>)"

definition point_to_affine :: "ec_point \<Rightarrow> bn256 \<times> bn256" where
  "point_to_affine p =
     (let z_inv = mod_inv (pt_z p) P256_P;
          z_inv2 = mod_mul z_inv z_inv P256_P;
          z_inv3 = mod_mul z_inv2 z_inv P256_P;
          out_x = mod_mul (pt_x p) z_inv2 P256_P;
          out_y = mod_mul (pt_y p) z_inv3 P256_P
      in (out_x, out_y))"

section \<open>ECDSA verification\<close>

fun nd_p256_point_is_valid :: "byte list ptr \<Rightarrow> byte list ptr \<Rightarrow> nd_status" where
  "nd_p256_point_is_valid (Some qx) (Some qy) =
     (let x = bn_from_bytes_be qx;
          y = bn_from_bytes_be qy
      in if bn_cmp x P256_P \<ge> 0 \<or> bn_cmp y P256_P \<ge> 0 then ND_ERR_BAD_ARG
         else
           let lhs = mod_mul y y P256_P;
               x2 = mod_mul x x P256_P;
               x3 = mod_mul x2 x P256_P;
               ax = mod_mul P256_A x P256_P;
               rhs = mod_add x3 ax P256_P;
               rhs = mod_add rhs P256_B P256_P
           in if bn_cmp lhs rhs = 0 then ND_OK else ND_ERR_BAD_ARG)"
| "nd_p256_point_is_valid qx qy = ND_ERR_BAD_ARG"

text \<open>\<open>None\<close> is a call that does not return: the loops of \<^verbatim>\<open>mod_reduce_once\<close> are the only ones that
  are not bounded by their form.\<close>

fun nd_p256_ecdsa_verify ::
  "ec_point \<Rightarrow> byte list ptr \<Rightarrow> byte list ptr \<Rightarrow> byte list ptr \<Rightarrow> byte list ptr \<Rightarrow> byte list ptr \<Rightarrow> nd_status option" where
  "nd_p256_ecdsa_verify uninit (Some qx) (Some qy) (Some hash) (Some r_bytes) (Some s_bytes) =
     (if nd_p256_point_is_valid (Some qx) (Some qy) \<noteq> ND_OK then Some ND_ERR_AUTH_FAILED
      else
        let rr = bn_from_bytes_be r_bytes;
            s = bn_from_bytes_be s_bytes
        in if bn_is_zero rr \<or> bn_cmp rr P256_N \<ge> 0 then Some ND_ERR_AUTH_FAILED
        else if bn_is_zero s \<or> bn_cmp s P256_N \<ge> 0 then Some ND_ERR_AUTH_FAILED
        else Option.bind (mod_reduce_once (bn_from_bytes_be hash) P256_N) (\<lambda>e.
          let w = mod_inv s P256_N;
              u1 = mod_mul e w P256_N;
              u2 = mod_mul rr w P256_N;
              g = point_from_affine P256_GX P256_GY;
              qx_bn = bn_from_bytes_be qx;
              qy_bn = bn_from_bytes_be qy;
              q = point_from_affine qx_bn qy_bn;
              p1 = point_scalar_mult uninit u1 g;
              p2 = point_scalar_mult uninit u2 q;
              r_point = point_add uninit p1 p2
          in if infinity r_point then Some ND_ERR_AUTH_FAILED
             else
               let (v, r_affine_y) = point_to_affine r_point
               in Option.bind (mod_reduce_once v P256_N) (\<lambda>v.
                    Some (if bn_cmp v rr = 0 then ND_OK else ND_ERR_AUTH_FAILED))))"
| "nd_p256_ecdsa_verify uninit qx qy hash r_bytes s_bytes = Some ND_ERR_BAD_ARG"

section \<open>Jacobian points on numbers\<close>

type_synonym jpoint = "(int \<times> int \<times> int) option"

definition jac_double_xyz :: "int \<times> int \<times> int \<Rightarrow> int \<times> int \<times> int" where
  "jac_double_xyz = (\<lambda>(X, Y, Z).
     let alpha = 3 * (X ^ 2 - Z ^ 4);
         X3 = alpha ^ 2 - 8 * X * Y ^ 2
     in (X3 mod p256_p, (alpha * (4 * X * Y ^ 2 - X3) - 8 * Y ^ 4) mod p256_p, 2 * Y * Z mod p256_p))"

definition jac_double :: "jpoint \<Rightarrow> jpoint" where
  "jac_double P = (case P of None \<Rightarrow> None
     | Some (X, Y, Z) \<Rightarrow> if Y mod p256_p = 0 then None else Some (jac_double_xyz (X, Y, Z)))"

definition jac_add_xyz :: "int \<Rightarrow> int \<Rightarrow> int \<Rightarrow> int \<Rightarrow> int \<Rightarrow> int \<times> int \<times> int" where
  "jac_add_xyz U1 S1 H R Z =
     (let X3 = R ^ 2 - H ^ 3 - 2 * U1 * H ^ 2
      in (X3 mod p256_p, (R * (U1 * H ^ 2 - X3) - S1 * H ^ 3) mod p256_p, Z * H mod p256_p))"

definition jac_add :: "jpoint \<Rightarrow> jpoint \<Rightarrow> jpoint" where
  "jac_add P Q = (case P of None \<Rightarrow> Q | Some (X1, Y1, Z1) \<Rightarrow>
     (case Q of None \<Rightarrow> P | Some (X2, Y2, Z2) \<Rightarrow>
        let U1 = X1 * Z2 ^ 2; U2 = X2 * Z1 ^ 2; S1 = Y1 * Z2 ^ 3; S2 = Y2 * Z1 ^ 3 in
        if (U2 - U1) mod p256_p = 0 then
          if (S2 - S1) mod p256_p = 0 then jac_double P else None
        else Some (jac_add_xyz U1 S1 (U2 - U1) (S2 - S1) (Z1 * Z2))))"

definition jac_mult :: "nat \<Rightarrow> jpoint \<Rightarrow> jpoint" where
  "jac_mult k P = fst (fold (\<lambda>i (R, A). (if bit k i then jac_add R A else R, jac_double A)) [0..<256] (None, P))"

section \<open>The limbs compute the formulas\<close>

definition wf_point :: "ec_point \<Rightarrow> bool" where
  "wf_point P \<longleftrightarrow> infinity P \<or>
     bn_reduced P256_P (pt_x P) \<and> bn_reduced P256_P (pt_y P) \<and> bn_reduced P256_P (pt_z P)"

definition abs_point :: "ec_point \<Rightarrow> jpoint" where
  "abs_point P = (if infinity P then None else Some (int (bnv (pt_x P)), int (bnv (pt_y P)), int (bnv (pt_z P))))"

lemma abs_point_infinity [simp]: "abs_point (r\<lparr>infinity := True\<rparr>) = None" "wf_point (r\<lparr>infinity := True\<rparr>)"
  by (simp_all add: abs_point_def wf_point_def)

lemma abs_point_rep:
  assumes "fp.rep x X" and "fp.rep y Y" and "fp.rep z Z" and "X = X'" and "Y = Y'" and "Z = Z'"
  shows "wf_point (r\<lparr>pt_x := x, pt_y := y, pt_z := z, infinity := False\<rparr>) \<and>
    abs_point (r\<lparr>pt_x := x, pt_y := y, pt_z := z, infinity := False\<rparr>) =
      Some (X' mod p256_p, Y' mod p256_p, Z' mod p256_p)"
  using assms by (simp add: wf_point_def abs_point_def fp.rep_def)

lemma bn_zero_rep: "fp.rep a x \<Longrightarrow> bn_is_zero a \<longleftrightarrow> x mod p256_p = 0"
  using fp.rep_zero [of a x] bn_is_zero_iff [of a] fp.rep_reduced [of a x] by (simp add: bn_reduced_def)

lemma point_double_ok:
  assumes "wf_point p"
  shows "wf_point (point_double r p) \<and> abs_point (point_double r p) = jac_double (abs_point p)"
proof (cases "infinity p")
  case True
  then show ?thesis by (simp add: point_double_def abs_point_def [of p] jac_double_def)
next
  case fin: False
  define X Y Z where "X = int (bnv (pt_x p))" and "Y = int (bnv (pt_y p))" and "Z = int (bnv (pt_z p))"
  have x: "fp.rep (pt_x p) X" and y: "fp.rep (pt_y p) Y" and z: "fp.rep (pt_z p) Z"
    using assms fin fp.rep_self unfolding X_def Y_def Z_def wf_point_def by blast+
  have a: "abs_point p = Some (X, Y, Z)" using fin by (simp add: abs_point_def X_def Y_def Z_def)
  show ?thesis
  proof (cases "bn_is_zero (pt_y p)")
    case True
    then show ?thesis using bn_zero_rep [OF y] by (simp add: point_double_def a jac_double_def)
  next
    case False
    note delta = fp.rep_mul [OF z z] and gamma = fp.rep_mul [OF y y]
    note beta = fp.rep_mul [OF x gamma]
    note ab = fp.rep_mul [OF fp.rep_sub [OF x delta] fp.rep_add [OF x delta]]
    note alpha = fp.rep_add [OF fp.rep_add [OF ab ab] ab]
    note beta2 = fp.rep_add [OF beta beta]
    note beta4 = fp.rep_add [OF beta2 beta2]
    note x3 = fp.rep_sub [OF fp.rep_mul [OF alpha alpha] fp.rep_add [OF beta4 beta4]]
    note yz = fp.rep_add [OF y z]
    note z3 = fp.rep_sub [OF fp.rep_sub [OF fp.rep_mul [OF yz yz] gamma] delta]
    note g2 = fp.rep_mul [OF gamma gamma]
    note g4 = fp.rep_add [OF g2 g2]
    note g8 = fp.rep_add [OF g4 g4]
    note y3 = fp.rep_sub [OF fp.rep_mul [OF alpha fp.rep_sub [OF beta4 x3]] fp.rep_add [OF g8 g8]]
    have e: "jac_double (abs_point p) = Some (jac_double_xyz (X, Y, Z))"
      using False bn_zero_rep [OF y] by (simp add: a jac_double_def)
    show ?thesis
      unfolding e point_double_def Let_def jac_double_xyz_def prod.case
      by (simp only: fin False simp_thms if_False) (rule abs_point_rep [OF x3 y3 z3]; algebra)
  qed
qed

lemma point_add_ok:
  assumes "wf_point p" and "wf_point q"
  shows "wf_point (point_add r p q) \<and> abs_point (point_add r p q) = jac_add (abs_point p) (abs_point q)"
proof (cases "infinity p \<or> infinity q")
  case True
  then show ?thesis using assms
    by (cases "infinity p") (auto simp: point_add_def abs_point_def [of p] abs_point_def [of q] jac_add_def split: option.splits)
next
  case fin: False
  define X1 Y1 Z1 where "X1 = int (bnv (pt_x p))" and "Y1 = int (bnv (pt_y p))" and "Z1 = int (bnv (pt_z p))"
  define X2 Y2 Z2 where "X2 = int (bnv (pt_x q))" and "Y2 = int (bnv (pt_y q))" and "Z2 = int (bnv (pt_z q))"
  have x1: "fp.rep (pt_x p) X1" and y1: "fp.rep (pt_y p) Y1" and z1: "fp.rep (pt_z p) Z1"
    using assms(1) fin fp.rep_self unfolding X1_def Y1_def Z1_def wf_point_def by blast+
  have x2: "fp.rep (pt_x q) X2" and y2: "fp.rep (pt_y q) Y2" and z2: "fp.rep (pt_z q) Z2"
    using assms(2) fin fp.rep_self unfolding X2_def Y2_def Z2_def wf_point_def by blast+
  have a: "abs_point p = Some (X1, Y1, Z1)" "abs_point q = Some (X2, Y2, Z2)"
    using fin by (simp_all add: abs_point_def X1_def Y1_def Z1_def X2_def Y2_def Z2_def)
  note z11 = fp.rep_mul [OF z1 z1] and z22 = fp.rep_mul [OF z2 z2]
  note u1 = fp.rep_mul [OF x1 z22] and u2 = fp.rep_mul [OF x2 z11]
  note s1 = fp.rep_mul [OF y1 fp.rep_mul [OF z22 z2]] and s2 = fp.rep_mul [OF y2 fp.rep_mul [OF z11 z1]]
  note h = fp.rep_sub [OF u2 u1] and rr = fp.rep_sub [OF s2 s1]
  note h2 = fp.rep_mul [OF h h]
  note h3 = fp.rep_mul [OF h2 h] and uh = fp.rep_mul [OF u1 h2]
  note x3 = fp.rep_sub [OF fp.rep_sub [OF fp.rep_mul [OF rr rr] h3] fp.rep_add [OF uh uh]]
  note y3 = fp.rep_sub [OF fp.rep_mul [OF rr fp.rep_sub [OF uh x3]] fp.rep_mul [OF s1 h3]]
  note z3 = fp.rep_mul [OF fp.rep_mul [OF z1 z2] h]
  have H: "X2 * Z1 ^ 2 - X1 * Z2 ^ 2 = X2 * (Z1 * Z1) - X1 * (Z2 * Z2)"
    and R: "Y2 * Z1 ^ 3 - Y1 * Z2 ^ 3 = Y2 * (Z1 * Z1 * Z1) - Y1 * (Z2 * Z2 * Z2)" by algebra+
  note zero = bn_zero_rep [OF h, folded H] bn_zero_rep [OF rr, folded R]
  show ?thesis
  proof (cases "(X2 * Z1 ^ 2 - X1 * Z2 ^ 2) mod p256_p = 0")
    case True
    then show ?thesis
      using point_double_ok [OF assms(1), of r] fin unfolding point_add_def Let_def a
      by (simp add: jac_add_def Let_def zero a)
  next
    case False
    then have e: "jac_add (abs_point p) (abs_point q) = Some (jac_add_xyz (X1 * Z2 ^ 2) (Y1 * Z2 ^ 3)
        (X2 * Z1 ^ 2 - X1 * Z2 ^ 2) (Y2 * Z1 ^ 3 - Y1 * Z2 ^ 3) (Z1 * Z2))"
      by (simp add: a jac_add_def Let_def)
    show ?thesis
      unfolding e point_add_def Let_def jac_add_xyz_def
      using fin by (simp only: False zero simp_thms if_False de_Morgan_disj) (rule abs_point_rep [OF x3 y3 z3]; algebra)
  qed
qed

section \<open>Scalar multiplication and affine coordinates\<close>

definition point_rel :: "ec_point \<times> ec_point \<Rightarrow> jpoint \<times> jpoint \<Rightarrow> bool" where
  "point_rel = (\<lambda>(p, q) (P, Q). wf_point p \<and> wf_point q \<and> abs_point p = P \<and> abs_point q = Q)"

lemma scalar_mult_fold:
  assumes "length k = 8" and "\<forall>i \<in> set is. i < 256" and "point_rel s S"
  shows "point_rel (fold (scalar_mult_step uninit k) is s)
    (fold (\<lambda>i (R, A). (if bit (bnv k) i then jac_add R A else R, jac_double A)) is S)"
  using assms(2,3)
proof (induction "is" arbitrary: s S)
  case (Cons i "is")
  obtain p q P Q where s: "s = (p, q)" "S = (P, Q)" by fastforce
  have "point_rel (scalar_mult_step uninit k i s) ((\<lambda>(R, A). (if bit (bnv k) i then jac_add R A else R, jac_double A)) S)"
    using Cons.prems point_add_ok [of p q uninit] point_double_ok [of q uninit]
    by (auto simp: point_rel_def scalar_mult_step_def s bn_test_bit_iff [OF assms(1)])
  then show ?case using Cons by simp
qed simp

lemma point_scalar_mult_ok:
  assumes "length k = 8" and "wf_point p"
  shows "wf_point (point_scalar_mult uninit k p) \<and> abs_point (point_scalar_mult uninit k p) = jac_mult (bnv k) (abs_point p)"
proof -
  have "point_rel (uninit\<lparr>infinity := True\<rparr>, p) (None, abs_point p)" using assms(2) by (simp add: point_rel_def)
  from scalar_mult_fold [OF assms(1) _ this, of "[0..<256]" uninit] show ?thesis
    by (auto simp: point_scalar_mult_def jac_mult_def point_rel_def split: prod.splits simp del: upt_rec_numeral)
qed

lemma one_rep: "fp.rep [1, 0, 0, 0, 0, 0, 0, 0] 1"
  using fp.rep_self [of "[1, 0, 0, 0, 0, 0, 0, 0]"] moduli_pos(1) by (simp add: bn_reduced_def)

lemma point_from_affine_ok:
  assumes "bn_reduced P256_P x" and "bn_reduced P256_P y"
  shows "wf_point (point_from_affine x y) \<and> abs_point (point_from_affine x y) = Some (int (bnv x), int (bnv y), 1)"
  using assms fp.rep_reduced [OF one_rep] by (simp add: point_from_affine_def wf_point_def abs_point_def)

lemma inv_rep:
  assumes "fp.rep z Z"
  shows "fp.rep (mod_inv z P256_P) (Z ^ nat (p256_p - 2))"
proof -
  have z: "length z = 8" using fp.rep_reduced [OF assms] by (simp add: bn_reduced_def)
  note i = mod_inv_ok [OF z length_params(1) moduli_pos(1)]
  have "nat (p256_p - 2) = bnv P256_P - 2" unfolding bnv_moduli [symmetric] by simp
  then have "int (bnv (mod_inv z P256_P)) = (Z mod p256_p) ^ nat (p256_p - 2) mod p256_p"
    using i(2) assms bnv_moduli(1) by (simp add: fp.rep_def zmod_int)
  then show ?thesis using i moduli_pos(3) by (simp add: fp.rep_def bn_reduced_def power_mod)
qed

lemma point_to_affine_ok:
  assumes "wf_point p" and "abs_point p = Some (X, Y, Z)" and "point_to_affine p = (x, y)"
  shows "length x = 8" and "int (bnv x) = X * (Z ^ nat (p256_p - 2)) ^ 2 mod p256_p"
proof -
  have r: "fp.rep (pt_x p) X" "fp.rep (pt_z p) Z"
    using assms(1,2) fp.rep_self by (auto simp: wf_point_def abs_point_def split: if_splits)
  note x = fp.rep_mul [OF r(1) fp.rep_mul [OF inv_rep [OF r(2)] inv_rep [OF r(2)]]]
  have e: "x = mod_mul (pt_x p) (mod_mul (mod_inv (pt_z p) P256_P) (mod_inv (pt_z p) P256_P) P256_P) P256_P"
    using assms(3) by (simp add: point_to_affine_def Let_def)
  show "length x = 8" using fp.rep_reduced [OF x] by (simp add: e bn_reduced_def)
  show "int (bnv x) = X * (Z ^ nat (p256_p - 2)) ^ 2 mod p256_p"
    using fp.rep_val [OF x refl] by (simp add: e power2_eq_square)
qed

section \<open>ECDSA on numbers\<close>

definition p256_b :: int where
  "p256_b = 0x5ac635d8aa3a93e7b3ebbd55769886bc651d06b0cc53b0f63bce3c3e27d2604b"

definition p256_g :: jpoint where
  "p256_g = Some (0x6b17d1f2e12c4247f8bce6e563a440f277037d812deb33a0f4a13945d898c296,
     0x4fe342e2fe1a7f9b8ee7eb4a7c0f9e162bce33576b315ececbb6406837bf51f5, 1)"

definition on_curve :: "int \<Rightarrow> int \<Rightarrow> bool" where
  "on_curve x y \<longleftrightarrow> 0 \<le> x \<and> x < p256_p \<and> 0 \<le> y \<and> y < p256_p \<and>
     y ^ 2 mod p256_p = (x ^ 3 - 3 * x + p256_b) mod p256_p"

definition ecdsa_valid :: "int \<Rightarrow> int \<Rightarrow> int \<Rightarrow> int \<Rightarrow> int \<Rightarrow> bool" where
  "ecdsa_valid qx qy e r s \<longleftrightarrow> on_curve qx qy \<and> 0 < r \<and> r < p256_n \<and> 0 < s \<and> s < p256_n \<and>
     (let w = s ^ nat (p256_n - 2);
          u1 = e * w mod p256_n;
          u2 = r * w mod p256_n
      in case jac_add (jac_mult (nat u1) p256_g) (jac_mult (nat u2) (Some (qx, qy, 1))) of
           None \<Rightarrow> False
         | Some (X, Y, Z) \<Rightarrow> X * (Z ^ nat (p256_p - 2)) ^ 2 mod p256_p mod p256_n = r)"

lemma params_reduced: "bn_reduced P256_P P256_A" "bn_reduced P256_P P256_B" "bn_reduced P256_P P256_GX" "bn_reduced P256_P P256_GY"
  by (simp_all add: bn_reduced_def P256_P_def P256_A_def P256_B_def P256_GX_def P256_GY_def)

lemma params_val: "int (bnv P256_A) = p256_p - 3" "int (bnv P256_B) = p256_b"
    "Some (int (bnv P256_GX), int (bnv P256_GY), 1) = p256_g"
  by (simp_all add: P256_A_def P256_B_def P256_GX_def P256_GY_def p256_p_def p256_b_def p256_g_def)

lemma cmp_moduli:
  assumes "length a = 8"
  shows "bn_cmp a P256_P \<ge> 0 \<longleftrightarrow> p256_p \<le> int (bnv a)" and "bn_cmp a P256_N \<ge> 0 \<longleftrightarrow> p256_n \<le> int (bnv a)"
  unfolding bn_cmp_ok(1) [OF assms length_params(1)] bn_cmp_ok(1) [OF assms length_params(4)] bnv_moduli [symmetric]
  by simp_all

lemma point_is_valid_ok:
  assumes "length qx = 32" and "length qy = 32"
  shows "nd_p256_point_is_valid (Some qx) (Some qy) =
    (if on_curve (int (be_nat qx)) (int (be_nat qy)) then ND_OK else ND_ERR_BAD_ARG)"
proof -
  define x y where "x = bn_from_bytes_be qx" and "y = bn_from_bytes_be qy"
  define X Y where "X = int (be_nat qx)" and "Y = int (be_nat qy)"
  have l: "length x = 8" "int (bnv x) = X" "length y = 8" "int (bnv y) = Y"
    using bn_from_bytes_be_ok assms by (simp_all add: x_def y_def X_def Y_def)
  have c: "bn_cmp x P256_P \<ge> 0 \<longleftrightarrow> p256_p \<le> X" "bn_cmp y P256_P \<ge> 0 \<longleftrightarrow> p256_p \<le> Y"
    using cmp_moduli(1) [OF l(1)] cmp_moduli(1) [OF l(3)] l(2,4) by simp_all
  have nn: "0 \<le> X" "0 \<le> Y" by (simp_all add: X_def Y_def)
  show ?thesis
  proof (cases "p256_p \<le> X \<or> p256_p \<le> Y")
    case True
    then show ?thesis by (auto simp: x_def [symmetric] y_def [symmetric] X_def [symmetric] Y_def [symmetric] c on_curve_def)
  next
    case False
    then have "bn_reduced P256_P x" "bn_reduced P256_P y"
      using l c bn_cmp_ok(1) [OF l(1) length_params(1)] bn_cmp_ok(1) [OF l(3) length_params(1)] by (simp_all add: bn_reduced_def)
    then have x: "fp.rep x X" and y: "fp.rep y Y" using fp.rep_self l by metis+
    have A: "fp.rep P256_A (- 3)" using fp.rep_self [OF params_reduced(1)] by (simp add: fp.rep_def params_val)
    have B: "fp.rep P256_B p256_b" using fp.rep_self [OF params_reduced(2)] by (simp add: params_val)
    note lhs = fp.rep_mul [OF y y]
    note rhs = fp.rep_add [OF fp.rep_add [OF fp.rep_mul [OF fp.rep_mul [OF x x] x] fp.rep_mul [OF A x]] B]
    have n: "length a = 8" if "fp.rep a v" for a v using fp.rep_reduced [OF that] by (simp add: bn_reduced_def)
    have "X * X * X + - 3 * X + p256_b = X ^ 3 - 3 * X + p256_b" by algebra
    note cmp = bn_cmp_ok(2) [OF n [OF lhs] n [OF rhs]]
    have "bn_cmp (mod_mul y y P256_P) (mod_add (mod_add (mod_mul (mod_mul x x P256_P) x P256_P) (mod_mul P256_A x P256_P) P256_P) P256_B P256_P) = 0
        \<longleftrightarrow> Y ^ 2 mod p256_p = (X ^ 3 - 3 * X + p256_b) mod p256_p"
      unfolding cmp using fp.rep_val [OF lhs refl] fp.rep_val [OF rhs \<open>_ = X ^ 3 - 3 * X + p256_b\<close>]
      by (simp add: power2_eq_square flip: of_nat_eq_iff [where 'a = int])
    then show ?thesis
      using False nn by (simp add: Let_def x_def [symmetric] y_def [symmetric] X_def [symmetric] Y_def [symmetric] c on_curve_def not_le)
  qed
qed

lemma scalar_n:
  assumes "length a = 8" and "length s = 8"
  shows "length (mod_mul a (mod_inv s P256_N) P256_N) = 8"
    and "bnv (mod_mul a (mod_inv s P256_N) P256_N) = nat (int (bnv a) * int (bnv s) ^ nat (p256_n - 2) mod p256_n)"
proof -
  note i = mod_inv_ok [OF assms(2) length_params(4) moduli_pos(2)]
  note m = mod_mul_ok [OF assms(1) i(1) length_params(4) moduli_pos(4)]
  show "length (mod_mul a (mod_inv s P256_N) P256_N) = 8" by (rule m(1))
  have "nat (p256_n - 2) = bnv P256_N - 2" unfolding bnv_moduli [symmetric] by simp
  then have "int (bnv (mod_mul a (mod_inv s P256_N) P256_N)) = int (bnv a) * int (bnv s) ^ nat (p256_n - 2) mod p256_n"
    unfolding m(2) i(2) using bnv_moduli(2) by (simp add: zmod_int mod_mult_right_eq)
  then show "bnv (mod_mul a (mod_inv s P256_N) P256_N) = nat (int (bnv a) * int (bnv s) ^ nat (p256_n - 2) mod p256_n)"
    by linarith
qed

lemma n_pos: "0 < p256_n"
  by (simp add: p256_n_def)

text \<open>The last part of verification: the comparison of the x-coordinate with \<open>r\<close>.\<close>

lemma verify_point:
  assumes "wf_point R" and "length rr = 8"
  shows "(if infinity R then Some ND_ERR_AUTH_FAILED else
      let (v, y) = point_to_affine R in Option.bind (mod_reduce_once v P256_N) (\<lambda>v. Some (if bn_cmp v rr = 0 then ND_OK else ND_ERR_AUTH_FAILED))) =
    Some (if (case abs_point R of None \<Rightarrow> False
      | Some (X, Y, Z) \<Rightarrow> X * (Z ^ nat (p256_p - 2)) ^ 2 mod p256_p mod p256_n = int (bnv rr)) then ND_OK else ND_ERR_AUTH_FAILED)"
proof (cases "abs_point R")
  case None
  then show ?thesis by (simp add: abs_point_def split: if_splits)
next
  case (Some a)
  obtain X Y Z where a: "abs_point R = Some (X, Y, Z)" using Some by (cases a) auto
  have fin: "\<not> infinity R" using a by (auto simp: abs_point_def)
  obtain x y where xy: "point_to_affine R = (x, y)" by fastforce
  note A = point_to_affine_ok [OF assms(1) a xy]
  obtain v where v: "mod_reduce_once x P256_N = Some v" "length v = 8" "bnv v = bnv x mod bnv P256_N"
    using mod_reduce_once_ok [OF A(1) length_params(4) moduli_pos(4)] by blast
  have "int (bnv v) = X * (Z ^ nat (p256_p - 2)) ^ 2 mod p256_p mod p256_n"
    unfolding v(3) zmod_int A(2) bnv_moduli(2) by (rule refl)
  then have "bn_cmp v rr = 0 \<longleftrightarrow> X * (Z ^ nat (p256_p - 2)) ^ 2 mod p256_p mod p256_n = int (bnv rr)"
    unfolding bn_cmp_ok(2) [OF v(2) assms(2)] by (metis of_nat_eq_iff)
  then show ?thesis by (simp add: fin xy a v(1))
qed

lemma ecdsa_verify_ok:
  assumes l: "length qx = 32" "length qy = 32" "length hash = 32" "length r = 32" "length s = 32"
  shows "nd_p256_ecdsa_verify uninit (Some qx) (Some qy) (Some hash) (Some r) (Some s) =
    Some (if ecdsa_valid (int (be_nat qx)) (int (be_nat qy)) (int (be_nat hash)) (int (be_nat r)) (int (be_nat s))
          then ND_OK else ND_ERR_AUTH_FAILED)"
proof -
  note B = bn_from_bytes_be_ok
  define R S where "R = int (be_nat r)" and "S = int (be_nat s)"
  define rr ss where "rr = bn_from_bytes_be r" and "ss = bn_from_bytes_be s"
  have rs: "length rr = 8" "int (bnv rr) = R" "length ss = 8" "int (bnv ss) = S"
    using B l by (simp_all add: rr_def ss_def R_def S_def)
  have z: "bn_is_zero rr \<longleftrightarrow> R = 0" "bn_is_zero ss \<longleftrightarrow> S = 0" "bn_cmp rr P256_N \<ge> 0 \<longleftrightarrow> p256_n \<le> R" "bn_cmp ss P256_N \<ge> 0 \<longleftrightarrow> p256_n \<le> S"
    using rs bn_is_zero_iff [OF rs(1)] bn_is_zero_iff [OF rs(3)] cmp_moduli(2) [OF rs(1)] cmp_moduli(2) [OF rs(3)] by auto
  have nn: "0 \<le> R" "0 \<le> S" by (simp_all add: R_def S_def)
  show ?thesis
  proof (cases "on_curve (int (be_nat qx)) (int (be_nat qy)) \<and> R \<noteq> 0 \<and> R < p256_n \<and> S \<noteq> 0 \<and> S < p256_n")
    case False
    then show ?thesis
      unfolding nd_p256_ecdsa_verify.simps point_is_valid_ok [OF l(1,2)] rr_def [symmetric] ss_def [symmetric] Let_def z
      by (auto simp: ecdsa_valid_def R_def S_def not_less)
  next
    case True
    obtain e where e: "mod_reduce_once (bn_from_bytes_be hash) P256_N = Some e" "length e = 8" "bnv e = be_nat hash mod bnv P256_N"
      using mod_reduce_once_ok [OF B(1) length_params(4) moduli_pos(4)] B(2) l(3) by fastforce
    define u1 u2 where "u1 = mod_mul e (mod_inv ss P256_N) P256_N" and "u2 = mod_mul rr (mod_inv ss P256_N) P256_N"
    have "int (bnv e) * S ^ nat (p256_n - 2) mod p256_n = int (be_nat hash) * S ^ nat (p256_n - 2) mod p256_n"
      unfolding e(3) zmod_int bnv_moduli by (rule mod_mult_left_eq)
    then have u: "length u1 = 8" "length u2 = 8" "bnv u1 = nat (int (be_nat hash) * S ^ nat (p256_n - 2) mod p256_n)"
        "bnv u2 = nat (R * S ^ nat (p256_n - 2) mod p256_n)"
      using scalar_n [OF e(2) rs(3)] scalar_n [OF rs(1,3)] unfolding u1_def u2_def rs(2,4) by (simp_all only:)
    have q: "bn_reduced P256_P (bn_from_bytes_be qx)" "bn_reduced P256_P (bn_from_bytes_be qy)"
      using True B l(1,2) by (simp_all add: on_curve_def bn_reduced_def flip: bnv_moduli(1))
    define g q1 where "g = point_from_affine P256_GX P256_GY" and "q1 = point_from_affine (bn_from_bytes_be qx) (bn_from_bytes_be qy)"
    have gq: "wf_point g" "abs_point g = p256_g" "wf_point q1" "abs_point q1 = Some (int (be_nat qx), int (be_nat qy), 1)"
      using point_from_affine_ok [OF params_reduced(3,4)] point_from_affine_ok [OF q] B(2) l(1,2)
      unfolding g_def q1_def params_val by simp_all
    define P where "P = point_add uninit (point_scalar_mult uninit u1 g) (point_scalar_mult uninit u2 q1)"
    have P: "wf_point P" "abs_point P = jac_add (jac_mult (bnv u1) p256_g) (jac_mult (bnv u2) (Some (int (be_nat qx), int (be_nat qy), 1)))"
      using point_scalar_mult_ok [OF u(1) gq(1), of uninit] point_scalar_mult_ok [OF u(2) gq(3), of uninit] point_add_ok
      by (simp_all add: P_def gq)
    have v: "ND_OK \<noteq> ND_OK \<longleftrightarrow> False" "p256_n \<le> R \<longleftrightarrow> False" "p256_n \<le> S \<longleftrightarrow> False" using True by simp_all
    have "nd_p256_ecdsa_verify uninit (Some qx) (Some qy) (Some hash) (Some r) (Some s) =
      (if infinity P then Some ND_ERR_AUTH_FAILED else
       let (v, y) = point_to_affine P in Option.bind (mod_reduce_once v P256_N) (\<lambda>v. Some (if bn_cmp v rr = 0 then ND_OK else ND_ERR_AUTH_FAILED)))"
      unfolding nd_p256_ecdsa_verify.simps point_is_valid_ok [OF l(1,2)] rr_def [symmetric] ss_def [symmetric] e(1)
        Let_def z bind.simps u1_def [symmetric] u2_def [symmetric] g_def [symmetric] q1_def [symmetric] P_def [symmetric]
      using True by (simp only: v if_True if_False simp_thms)
    then show ?thesis
      unfolding verify_point [OF P(1) rs(1)] P(2) u(3,4) rs(2)
      using True nn by (simp add: ecdsa_valid_def Let_def R_def [symmetric] S_def [symmetric])
  qed
qed

section \<open>The curve equation\<close>

definition on_jac :: "jpoint \<Rightarrow> bool" where
  "on_jac P \<longleftrightarrow> (case P of None \<Rightarrow> True
     | Some (X, Y, Z) \<Rightarrow> Y ^ 2 mod p256_p = (X ^ 3 - 3 * X * Z ^ 4 + p256_b * Z ^ 6) mod p256_p)"

lemma mod_power_cong: "a mod m = b mod m \<Longrightarrow> a ^ k mod m = b ^ k mod m" for a b m :: int
  by (metis power_mod)

lemmas mod_congs = mod_add_cong mod_diff_cong mod_mult_cong mod_power_cong

lemma on_jac_mod: "on_jac (Some (X mod p256_p, Y mod p256_p, Z mod p256_p)) \<longleftrightarrow> on_jac (Some (X, Y, Z))"
proof -
  have "((X mod p256_p) ^ 3 - 3 * (X mod p256_p) * (Z mod p256_p) ^ 4 + p256_b * (Z mod p256_p) ^ 6) mod p256_p =
      (X ^ 3 - 3 * X * Z ^ 4 + p256_b * Z ^ 6) mod p256_p"
    by (intro mod_congs) simp_all
  then show ?thesis by (simp add: on_jac_def power_mod)
qed

lemma on_jac_dvd: "on_jac (Some (X, Y, Z)) \<longleftrightarrow> p256_p dvd Y ^ 2 - (X ^ 3 - 3 * X * Z ^ 4 + p256_b * Z ^ 6)"
  by (simp add: on_jac_def mod_eq_dvd_iff)

lemma jac_double_curve:
  assumes "on_jac P"
  shows "on_jac (jac_double P)"
proof (cases P)
  case None
  then show ?thesis by (simp add: jac_double_def on_jac_def)
next
  case (Some a)
  obtain X Y Z where a: "a = (X, Y, Z)" by (cases a)
  define A where "A = 3 * (X ^ 2 - Z ^ 4)"
  define X3 where "X3 = A ^ 2 - 8 * X * Y ^ 2"
  define Y3 where "Y3 = A * (4 * X * Y ^ 2 - X3) - 8 * Y ^ 4"
  have "Y3 ^ 2 - (X3 ^ 3 - 3 * X3 * (2 * Y * Z) ^ 4 + p256_b * (2 * Y * Z) ^ 6) =
      64 * Y ^ 6 * (Y ^ 2 - (X ^ 3 - 3 * X * Z ^ 4 + p256_b * Z ^ 6))"
    unfolding Y3_def X3_def A_def by algebra
  then have "on_jac (Some (X3, Y3, 2 * Y * Z))"
    using assms unfolding Some a on_jac_dvd by (simp only: dvd_mult)
  then show ?thesis
    unfolding Some a jac_double_def jac_double_xyz_def Let_def option.case prod.case
      A_def [symmetric] X3_def [symmetric] Y3_def [symmetric]
    by (cases "Y mod p256_p = 0") (simp_all only: if_True if_False on_jac_mod, simp_all add: on_jac_def)
qed

lemma jac_add_curve:
  assumes "on_jac P" and "on_jac Q"
  shows "on_jac (jac_add P Q)"
proof (cases "P = None \<or> Q = None")
  case True
  then show ?thesis using assms by (auto simp: jac_add_def split: option.splits)
next
  case False
  then obtain X1 Y1 Z1 X2 Y2 Z2 where PQ: "P = Some (X1, Y1, Z1)" "Q = Some (X2, Y2, Z2)"
    by (metis option.exhaust prod.exhaust)
  define U1 S1 U2 S2 Z where "U1 = X1 * Z2 ^ 2" and "S1 = Y1 * Z2 ^ 3" and "U2 = X2 * Z1 ^ 2" and "S2 = Y2 * Z1 ^ 3" and "Z = Z1 * Z2"
  define H R where "H = U2 - U1" and "R = S2 - S1"
  define X3 where "X3 = R ^ 2 - H ^ 3 - 2 * U1 * H ^ 2"
  define Y3 where "Y3 = R * (U1 * H ^ 2 - X3) - S1 * H ^ 3"
  define G1 G2 where "G1 = S1 ^ 2 - (U1 ^ 3 - 3 * U1 * Z ^ 4 + p256_b * Z ^ 6)" and "G2 = S2 ^ 2 - (U2 ^ 3 - 3 * U2 * Z ^ 4 + p256_b * Z ^ 6)"
  have "G1 = Z2 ^ 6 * (Y1 ^ 2 - (X1 ^ 3 - 3 * X1 * Z1 ^ 4 + p256_b * Z1 ^ 6))"
      "G2 = Z1 ^ 6 * (Y2 ^ 2 - (X2 ^ 3 - 3 * X2 * Z2 ^ 4 + p256_b * Z2 ^ 6))"
    unfolding G1_def G2_def U1_def S1_def U2_def S2_def Z_def by algebra+
  then have G: "p256_p dvd G1" "p256_p dvd G2" using assms unfolding PQ on_jac_dvd by (simp_all only: dvd_mult)
  have "Y3 ^ 2 - (X3 ^ 3 - 3 * X3 * (Z * H) ^ 4 + p256_b * (Z * H) ^ 6) = H ^ 6 * G1 + H ^ 3 * (X3 - U1 * H ^ 2) * (G2 - G1)"
    unfolding Y3_def X3_def G1_def G2_def H_def R_def by algebra
  then have "on_jac (Some (X3, Y3, Z * H))"
    unfolding on_jac_dvd using G by (simp only: dvd_add dvd_mult dvd_diff)
  then have "on_jac (Some (jac_add_xyz U1 S1 H R Z))"
    unfolding jac_add_xyz_def Let_def X3_def [symmetric] Y3_def [symmetric] on_jac_mod .
  then show ?thesis
    using jac_double_curve [OF assms(1)]
    by (simp add: PQ jac_add_def Let_def U1_def S1_def U2_def S2_def H_def R_def Z_def on_jac_def [of None])
qed

lemma jac_mult_curve: "on_jac P \<Longrightarrow> on_jac (jac_mult k P)"
proof -
  assume P: "on_jac P"
  define f where "f = (\<lambda>i (R, A). (if bit k i then jac_add R A else R, jac_double A))"
  have "on_jac (fst (fold f is S)) \<and> on_jac (snd (fold f is S))" if "on_jac (fst S)" "on_jac (snd S)" for "is" S
    using that by (induction "is" arbitrary: S) (auto simp: f_def jac_add_curve jac_double_curve split: prod.splits)
  from this [of "(None, P)" "[0..<256]"] show ?thesis
    using P unfolding jac_mult_def f_def by (simp add: on_jac_def [of None] del: upt_rec_numeral)
qed

section \<open>The chord and the tangent rule\<close>

text \<open>\<open>represents P (x, y)\<close>: the finite Jacobian point \<open>P\<close> has the affine coordinates \<open>x\<close> and \<open>y\<close> modulo
  the prime.\<close>

definition represents :: "int \<times> int \<times> int \<Rightarrow> int \<times> int \<Rightarrow> bool" where
  "represents = (\<lambda>(X, Y, Z) (x, y). X mod p256_p = x * Z ^ 2 mod p256_p \<and> Y mod p256_p = y * Z ^ 3 mod p256_p)"

lemma represents_mod:
  "represents (X mod p256_p, Y mod p256_p, Z mod p256_p) (x, y) \<longleftrightarrow> represents (X, Y, Z) (x, y)"
proof -
  have "x * (Z mod p256_p) ^ 2 mod p256_p = x * Z ^ 2 mod p256_p" "y * (Z mod p256_p) ^ 3 mod p256_p = y * Z ^ 3 mod p256_p"
    by (intro mod_congs; simp)+
  then show ?thesis by (simp add: represents_def)
qed

definition chord :: "int \<Rightarrow> int \<times> int \<Rightarrow> int \<Rightarrow> int \<times> int" where
  "chord l = (\<lambda>(x1, y1) x2. let x3 = l ^ 2 - x1 - x2 in (x3, l * (x1 - x3) - y1))"

lemma jac_add_chord:
  assumes "represents (X1, Y1, Z1) (x1, y1)" and "represents (X2, Y2, Z2) (x2, y2)"
    and "l * (x2 - x1) mod p256_p = (y2 - y1) mod p256_p"
  shows "represents (jac_add_xyz (X1 * Z2 ^ 2) (Y1 * Z2 ^ 3) (X2 * Z1 ^ 2 - X1 * Z2 ^ 2) (Y2 * Z1 ^ 3 - Y1 * Z2 ^ 3) (Z1 * Z2))
    (chord l (x1, y1) x2)"
proof -
  define Z where "Z = Z1 * Z2"
  define U S H R where "U = X1 * Z2 ^ 2" and "S = Y1 * Z2 ^ 3" and "H = X2 * Z1 ^ 2 - U" and "R = Y2 * Z1 ^ 3 - S"
  define U' S' H' R' where "U' = x1 * Z ^ 2" and "S' = y1 * Z ^ 3" and "H' = (x2 - x1) * Z ^ 2" and "R' = l * (x2 - x1) * Z ^ 3"
  have "U mod p256_p = x1 * Z1 ^ 2 * Z2 ^ 2 mod p256_p" "X2 * Z1 ^ 2 mod p256_p = x2 * Z2 ^ 2 * Z1 ^ 2 mod p256_p"
      "S mod p256_p = y1 * Z1 ^ 3 * Z2 ^ 3 mod p256_p" "Y2 * Z1 ^ 3 mod p256_p = y2 * Z2 ^ 3 * Z1 ^ 3 mod p256_p"
    unfolding U_def S_def using assms(1,2) by (auto simp: represents_def intro: mod_mult_cong)
  moreover have "x1 * Z1 ^ 2 * Z2 ^ 2 = U'" "x2 * Z2 ^ 2 * Z1 ^ 2 = x2 * Z ^ 2" "y1 * Z1 ^ 3 * Z2 ^ 3 = S'" "y2 * Z2 ^ 3 * Z1 ^ 3 = y2 * Z ^ 3"
    unfolding U'_def S'_def Z_def by algebra+
  ultimately have U: "U mod p256_p = U' mod p256_p" and X2: "X2 * Z1 ^ 2 mod p256_p = x2 * Z ^ 2 mod p256_p"
      and S: "S mod p256_p = S' mod p256_p" and Y2: "Y2 * Z1 ^ 3 mod p256_p = y2 * Z ^ 3 mod p256_p" by simp_all
  have H: "H mod p256_p = H' mod p256_p"
    using mod_diff_cong [OF X2 U] by (simp add: H_def H'_def U'_def left_diff_distrib)
  have "R mod p256_p = (y2 - y1) * Z ^ 3 mod p256_p"
    using mod_diff_cong [OF Y2 S] by (simp add: R_def S'_def left_diff_distrib)
  also have "\<dots> = R' mod p256_p" unfolding R'_def by (rule mod_mult_cong [OF assms(3) [symmetric] refl])
  finally have R: "R mod p256_p = R' mod p256_p" .
  define x3 where "x3 = l ^ 2 - x1 - x2"
  define X3 X3' where "X3 = R ^ 2 - H ^ 3 - 2 * U * H ^ 2" and "X3' = R' ^ 2 - H' ^ 3 - 2 * U' * H' ^ 2"
  have X3: "X3 mod p256_p = X3' mod p256_p" unfolding X3_def X3'_def by (intro mod_congs U H R refl)
  moreover have "X3' = x3 * (Z * H') ^ 2" unfolding X3'_def R'_def H'_def U'_def x3_def by algebra
  moreover have "x3 * (Z * H') ^ 2 mod p256_p = x3 * (Z * H) ^ 2 mod p256_p" by (intro mod_congs H [symmetric] refl)
  ultimately have x: "X3 mod p256_p = x3 * (Z * H) ^ 2 mod p256_p" by simp
  have "(R * (U * H ^ 2 - X3) - S * H ^ 3) mod p256_p = (R' * (U' * H' ^ 2 - X3') - S' * H' ^ 3) mod p256_p"
    by (intro mod_congs U H R S X3 refl)
  moreover have "R' * (U' * H' ^ 2 - X3') - S' * H' ^ 3 = (l * (x1 - x3) - y1) * (Z * H') ^ 3"
    unfolding X3'_def R'_def H'_def U'_def S'_def x3_def by algebra
  moreover have "(l * (x1 - x3) - y1) * (Z * H') ^ 3 mod p256_p = (l * (x1 - x3) - y1) * (Z * H) ^ 3 mod p256_p"
    by (intro mod_congs H [symmetric] refl)
  ultimately have "(R * (U * H ^ 2 - X3) - S * H ^ 3) mod p256_p = (l * (x1 - x3) - y1) * (Z * H) ^ 3 mod p256_p" by simp
  then have "represents (X3, R * (U * H ^ 2 - X3) - S * H ^ 3, Z * H) (x3, l * (x1 - x3) - y1)"
    using x by (simp add: represents_def)
  then show ?thesis
    unfolding jac_add_xyz_def chord_def Let_def prod.case Z_def [symmetric] U_def [symmetric] S_def [symmetric] H_def [symmetric]
      R_def [symmetric] X3_def [symmetric] x3_def [symmetric] represents_mod .
qed

lemma jac_double_tangent:
  assumes "represents (X, Y, Z) (x, y)" and "l * (2 * y) mod p256_p = (3 * x ^ 2 - 3) mod p256_p"
  shows "represents (jac_double_xyz (X, Y, Z)) (chord l (x, y) x)"
proof -
  have X: "X mod p256_p = x * Z ^ 2 mod p256_p" and Y: "Y mod p256_p = y * Z ^ 3 mod p256_p"
    using assms(1) by (simp_all add: represents_def)
  define X' Y' where "X' = x * Z ^ 2" and "Y' = y * Z ^ 3"
  note XY = X [folded X'_def] Y [folded Y'_def]
  define A A' where "A = 3 * (X ^ 2 - Z ^ 4)" and "A' = l * (2 * y) * Z ^ 4"
  have "A mod p256_p = 3 * (X' ^ 2 - Z ^ 4) mod p256_p" unfolding A_def by (intro mod_congs XY refl)
  also have "3 * (X' ^ 2 - Z ^ 4) = (3 * x ^ 2 - 3) * Z ^ 4" unfolding X'_def by algebra
  also have "\<dots> mod p256_p = A' mod p256_p" unfolding A'_def by (rule mod_mult_cong [OF assms(2) [symmetric] refl])
  finally have A: "A mod p256_p = A' mod p256_p" .
  define x3 where "x3 = l ^ 2 - x - x"
  define X3 X3' where "X3 = A ^ 2 - 8 * X * Y ^ 2" and "X3' = A' ^ 2 - 8 * X' * Y' ^ 2"
  have X3: "X3 mod p256_p = X3' mod p256_p" unfolding X3_def X3'_def by (intro mod_congs A XY refl)
  moreover have "X3' = x3 * (2 * Y' * Z) ^ 2" unfolding X3'_def A'_def X'_def Y'_def x3_def by algebra
  moreover have "x3 * (2 * Y' * Z) ^ 2 mod p256_p = x3 * (2 * Y * Z) ^ 2 mod p256_p" by (intro mod_congs XY [symmetric] refl)
  ultimately have x: "X3 mod p256_p = x3 * (2 * Y * Z) ^ 2 mod p256_p" by simp
  have "(A * (4 * X * Y ^ 2 - X3) - 8 * Y ^ 4) mod p256_p = (A' * (4 * X' * Y' ^ 2 - X3') - 8 * Y' ^ 4) mod p256_p"
    by (intro mod_congs A XY X3 refl)
  moreover have "A' * (4 * X' * Y' ^ 2 - X3') - 8 * Y' ^ 4 = (l * (x - x3) - y) * (2 * Y' * Z) ^ 3"
    unfolding X3'_def A'_def X'_def Y'_def x3_def by algebra
  moreover have "(l * (x - x3) - y) * (2 * Y' * Z) ^ 3 mod p256_p = (l * (x - x3) - y) * (2 * Y * Z) ^ 3 mod p256_p"
    by (intro mod_congs XY [symmetric] refl)
  ultimately have "(A * (4 * X * Y ^ 2 - X3) - 8 * Y ^ 4) mod p256_p = (l * (x - x3) - y) * (2 * Y * Z) ^ 3 mod p256_p" by simp
  then have "represents (X3, A * (4 * X * Y ^ 2 - X3) - 8 * Y ^ 4, 2 * Y * Z) (x3, l * (x - x3) - y)"
    using x by (simp add: represents_def)
  then show ?thesis
    unfolding jac_double_xyz_def chord_def Let_def prod.case A_def [symmetric] X3_def [symmetric] x3_def [symmetric] represents_mod .
qed

section \<open>Properties\<close>

text \<open>The base point satisfies the curve equation; the quotient by the prime is written out.\<close>

lemma base_quotient:
  "int (bnv P256_GY) ^ 2 - (int (bnv P256_GX) ^ 3 - 3 * int (bnv P256_GX) + p256_b) =
     p256_p * - 0x12bdd1ad23dfc833dccf5f6141d6bb4a1f365dc1430b0e600b52dd851938d2d6933106a72efbf035fdaf43963b37fd5456e90c6581a8fb7a0d8a46a3629f0458"
  by (simp add: P256_GX_def P256_GY_def p256_p_def p256_b_def)

lemma base_on_curve: "on_jac p256_g" "on_curve (int (bnv P256_GX)) (int (bnv P256_GY))"
proof -
  have d: "p256_p dvd int (bnv P256_GY) ^ 2 - (int (bnv P256_GX) ^ 3 - 3 * int (bnv P256_GX) + p256_b)"
    unfolding base_quotient by (rule dvd_triv_left)
  then show "on_jac p256_g" unfolding params_val(3) [symmetric] on_jac_dvd by simp
  have "int (bnv P256_GX) < p256_p" "int (bnv P256_GY) < p256_p"
    using fp.reduced_less params_reduced(3,4) by blast+
  then show "on_curve (int (bnv P256_GX)) (int (bnv P256_GY))" using d by (simp add: on_curve_def mod_eq_dvd_iff)
qed

text \<open>C8: signature verification is ECDSA: for inputs of 32 bytes \<^verbatim>\<open>nd_p256_ecdsa_verify\<close> always
  returns, and it returns \<^verbatim>\<open>ND_OK\<close> exactly when the public key is a point of the curve, \<open>r\<close> and \<open>s\<close> lie
  between 1 and the order minus 1, and the x-coordinate of the point computed from the hash, the key and
  the signature is \<open>r\<close> modulo the order; in every other case it returns \<^verbatim>\<open>ND_ERR_AUTH_FAILED\<close>. The
  answer does not depend on the contents of the uninitialised objects.\<close>

theorem p256_ecdsa_verify_correct:
  assumes "length qx = 32" and "length qy = 32" and "length hash = 32" and "length r = 32" and "length s = 32"
  shows "nd_p256_ecdsa_verify uninit (Some qx) (Some qy) (Some hash) (Some r) (Some s) =
    Some (if ecdsa_valid (int (be_nat qx)) (int (be_nat qy)) (int (be_nat hash)) (int (be_nat r)) (int (be_nat s))
          then ND_OK else ND_ERR_AUTH_FAILED)"
  by (rule ecdsa_verify_ok [OF assms])

theorem p256_ecdsa_verify_correct_witness:
  "nd_p256_ecdsa_verify \<lparr>pt_x = [], pt_y = [], pt_z = [], infinity = False\<rparr>
     (Some (bn_to_bytes_be P256_GX)) (Some (bn_to_bytes_be P256_GY)) (Some (replicate 32 1)) (Some (replicate 32 0)) (Some (replicate 32 1)) =
   Some ND_ERR_AUTH_FAILED"
proof -
  have "be_nat (replicate 32 0) = 0" by (simp add: be_nat_def)
  moreover have "length (bn_to_bytes_be P256_GX) = 32" "length (bn_to_bytes_be P256_GY) = 32"
    using bn_to_bytes_be_ok(1) length_params by blast+
  ultimately show ?thesis by (simp add: p256_ecdsa_verify_correct ecdsa_valid_def del: nd_p256_ecdsa_verify.simps)
qed

text \<open>The check of a public key accepts exactly the affine points of the curve with both
  coordinates below the prime.\<close>

theorem p256_point_is_valid_iff:
  assumes "length qx = 32" and "length qy = 32"
  shows "nd_p256_point_is_valid (Some qx) (Some qy) =
    (if on_curve (int (be_nat qx)) (int (be_nat qy)) then ND_OK else ND_ERR_BAD_ARG)"
  by (rule point_is_valid_ok [OF assms])

theorem p256_point_is_valid_iff_witness:
  "nd_p256_point_is_valid (Some (bn_to_bytes_be P256_GX)) (Some (bn_to_bytes_be P256_GY)) = ND_OK \<and>
   nd_p256_point_is_valid (Some (replicate 32 0)) (Some (replicate 32 0)) = ND_ERR_BAD_ARG"
proof -
  have l: "length (bn_to_bytes_be P256_GX) = 32" "length (bn_to_bytes_be P256_GY) = 32"
      "be_nat (bn_to_bytes_be P256_GX) = bnv P256_GX" "be_nat (bn_to_bytes_be P256_GY) = bnv P256_GY"
    using bn_to_bytes_be_ok length_params by blast+
  note base_on_curve(2)
  moreover have "\<not> on_curve 0 0" by (simp add: on_curve_def p256_p_def p256_b_def)
  moreover have "be_nat (replicate 32 0) = 0" by (simp add: be_nat_def)
  ultimately show ?thesis
    using p256_point_is_valid_iff [OF l(1,2)] p256_point_is_valid_iff [of "replicate 32 0" "replicate 32 0"] l(3,4)
    by (simp only: length_replicate int_ops(1) if_True if_False simp_thms)
qed

text \<open>Two finite points with the same affine x- or y-coordinate.\<close>

definition same_x :: "int \<times> int \<times> int \<Rightarrow> int \<times> int \<times> int \<Rightarrow> bool" where
  "same_x = (\<lambda>(X1, Y1, Z1) (X2, Y2, Z2). X1 * Z2 ^ 2 mod p256_p = X2 * Z1 ^ 2 mod p256_p)"

definition same_y :: "int \<times> int \<times> int \<Rightarrow> int \<times> int \<times> int \<Rightarrow> bool" where
  "same_y = (\<lambda>(X1, Y1, Z1) (X2, Y2, Z2). Y1 * Z2 ^ 3 mod p256_p = Y2 * Z1 ^ 3 mod p256_p)"

lemma mod_diff_zero: "(b - a) mod m = 0 \<longleftrightarrow> a mod m = b mod m" for a b m :: int
  by (metis mod_eq_dvd_iff mod_0_imp_dvd dvd_imp_mod_0)

lemma jac_add_finite:
  "jac_add (Some (X1, Y1, Z1)) (Some (X2, Y2, Z2)) =
     (if same_x (X1, Y1, Z1) (X2, Y2, Z2) then
        if same_y (X1, Y1, Z1) (X2, Y2, Z2) then jac_double (Some (X1, Y1, Z1)) else None
      else Some (jac_add_xyz (X1 * Z2 ^ 2) (Y1 * Z2 ^ 3) (X2 * Z1 ^ 2 - X1 * Z2 ^ 2) (Y2 * Z1 ^ 3 - Y1 * Z2 ^ 3) (Z1 * Z2)))"
  by (simp add: jac_add_def Let_def same_x_def same_y_def mod_diff_zero)

text \<open>C9: the curve is closed under the code's arithmetic, and addition takes the branch of the group law: from
  points on the curve with reduced coordinates, doubling, addition and scalar multiplication give points on
  the curve with reduced coordinates. Infinity is neutral. Two finite points with the same affine x- and
  y-coordinates are added by doubling, with the same x- and different y-coordinates they give infinity, and
  otherwise a finite point with the product of the two Z and the (nonzero) difference of the x-coordinates
  as its Z. Doubling gives infinity exactly for infinity and for a y-coordinate of 0, and otherwise a finite
  point with \<open>2 * Y * Z\<close> as its Z.\<close>

theorem p256_addition_law:
  assumes "wf_point p \<and> on_jac (abs_point p)" and "wf_point q \<and> on_jac (abs_point q)" and "length k = 8"
  shows "(wf_point (point_double r p) \<and> on_jac (abs_point (point_double r p))) \<and>
    (wf_point (point_add r p q) \<and> on_jac (abs_point (point_add r p q))) \<and>
    (wf_point (point_scalar_mult r k p) \<and> on_jac (abs_point (point_scalar_mult r k p))) \<and>
    (case abs_point p of
       None \<Rightarrow> abs_point (point_double r p) = None \<and> abs_point (point_add r p q) = abs_point q
     | Some (X1, Y1, Z1) \<Rightarrow>
         (if Y1 = 0 then abs_point (point_double r p) = None
          else \<exists>X3 Y3. abs_point (point_double r p) = Some (X3, Y3, 2 * Y1 * Z1 mod p256_p)) \<and>
         (case abs_point q of
            None \<Rightarrow> abs_point (point_add r p q) = abs_point p
          | Some (X2, Y2, Z2) \<Rightarrow>
              if same_x (X1, Y1, Z1) (X2, Y2, Z2) then
                abs_point (point_add r p q) =
                  (if same_y (X1, Y1, Z1) (X2, Y2, Z2) then abs_point (point_double r p) else None)
              else \<exists>X3 Y3. abs_point (point_add r p q) = Some (X3, Y3, Z1 * Z2 * (X2 * Z1 ^ 2 - X1 * Z2 ^ 2) mod p256_p)))"
proof -
  note d = point_double_ok [of p r] and a = point_add_ok [of p q r]
  have inv: "(wf_point (point_double r p) \<and> on_jac (abs_point (point_double r p))) \<and>
    (wf_point (point_add r p q) \<and> on_jac (abs_point (point_add r p q))) \<and>
    (wf_point (point_scalar_mult r k p) \<and> on_jac (abs_point (point_scalar_mult r k p)))"
    using assms d a point_scalar_mult_ok [of k p r] jac_double_curve jac_add_curve jac_mult_curve by simp
  have "Y mod p256_p = Y" if "abs_point p = Some (X, Y, Z)" for X Y Z
    using that assms(1) fp.reduced_less [of "pt_y p"] by (auto simp: abs_point_def wf_point_def split: if_splits)
  with inv show ?thesis
    using assms(1,2) d a
    by (auto simp: jac_add_finite jac_double_def jac_double_xyz_def jac_add_xyz_def Let_def
        jac_add_def [of None] jac_add_def [of "Some _" None] split: option.splits)
qed

theorem p256_addition_law_witness:
  "on_jac (abs_point (point_scalar_mult (point_from_affine P256_GX P256_GY) P256_N (point_from_affine P256_GX P256_GY))) \<and>
   abs_point (point_add (point_from_affine P256_GX P256_GY) (point_from_affine P256_GX P256_GY) (point_from_affine P256_GX P256_GY)) =
     abs_point (point_double (point_from_affine P256_GX P256_GY) (point_from_affine P256_GX P256_GY))"
proof -
  let ?g = "point_from_affine P256_GX P256_GY"
  have g: "wf_point ?g \<and> on_jac (abs_point ?g)"
    using point_from_affine_ok [OF params_reduced(3,4)] base_on_curve(1) unfolding params_val by simp
  obtain X Y Z where a: "abs_point ?g = Some (X, Y, Z)" using point_from_affine_ok [OF params_reduced(3,4)] by auto
  show ?thesis
    using p256_addition_law [OF g g length_params(4), of ?g] unfolding a by (simp add: same_x_def same_y_def)
qed

text \<open>C31: point addition is the chord rule: for two finite points with different x-coordinates the code
  returns a finite point whose affine coordinates are those of the third intersection of the line through
  them, mirrored; \<open>l\<close> is any slope of the line.\<close>

theorem point_add_is_chord:
  assumes "wf_point p" and "wf_point q"
    and "abs_point p = Some (X1, Y1, Z1)" and "abs_point q = Some (X2, Y2, Z2)"
    and "represents (X1, Y1, Z1) (x1, y1)" and "represents (X2, Y2, Z2) (x2, y2)"
    and "(X2 * Z1 ^ 2 - X1 * Z2 ^ 2) mod p256_p \<noteq> 0"
    and "l * (x2 - x1) mod p256_p = (y2 - y1) mod p256_p"
  shows "\<exists>P3. abs_point (point_add r p q) = Some P3 \<and> represents P3 (l ^ 2 - x1 - x2, l * (x1 - (l ^ 2 - x1 - x2)) - y1)"
proof -
  have "abs_point (point_add r p q) = Some (jac_add_xyz (X1 * Z2 ^ 2) (Y1 * Z2 ^ 3) (X2 * Z1 ^ 2 - X1 * Z2 ^ 2)
      (Y2 * Z1 ^ 3 - Y1 * Z2 ^ 3) (Z1 * Z2))"
    using point_add_ok [OF assms(1,2), of r] assms(7) by (simp add: assms(3,4) jac_add_def Let_def)
  then show ?thesis using jac_add_chord [OF assms(5,6,8)] by (simp add: chord_def Let_def)
qed

theorem point_add_is_chord_witness:
  "\<exists>P3. abs_point (point_add (point_from_affine P256_GX P256_GY) (point_from_affine [0, 0, 0, 0, 0, 0, 0, 0] [1, 0, 0, 0, 0, 0, 0, 0])
       (point_from_affine [2, 0, 0, 0, 0, 0, 0, 0] [7, 0, 0, 0, 0, 0, 0, 0])) = Some P3 \<and> represents P3 (7, - 22)"
proof -
  have p: "2 ^ 200 < p256_p" by (simp add: p256_p_def)
  have r: "bn_reduced P256_P [x, 0, 0, 0, 0, 0, 0, 0]" if "unat x < 8" for x
    using that by (simp add: bn_reduced_def P256_P_def)
  note a = point_from_affine_ok [OF r r]
  show ?thesis
    using a [of 0 1] a [of 2 7] p
      point_add_is_chord [of "point_from_affine [0, 0, 0, 0, 0, 0, 0, 0] [1, 0, 0, 0, 0, 0, 0, 0]"
        "point_from_affine [2, 0, 0, 0, 0, 0, 0, 0] [7, 0, 0, 0, 0, 0, 0, 0]" 0 1 1 2 7 1 0 1 2 7 3]
    by (simp add: represents_def)
qed

text \<open>C32: doubling is the tangent rule: for a finite point with a y-coordinate other than 0 the code returns
  a finite point with the affine coordinates of the mirrored second intersection of the tangent; \<open>l\<close> is any
  slope of the tangent.\<close>

theorem point_double_is_tangent:
  assumes "wf_point p" and "abs_point p = Some (X, Y, Z)" and "represents (X, Y, Z) (x, y)" and "Y mod p256_p \<noteq> 0"
    and "l * (2 * y) mod p256_p = (3 * x ^ 2 - 3) mod p256_p"
  shows "\<exists>P3. abs_point (point_double r p) = Some P3 \<and> represents P3 (l ^ 2 - x - x, l * (x - (l ^ 2 - x - x)) - y)"
proof -
  have "abs_point (point_double r p) = Some (jac_double_xyz (X, Y, Z))"
    using point_double_ok [OF assms(1), of r] assms(4) by (simp add: assms(2) jac_double_def)
  then show ?thesis using jac_double_tangent [OF assms(3,5)] by (simp add: chord_def Let_def)
qed

theorem point_double_is_tangent_witness:
  "\<exists>P3. abs_point (point_double (point_from_affine P256_GX P256_GY) (point_from_affine [3, 0, 0, 0, 0, 0, 0, 0] [4, 0, 0, 0, 0, 0, 0, 0])) = Some P3 \<and>
     represents P3 (3, - 4)"
proof -
  have p: "2 ^ 200 < p256_p" by (simp add: p256_p_def)
  have r: "bn_reduced P256_P [x, 0, 0, 0, 0, 0, 0, 0]" if "unat x < 8" for x
    using that by (simp add: bn_reduced_def P256_P_def)
  show ?thesis
    using point_from_affine_ok [OF r r, of 3 4] p
      point_double_is_tangent [of "point_from_affine [3, 0, 0, 0, 0, 0, 0, 0] [4, 0, 0, 0, 0, 0, 0, 0]" 3 4 1 3 4 3]
    by (simp add: represents_def)
qed

end
