(* ===== verification/X509.thy ===== *)
theory X509
  imports Asn1 Sha256 P256 "HOL-Library.Sublist"
begin

text \<open>
  X.509 certificates: \<^verbatim>\<open>src/x509/x509.c\<close> and \<^verbatim>\<open>include/nanodtls/x509.h\<close>. The certificate record keeps
  a pointer into the DER buffer together with its length as one \<open>cbuf\<close>. The blocks of \<^verbatim>\<open>nd_x509_parse\<close>
  are definitions of their own, in the order of the code, and the parsed certificate is returned where the
  code returns \<^verbatim>\<open>ND_OK\<close>. Shown: what the parser returns is well-formed and lies inside the input; it
  reads back every certificate written with definite-length encodings; a chain is accepted exactly when
  every certificate is valid at the given time and signed by the next, a certificate authority.
\<close>

unbundle bit_operations_syntax

definition OID_ECDSA_WITH_SHA256 :: "byte list" where
  "OID_ECDSA_WITH_SHA256 = [0x2a, 0x86, 0x48, 0xce, 0x3d, 0x04, 0x03, 0x02]"

definition OID_EC_PUBLIC_KEY :: "byte list" where
  "OID_EC_PUBLIC_KEY = [0x2a, 0x86, 0x48, 0xce, 0x3d, 0x02, 0x01]"

definition OID_PRIME256V1 :: "byte list" where
  "OID_PRIME256V1 = [0x2a, 0x86, 0x48, 0xce, 0x3d, 0x03, 0x01, 0x07]"

definition OID_BASIC_CONSTRAINTS :: "byte list" where
  "OID_BASIC_CONSTRAINTS = [0x55, 0x1d, 0x13]"

abbreviation (input) ND_ASN1_TAG_CTX :: "byte \<Rightarrow> byte" where "ND_ASN1_TAG_CTX n \<equiv> 0xA0 OR n"
abbreviation (input) ND_P256_COORD_LEN :: nat where "ND_P256_COORD_LEN \<equiv> 32"
abbreviation (input) ND_P256_SCALAR_LEN :: nat where "ND_P256_SCALAR_LEN \<equiv> 32"

record nd_x509_cert =
  tbs_der :: cbuf
  issuer_der :: cbuf
  subject_der :: cbuf
  not_before :: u64
  not_after :: u64
  pubkey_qx :: "byte list"
  pubkey_qy :: "byte list"
  is_ca :: bool
  sig_r :: "byte list"
  sig_s :: "byte list"

section \<open>Comparison and time\<close>

definition oid_eq :: "nd_asn1_tlv \<Rightarrow> byte list \<Rightarrow> bool" where
  "oid_eq tlv oid =
     (if tlv_tag tlv \<noteq> ND_ASN1_TAG_OID then False
      else if length (tlv_value tlv) \<noteq> length oid then False
      else list_all (\<lambda>i. tlv_value tlv ! i = oid ! i) [0..<length oid])"

definition der_eq :: "cbuf \<Rightarrow> cbuf \<Rightarrow> bool" where
  "der_eq a b =
     (if cbuf_is_null a \<or> cbuf_is_null b \<or> cbuf_len a \<noteq> cbuf_len b then False
      else list_all (\<lambda>i. cbuf_bytes a ! i = cbuf_bytes b ! i) [0..<cbuf_len a])"

definition all_digits :: "byte list \<Rightarrow> nat \<Rightarrow> bool" where
  "all_digits p n = list_all (\<lambda>i. \<not> (p ! i < 0x30 \<or> p ! i > 0x39)) [0..<n]"

definition d2 :: "byte list \<Rightarrow> int" where
  "d2 p = (uint (p ! 0) - 0x30) * 10 + (uint (p ! 1) - 0x30)"

definition canonical_time :: "int \<Rightarrow> int \<Rightarrow> int \<Rightarrow> int \<Rightarrow> int \<Rightarrow> int \<Rightarrow> u64" where
  "canonical_time year mo dd hh mi ss =
     of_int year * 10000000000 + of_int mo * 100000000 + of_int dd * 1000000 +
     of_int hh * 10000 + of_int mi * 100 + of_int ss"

definition parse_time :: "nd_asn1_tlv \<Rightarrow> u64 result" where
  "parse_time tlv =
     (let p = tlv_value tlv in
      if tlv_tag tlv = ND_ASN1_TAG_UTC_TIME then
        if length p \<noteq> 13 \<or> p ! 12 \<noteq> 0x5A \<or> \<not> all_digits p 12 then Inl ND_ERR_BAD_LENGTH
        else
          let yy = d2 p;
              year = (if yy \<ge> 50 then 1900 + yy else 2000 + yy)
          in Inr (canonical_time year (d2 (drop 2 p)) (d2 (drop 4 p)) (d2 (drop 6 p)) (d2 (drop 8 p)) (d2 (drop 10 p)))
      else if tlv_tag tlv = ND_ASN1_TAG_GENERALIZED_TIME then
        if length p \<noteq> 15 \<or> p ! 14 \<noteq> 0x5A \<or> \<not> all_digits p 14 then Inl ND_ERR_BAD_LENGTH
        else
          let year = (uint (p ! 0) - 0x30) * 1000 + (uint (p ! 1) - 0x30) * 100 +
                     (uint (p ! 2) - 0x30) * 10 + (uint (p ! 3) - 0x30)
          in Inr (canonical_time year (d2 (drop 4 p)) (d2 (drop 6 p)) (d2 (drop 8 p)) (d2 (drop 10 p)) (d2 (drop 12 p)))
      else Inl ND_ERR_BAD_ARG)"

section \<open>Extensions\<close>

text \<open>The body of the loop for one extension: the new value of \<^verbatim>\<open>is_ca\<close>.\<close>

definition scan_extension :: "nd_asn1_tlv \<Rightarrow> bool \<Rightarrow> bool result" where
  "scan_extension ext ca =
     (if tlv_tag ext \<noteq> ND_ASN1_TAG_SEQUENCE then Inl ND_ERR_BAD_ARG
      else
        let xr = nd_asn1_reader_init (tlv_value ext) in
        then_ok (nd_asn1_reader_next xr) (\<lambda>(ext_oid, xr).
          if \<not> oid_eq ext_oid OID_BASIC_CONSTRAINTS then Inr ca
          else
            then_ok (nd_asn1_reader_next xr) (\<lambda>(next_field, xr).
            then_ok (if tlv_tag next_field = 0x01 then nd_asn1_reader_next xr else Inr (next_field, xr)) (\<lambda>(next_field, xr).
              if tlv_tag next_field \<noteq> ND_ASN1_TAG_OCTET_STRING then Inl ND_ERR_BAD_ARG
              else
                then_ok (nd_asn1_parse_tlv (Buf (tlv_value next_field))) (\<lambda>bc_seq.
                  if tlv_tag bc_seq = ND_ASN1_TAG_SEQUENCE \<and> length (tlv_value bc_seq) > 0 then
                    let bcr = nd_asn1_reader_init (tlv_value bc_seq) in
                    then_ok (nd_asn1_reader_next bcr) (\<lambda>(ca_bool, bcr).
                      Inr (if tlv_tag ca_bool = 0x01 \<and> length (tlv_value ca_bool) = 1 \<and> tlv_value ca_bool ! 0 \<noteq> 0x00
                           then True else ca))
                  else Inr ca)))))"

function scan_ext_loop :: "nd_asn1_reader \<Rightarrow> bool \<Rightarrow> bool result" where
  "scan_ext_loop er ca =
     (if nd_asn1_reader_done er then Inr ca
      else then_ok (nd_asn1_reader_next er) (\<lambda>(ext, er).
             then_ok (scan_extension ext ca) (\<lambda>ca. scan_ext_loop er ca)))"
  by pat_completeness auto

termination
  by (relation "measure (\<lambda>(er, ca). length er)") (auto dest: asn1_reader_next_shorter)

declare scan_ext_loop.simps [simp del]

definition scan_extensions :: "nd_asn1_tlv \<Rightarrow> bool \<Rightarrow> bool result" where
  "scan_extensions ext_list_octets ca =
     then_ok (nd_asn1_parse_tlv (Buf (tlv_value ext_list_octets))) (\<lambda>exts_seq.
       if tlv_tag exts_seq \<noteq> ND_ASN1_TAG_SEQUENCE then Inl ND_ERR_BAD_ARG
       else scan_ext_loop (nd_asn1_reader_init (tlv_value exts_seq)) ca)"

section \<open>The parser\<close>

definition parse_sig_alg :: "nd_asn1_tlv \<Rightarrow> unit result" where
  "parse_sig_alg sig_alg_tlv =
     (let sar = nd_asn1_reader_init (tlv_value sig_alg_tlv) in
      then_ok (nd_asn1_reader_next sar) (\<lambda>(oid_tlv, sar).
        if \<not> oid_eq oid_tlv OID_ECDSA_WITH_SHA256 then Inl ND_ERR_UNSUPPORTED else Inr ()))"

definition parse_sig_value :: "nd_asn1_tlv \<Rightarrow> (byte list \<times> byte list) result" where
  "parse_sig_value sig_val_tlv =
     then_ok (nd_asn1_read_bitstring_bytes (Some sig_val_tlv)) (\<lambda>sig_bytes.
     then_ok (nd_asn1_parse_tlv (Buf sig_bytes)) (\<lambda>seq_tlv.
       if tlv_tag seq_tlv \<noteq> ND_ASN1_TAG_SEQUENCE then Inl ND_ERR_BAD_ARG
       else
         let sr = nd_asn1_reader_init (tlv_value seq_tlv) in
         then_ok (nd_asn1_reader_next sr) (\<lambda>(r_tlv, sr).
         then_ok (nd_asn1_reader_next sr) (\<lambda>(s_tlv, sr).
         then_ok (nd_asn1_read_uint_fixed (Some r_tlv) ND_P256_SCALAR_LEN) (\<lambda>r.
         then_ok (nd_asn1_read_uint_fixed (Some s_tlv) ND_P256_SCALAR_LEN) (\<lambda>s.
           Inr (r, s)))))))"

definition parse_validity :: "nd_asn1_tlv \<Rightarrow> (u64 \<times> u64) result" where
  "parse_validity validity_tlv =
     (let vr = nd_asn1_reader_init (tlv_value validity_tlv) in
      then_ok (nd_asn1_reader_next vr) (\<lambda>(nb, vr).
      then_ok (nd_asn1_reader_next vr) (\<lambda>(na, vr).
      then_ok (parse_time nb) (\<lambda>t1.
      then_ok (parse_time na) (\<lambda>t2. Inr (t1, t2))))))"

definition parse_spki :: "nd_asn1_tlv \<Rightarrow> (byte list \<times> byte list) result" where
  "parse_spki spki_tlv =
     (let sr = nd_asn1_reader_init (tlv_value spki_tlv) in
      then_ok (nd_asn1_reader_next sr) (\<lambda>(alg_tlv, sr).
      let ar = nd_asn1_reader_init (tlv_value alg_tlv) in
      then_ok (nd_asn1_reader_next ar) (\<lambda>(alg_oid, ar).
        if \<not> oid_eq alg_oid OID_EC_PUBLIC_KEY then Inl ND_ERR_UNSUPPORTED
        else
          then_ok (nd_asn1_reader_next ar) (\<lambda>(curve_oid, ar).
          if \<not> oid_eq curve_oid OID_PRIME256V1 then Inl ND_ERR_UNSUPPORTED
          else
            then_ok (nd_asn1_reader_next sr) (\<lambda>(key_bits_tlv, sr).
            then_ok (nd_asn1_read_bitstring_bytes (Some key_bits_tlv)) (\<lambda>key_bytes.
              if length key_bytes \<noteq> 1 + 2 * ND_P256_COORD_LEN \<or> key_bytes ! 0 \<noteq> 0x04 then Inl ND_ERR_UNSUPPORTED
              else
                let qx = map (\<lambda>i. key_bytes ! (1 + i)) [0..<ND_P256_COORD_LEN];
                    qy = map (\<lambda>i. key_bytes ! (1 + ND_P256_COORD_LEN + i)) [0..<ND_P256_COORD_LEN]
                in if nd_p256_point_is_valid (Some qx) (Some qy) \<noteq> ND_OK then Inl ND_ERR_BAD_ARG
                   else Inr (qx, qy)))))))"

text \<open>The loop over the optional fields at the end.\<close>

function parse_options :: "nd_asn1_reader \<Rightarrow> bool \<Rightarrow> bool result" where
  "parse_options tbs_r ca =
     (if nd_asn1_reader_done tbs_r then Inr ca
      else then_ok (nd_asn1_reader_next tbs_r) (\<lambda>(opt, tbs_r).
             then_ok (if tlv_tag opt = ND_ASN1_TAG_CTX 3 then scan_extensions opt ca else Inr ca) (\<lambda>ca.
               parse_options tbs_r ca)))"
  by pat_completeness auto

termination
  by (relation "measure (\<lambda>(er, ca). length er)") (auto dest: asn1_reader_next_shorter)

declare parse_options.simps [simp del]

definition element_len :: "nd_asn1_tlv \<Rightarrow> nat" where
  "element_len tlv = tlv_header_len tlv + length (tlv_value tlv)"

text \<open>The fields of the TBSCertificate: issuer, validity, subject, public key and the optional fields.\<close>

definition parse_tbs :: "nd_asn1_tlv \<Rightarrow> (byte list \<times> (u64 \<times> u64) \<times> byte list \<times> (byte list \<times> byte list) \<times> bool) result" where
  "parse_tbs tbs_tlv =
     (let tbs_r = nd_asn1_reader_init (tlv_value tbs_tlv) in
      then_ok (nd_asn1_reader_next tbs_r) (\<lambda>(field, tbs_r).
      then_ok (if tlv_tag field = ND_ASN1_TAG_CTX 0 then nd_asn1_reader_next tbs_r else Inr (field, tbs_r)) (\<lambda>(field, tbs_r).
        if tlv_tag field \<noteq> ND_ASN1_TAG_INTEGER then Inl ND_ERR_BAD_ARG
        else
          then_ok (nd_asn1_reader_next tbs_r) (\<lambda>(inner_sig_alg, tbs_r).
          let issuer_start = tbs_r in
          then_ok (nd_asn1_reader_next tbs_r) (\<lambda>(issuer_tlv, tbs_r).
          then_ok (nd_asn1_reader_next tbs_r) (\<lambda>(validity_tlv, tbs_r).
          then_ok (parse_validity validity_tlv) (\<lambda>validity.
          let subject_start = tbs_r in
          then_ok (nd_asn1_reader_next tbs_r) (\<lambda>(subject_tlv, tbs_r).
          then_ok (nd_asn1_reader_next tbs_r) (\<lambda>(spki_tlv, tbs_r).
          then_ok (parse_spki spki_tlv) (\<lambda>key.
          then_ok (parse_options tbs_r False) (\<lambda>ca.
            Inr (take (element_len issuer_tlv) issuer_start, validity,
                 take (element_len subject_tlv) subject_start, key, ca))))))))))))"

fun nd_x509_parse :: "cbuf \<Rightarrow> nd_x509_cert result" where
  "nd_x509_parse (NULL_buf n) = Inl ND_ERR_BAD_ARG"
| "nd_x509_parse (Buf der) =
     then_ok (nd_asn1_parse_tlv (Buf der)) (\<lambda>cert_tlv.
     if tlv_tag cert_tlv \<noteq> ND_ASN1_TAG_SEQUENCE then Inl ND_ERR_BAD_ARG
     else
       let cert_r = nd_asn1_reader_init (tlv_value cert_tlv);
           tbs_start = cert_r
       in then_ok (nd_asn1_reader_next cert_r) (\<lambda>(tbs_tlv, cert_r).
       if tlv_tag tbs_tlv \<noteq> ND_ASN1_TAG_SEQUENCE then Inl ND_ERR_BAD_ARG
       else
         then_ok (nd_asn1_reader_next cert_r) (\<lambda>(sig_alg_tlv, cert_r).
         then_ok (parse_sig_alg sig_alg_tlv) (\<lambda>_.
         then_ok (nd_asn1_reader_next cert_r) (\<lambda>(sig_val_tlv, cert_r).
         then_ok (parse_sig_value sig_val_tlv) (\<lambda>(r, s).
         then_ok (parse_tbs tbs_tlv) (\<lambda>(issuer, (nb, na), subject, (qx, qy), ca).
           Inr \<lparr>tbs_der = Buf (take (element_len tbs_tlv) tbs_start), issuer_der = Buf issuer, subject_der = Buf subject,
                not_before = nb, not_after = na, pubkey_qx = qx, pubkey_qy = qy, is_ca = ca,
                sig_r = r, sig_s = s\<rparr>)))))))"

section \<open>Verification\<close>

fun nd_x509_verify_signature :: "ec_point \<Rightarrow> nd_x509_cert ptr \<Rightarrow> byte list ptr \<Rightarrow> byte list ptr \<Rightarrow> nd_status option" where
  "nd_x509_verify_signature uninit (Some cert) (Some issuer_qx) (Some issuer_qy) =
     (let hash = nd_sha256 (cbuf_bytes (tbs_der cert))
      in nd_p256_ecdsa_verify uninit (Some issuer_qx) (Some issuer_qy) (Some hash) (Some (sig_r cert)) (Some (sig_s cert)))"
| "nd_x509_verify_signature uninit cert issuer_qx issuer_qy = Some ND_ERR_BAD_ARG"

text \<open>The second loop of \<^verbatim>\<open>nd_x509_verify_chain\<close>, over the suffix of the chain that is still to be checked.\<close>

fun verify_links :: "ec_point \<Rightarrow> nd_x509_cert list \<Rightarrow> nd_x509_cert \<Rightarrow> nd_status option" where
  "verify_links uninit [] trust_anchor = Some ND_OK"
| "verify_links uninit (subject_cert # rest) trust_anchor =
     (let issuer_cert = (if rest \<noteq> [] then hd rest else trust_anchor) in
      if \<not> der_eq (issuer_der subject_cert) (subject_der issuer_cert) then Some ND_ERR_AUTH_FAILED
      else if \<not> is_ca issuer_cert then Some ND_ERR_AUTH_FAILED
      else Option.bind (nd_x509_verify_signature uninit (Some subject_cert) (Some (pubkey_qx issuer_cert)) (Some (pubkey_qy issuer_cert)))
        (\<lambda>st. if st \<noteq> ND_OK then Some st else verify_links uninit rest trust_anchor))"

definition outside_validity :: "u64 \<Rightarrow> nd_x509_cert \<Rightarrow> bool" where
  "outside_validity at_time c \<longleftrightarrow> at_time < not_before c \<or> at_time > not_after c"

fun nd_x509_verify_chain :: "ec_point \<Rightarrow> nd_x509_cert list ptr \<Rightarrow> nd_x509_cert ptr \<Rightarrow> u64 \<Rightarrow> nd_status option" where
  "nd_x509_verify_chain uninit (Some chain) (Some trust_anchor) at_time =
     (if length chain = 0 then Some ND_ERR_BAD_ARG
      else if outside_validity at_time trust_anchor then Some ND_ERR_AUTH_FAILED
      else if list_ex (outside_validity at_time) chain then Some ND_ERR_AUTH_FAILED
      else verify_links uninit chain trust_anchor)"
| "nd_x509_verify_chain uninit chain trust_anchor at_time = Some ND_ERR_BAD_ARG"

section \<open>What the parser returns\<close>

text \<open>A well-formed certificate: the arrays have their fixed lengths and the public key is a point of the
  curve.\<close>

definition cert_wf :: "nd_x509_cert \<Rightarrow> bool" where
  "cert_wf c \<longleftrightarrow> \<not> cbuf_is_null (tbs_der c) \<and> \<not> cbuf_is_null (issuer_der c) \<and> \<not> cbuf_is_null (subject_der c) \<and>
     length (pubkey_qx c) = 32 \<and> length (pubkey_qy c) = 32 \<and> length (sig_r c) = 32 \<and> length (sig_s c) = 32 \<and>
     on_curve (int (be_nat (pubkey_qx c))) (int (be_nat (pubkey_qy c)))"

lemma reader_next_split:
  assumes "nd_asn1_reader_next r = Inr (t, r')"
  shows "r = take (element_len t) r @ r'" and "sublist (tlv_value t) r" and "sublist r' r" and "sublist (take (element_len t) r) r"
    and "sublist (tlv_value t) (take (element_len t) r)"
proof -
  from assms have p: "nd_asn1_parse_tlv (Buf r) = Inr t" and r': "r' = drop (element_len t) r"
    by (auto simp: nd_asn1_reader_next_def then_ok_eq_Inr element_len_def split: if_splits)
  note b = parse_tlv_bounds [OF p]
  show "r = take (element_len t) r @ r'" by (simp add: r')
  have "take (element_len t) r = take (tlv_header_len t) r @ tlv_value t"
    using b slice_of_split [of "tlv_header_len t" "length (tlv_value t)" r] unfolding element_len_def by simp
  then show v: "sublist (tlv_value t) (take (element_len t) r)" by simp
  show s: "sublist (take (element_len t) r) r" by (rule sublist_take)
  show "sublist (tlv_value t) r" using v s by (rule sublist_order.order_trans)
  show "sublist r' r" unfolding r' by (rule sublist_drop)
qed

lemma parse_tlv_sublist: "nd_asn1_parse_tlv (Buf buf) = Inr t \<Longrightarrow> sublist (tlv_value t) buf"
  using parse_tlv_bounds [of buf t] by (metis slice_of_def sublist_drop sublist_order.order_trans sublist_take)

lemma read_uint_length: "nd_asn1_read_uint_fixed (Some t) n = Inr v \<Longrightarrow> length v = n"
  by (auto simp: Let_def split: if_splits)

lemma parse_sig_value_wf: "parse_sig_value t = Inr (r, s) \<Longrightarrow> length r = 32 \<and> length s = 32"
  unfolding parse_sig_value_def
  by (auto simp: then_ok_eq_Inr Let_def dest!: read_uint_length simp del: nd_asn1_read_uint_fixed.simps split: if_splits)

lemma parse_spki_wf:
  assumes "parse_spki t = Inr (qx, qy)"
  shows "length qx = 32 \<and> length qy = 32 \<and> on_curve (int (be_nat qx)) (int (be_nat qy))"
proof -
  from assms have v: "nd_p256_point_is_valid (Some qx) (Some qy) = ND_OK" and l: "length qx = 32" "length qy = 32"
    unfolding parse_spki_def
    by (auto simp: then_ok_eq_Inr Let_def simp del: nd_p256_point_is_valid.simps upt_rec_numeral split: if_splits)
  show ?thesis using v point_is_valid_ok [OF l] l by (auto split: if_splits simp del: nd_p256_point_is_valid.simps)
qed

lemma parse_tbs_wf:
  assumes "parse_tbs t = Inr (issuer, validity, subject, (qx, qy), ca)"
  shows "sublist issuer (tlv_value t) \<and> sublist subject (tlv_value t) \<and> length qx = 32 \<and> length qy = 32 \<and>
    on_curve (int (be_nat qx)) (int (be_nat qy))"
proof -
  obtain f r1 f2 r2 a r3 it r4 vt r5 st r6 kt r7 where
    n: "nd_asn1_reader_next (tlv_value t) = Inr (f, r1)"
      "(if tlv_tag f = ND_ASN1_TAG_CTX 0 then nd_asn1_reader_next r1 else Inr (f, r1)) = Inr (f2, r2)"
      "nd_asn1_reader_next r2 = Inr (a, r3)" "nd_asn1_reader_next r3 = Inr (it, r4)"
      "nd_asn1_reader_next r4 = Inr (vt, r5)" "nd_asn1_reader_next r5 = Inr (st, r6)"
      "nd_asn1_reader_next r6 = Inr (kt, r7)" "parse_spki kt = Inr (qx, qy)"
    and e: "issuer = take (element_len it) r3" "subject = take (element_len st) r5"
    using assms unfolding parse_tbs_def nd_asn1_reader_init_def Let_def then_ok_eq_Inr
    by (clarsimp simp: then_ok_eq_Inr)
  have "sublist r2 r1" using n(2) reader_next_split(3) by (auto split: if_splits)
  then have s3: "sublist r3 (tlv_value t)"
    using reader_next_split(3) [OF n(1)] reader_next_split(3) [OF n(3)] by (meson sublist_order.order_trans)
  moreover have "sublist r5 r3"
    using reader_next_split(3) [OF n(4)] reader_next_split(3) [OF n(5)] by (meson sublist_order.order_trans)
  ultimately have "sublist issuer (tlv_value t)" "sublist subject (tlv_value t)"
    unfolding e by (meson sublist_order.order_trans sublist_take)+
  then show ?thesis using parse_spki_wf [OF n(8)] by blast
qed

lemma x509_parse_wf:
  assumes "nd_x509_parse (Buf der) = Inr c"
  shows "cert_wf c \<and> (\<exists>tbs issuer subject. tbs_der c = Buf tbs \<and> issuer_der c = Buf issuer \<and> subject_der c = Buf subject \<and>
    sublist tbs der \<and> sublist issuer tbs \<and> sublist subject tbs)"
proof -
  obtain ct tt r1 at r2 vt r3 r s issuer nb na subject qx qy ca where
    n: "nd_asn1_parse_tlv (Buf der) = Inr ct" "nd_asn1_reader_next (tlv_value ct) = Inr (tt, r1)"
      "nd_asn1_reader_next r1 = Inr (at, r2)" "nd_asn1_reader_next r2 = Inr (vt, r3)"
      "parse_sig_value vt = Inr (r, s)" "parse_tbs tt = Inr (issuer, (nb, na), subject, (qx, qy), ca)"
    and c: "c = \<lparr>tbs_der = Buf (take (element_len tt) (tlv_value ct)), issuer_der = Buf issuer, subject_der = Buf subject,
       not_before = nb, not_after = na, pubkey_qx = qx, pubkey_qy = qy, is_ca = ca, sig_r = r, sig_s = s\<rparr>"
    using assms unfolding nd_x509_parse.simps nd_asn1_reader_init_def Let_def then_ok_eq_Inr
    by (clarsimp simp: then_ok_eq_Inr simp del: nd_asn1_parse_tlv.simps)
  have "sublist (take (element_len tt) (tlv_value ct)) der"
    using parse_tlv_sublist [OF n(1)] reader_next_split(4) [OF n(2)] by (meson sublist_order.order_trans)
  moreover have "sublist issuer (take (element_len tt) (tlv_value ct))" "sublist subject (take (element_len tt) (tlv_value ct))"
    using parse_tbs_wf [OF n(6)] reader_next_split(5) [OF n(2)] by (meson sublist_order.order_trans)+
  ultimately show ?thesis using parse_sig_value_wf [OF n(5)] parse_tbs_wf [OF n(6)] by (simp add: c cert_wf_def)
qed

section \<open>Chains\<close>

lemma list_all_upt_eq: "length a = length b \<Longrightarrow> list_all (\<lambda>i. a ! i = b ! i) [0..<length b] \<longleftrightarrow> a = b"
  by (auto simp: list_all_iff intro: nth_equalityI)

lemma oid_eq_iff: "oid_eq t oid \<longleftrightarrow> tlv_tag t = ND_ASN1_TAG_OID \<and> tlv_value t = oid"
  by (auto simp: oid_eq_def list_all_upt_eq)

lemma der_eq_iff: "der_eq a b \<longleftrightarrow> \<not> cbuf_is_null a \<and> \<not> cbuf_is_null b \<and> cbuf_bytes a = cbuf_bytes b"
  using list_all_upt_eq [of "cbuf_bytes a" "cbuf_bytes b"] by (cases a; cases b) (auto simp: der_eq_def)

text \<open>The issuer named in the certificate is a certificate authority whose key verifies the signature over
  the TBSCertificate.\<close>

definition signed_by :: "nd_x509_cert \<Rightarrow> nd_x509_cert \<Rightarrow> bool" where
  "signed_by c issuer \<longleftrightarrow> cbuf_bytes (issuer_der c) = cbuf_bytes (subject_der issuer) \<and> is_ca issuer \<and>
     ecdsa_valid (int (be_nat (pubkey_qx issuer))) (int (be_nat (pubkey_qy issuer)))
       (int (be_nat (sha256_hash (cbuf_bytes (tbs_der c))))) (int (be_nat (sig_r c))) (int (be_nat (sig_s c)))"

definition chain_valid :: "nd_x509_cert list \<Rightarrow> nd_x509_cert \<Rightarrow> u64 \<Rightarrow> bool" where
  "chain_valid chain anchor at_time \<longleftrightarrow>
     (\<forall>c \<in> set (chain @ [anchor]). not_before c \<le> at_time \<and> at_time \<le> not_after c) \<and>
     (\<forall>i < length chain. signed_by (chain ! i) ((chain @ [anchor]) ! Suc i))"

lemma verify_signature_ok:
  assumes "cert_wf c" and "cert_wf i"
  shows "nd_x509_verify_signature uninit (Some c) (Some (pubkey_qx i)) (Some (pubkey_qy i)) =
    Some (if ecdsa_valid (int (be_nat (pubkey_qx i))) (int (be_nat (pubkey_qy i)))
       (int (be_nat (sha256_hash (cbuf_bytes (tbs_der c))))) (int (be_nat (sig_r c))) (int (be_nat (sig_s c)))
       then ND_OK else ND_ERR_AUTH_FAILED)"
  using assms ecdsa_verify_ok [of "pubkey_qx i" "pubkey_qy i" "sha256_hash (cbuf_bytes (tbs_der c))" "sig_r c" "sig_s c"]
  by (simp add: cert_wf_def nd_sha256_eq Let_def del: nd_p256_ecdsa_verify.simps)

lemma verify_links_ok:
  assumes "\<forall>c \<in> set chain. cert_wf c" and "cert_wf anchor"
  shows "verify_links uninit chain anchor =
    Some (if \<forall>i < length chain. signed_by (chain ! i) ((chain @ [anchor]) ! Suc i) then ND_OK else ND_ERR_AUTH_FAILED)"
  using assms(1)
proof (induction chain)
  case (Cons c rest)
  define i where "i = (if rest \<noteq> [] then hd rest else anchor)"
  have wf: "cert_wf c" "cert_wf i" using Cons.prems assms(2) by (auto simp: i_def)
  have step: "verify_links uninit (c # rest) anchor =
      (if signed_by c i then verify_links uninit rest anchor else Some ND_ERR_AUTH_FAILED)"
    using wf unfolding verify_links.simps i_def [symmetric] Let_def verify_signature_ok [OF wf]
    by (simp add: signed_by_def der_eq_iff cert_wf_def)
  have nx: "(rest @ [anchor]) ! 0 = i" by (cases rest) (simp_all add: i_def)
  have all: "(\<forall>k < length (c # rest). signed_by ((c # rest) ! k) (((c # rest) @ [anchor]) ! Suc k)) \<longleftrightarrow>
      signed_by c i \<and> (\<forall>k < length rest. signed_by (rest ! k) ((rest @ [anchor]) ! Suc k))"
    using nx by (auto simp: less_Suc_eq_0_disj)
  have "verify_links uninit rest anchor =
      Some (if \<forall>i < length rest. signed_by (rest ! i) ((rest @ [anchor]) ! Suc i) then ND_OK else ND_ERR_AUTH_FAILED)"
    using Cons by simp
  then show ?case unfolding step all by simp
qed simp

lemma verify_chain_ok:
  assumes "\<forall>c \<in> set chain. cert_wf c" and "cert_wf anchor" and "chain \<noteq> []"
  shows "nd_x509_verify_chain uninit (Some chain) (Some anchor) at_time =
    Some (if chain_valid chain anchor at_time then ND_OK else ND_ERR_AUTH_FAILED)"
  using assms(3) verify_links_ok [OF assms(1,2), of uninit]
  by (auto simp: chain_valid_def outside_validity_def list_ex_iff not_less)

section \<open>Definite-length encodings of certificates\<close>

text \<open>\<open>is_tlv tag v e\<close>: \<open>e\<close> is a definite-length encoding of the element with this tag and these contents.\<close>

definition is_tlv :: "byte \<Rightarrow> byte list \<Rightarrow> byte list \<Rightarrow> bool" where
  "is_tlv tag v e \<longleftrightarrow> tag AND 0x1F \<noteq> 0x1F \<and>
     (e = tlv_short tag v \<and> length v < 128 \<or>
      (\<exists>k. 1 \<le> k \<and> k \<le> 8 \<and> e = tlv_long k tag v \<and> length v < 256 ^ k \<and> length v < 2 ^ 60))"

definition element :: "byte \<Rightarrow> byte list \<Rightarrow> byte list \<Rightarrow> nd_asn1_tlv" where
  "element tag v e = \<lparr>tlv_tag = tag, tlv_constructed = (tag AND 0x20 \<noteq> 0), tlv_header_len = length e - length v, tlv_value = v\<rparr>"

lemma element_simps [simp]:
  "tlv_tag (element tag v e) = tag" "tlv_value (element tag v e) = v"
  by (simp_all add: element_def)

lemma is_tlv_parse: "is_tlv tag v e \<Longrightarrow> nd_asn1_parse_tlv (Buf (e @ rest)) = Inr (element tag v e)"
  unfolding is_tlv_def element_def
  using parse_tlv_short [of tag v rest] parse_tlv_long [of tag _ v rest]
  by (auto simp: tlv_short_def tlv_long_def simp del: nd_asn1_parse_tlv.simps)

lemma is_tlv_length: "is_tlv tag v e \<Longrightarrow> length v + 2 \<le> length e \<and> e \<noteq> []"
  by (auto simp: is_tlv_def tlv_short_def tlv_long_def)

lemma is_tlv_element_len [simp]: "is_tlv tag v e \<Longrightarrow> element_len (element tag v e) = length e"
  using is_tlv_length [of tag v e] by (simp add: element_len_def element_def)

lemma is_tlv_next [simp]: "is_tlv tag v e \<Longrightarrow> nd_asn1_reader_next (e @ rest) = Inr (element tag v e, rest)"
  using is_tlv_parse [of tag v e rest] is_tlv_element_len [of tag v e] is_tlv_length [of tag v e]
  by (simp add: nd_asn1_reader_next_def element_len_def del: nd_asn1_parse_tlv.simps)

lemma is_tlv_next0 [simp]: "is_tlv tag v e \<Longrightarrow> nd_asn1_reader_next e = Inr (element tag v e, [])"
  using is_tlv_next [of tag v e "[]"] by simp

lemma is_tlv_parse0 [simp]: "is_tlv tag v e \<Longrightarrow> nd_asn1_parse_tlv (Buf e) = Inr (element tag v e)"
  using is_tlv_parse [of tag v e "[]"] by simp

text \<open>Times of RFC 5280: two-digit years stand for 1950 to 2049.\<close>

definition two :: "nat \<Rightarrow> byte list" where
  "two n = [of_nat (0x30 + n div 10), of_nat (0x30 + n mod 10)]"

type_synonym date = "nat \<times> nat \<times> nat \<times> nat \<times> nat \<times> nat"

definition date_number :: "date \<Rightarrow> nat" where
  "date_number = (\<lambda>(y, mo, d, h, mi, s). y * 10000000000 + mo * 100000000 + d * 1000000 + h * 10000 + mi * 100 + s)"

definition encodes_time :: "date \<Rightarrow> byte list \<Rightarrow> bool" where
  "encodes_time = (\<lambda>(y, mo, d, h, mi, s) e.
     mo < 100 \<and> d < 100 \<and> h < 100 \<and> mi < 100 \<and> s < 100 \<and>
     (1950 \<le> y \<and> y < 2050 \<and>
        is_tlv ND_ASN1_TAG_UTC_TIME (two (y mod 100) @ two mo @ two d @ two h @ two mi @ two s @ [0x5A]) e \<or>
      y < 10000 \<and>
        is_tlv ND_ASN1_TAG_GENERALIZED_TIME (two (y div 100) @ two (y mod 100) @ two mo @ two d @ two h @ two mi @ two s @ [0x5A]) e))"

lemma two_digits: "n < 100 \<Longrightarrow> two n = [a, b] \<Longrightarrow>
    0x30 \<le> a \<and> a \<le> 0x39 \<and> 0x30 \<le> b \<and> b \<le> 0x39 \<and> (uint a - 0x30) * 10 + (uint b - 0x30) = int n"
proof -
  assume n: "n < 100" and t: "two n = [a, b]"
  have d: "n div 10 < 10" "n mod 10 < 10" using n by (simp_all add: less_mult_imp_div_less)
  have u: "unat (of_nat (0x30 + k) :: byte) = 0x30 + k" if "k < 10" for k
    using that by (simp add: unat_of_nat del: of_nat_add)
  have a: "a = of_nat (0x30 + n div 10)" "b = of_nat (0x30 + n mod 10)" using t by (simp_all add: two_def)
  have "unat a = 0x30 + n div 10" "unat b = 0x30 + n mod 10" unfolding a using u [OF d(1)] u [OF d(2)] by simp_all
  moreover from this have "uint a = 0x30 + int (n div 10)" "uint b = 0x30 + int (n mod 10)"
    unfolding uint_nat [of a] uint_nat [of b] by simp_all
  moreover have "int (n div 10) * 10 + int (n mod 10) = int n" by (metis div_mult_mod_eq of_nat_add of_nat_mult of_nat_numeral)
  ultimately show ?thesis using d by (simp add: word_le_nat_alt)
qed

lemma of_int_nat_word: "(of_int (int n) :: 'a::len word) = of_nat n"
  by simp

lemma canonical_time_nat:
  "canonical_time (int y) (int mo) (int d) (int h) (int mi) (int s) = of_nat (date_number (y, mo, d, h, mi, s))"
  by (simp add: canonical_time_def date_number_def)

lemma two_obtain:
  assumes "n < 100"
  obtains a b where "two n = [a, b]" "\<not> a < 0x30" "\<not> 0x39 < a" "\<not> b < 0x30" "\<not> 0x39 < b"
    "(uint a - 0x30) * 10 + (uint b - 0x30) = int n"
  using two_digits [OF assms] by (auto simp: two_def not_less)

lemma parse_time_digits:
  assumes "mo < 100" and "d < 100" and "h < 100" and "mi < 100" and "s < 100"
  shows "1950 \<le> y \<Longrightarrow> y < 2050 \<Longrightarrow>
      parse_time (element ND_ASN1_TAG_UTC_TIME (two (y mod 100) @ two mo @ two d @ two h @ two mi @ two s @ [0x5A]) e) =
        Inr (of_nat (date_number (y, mo, d, h, mi, s)))"
    and "y < 10000 \<Longrightarrow>
      parse_time (element ND_ASN1_TAG_GENERALIZED_TIME
        (two (y div 100) @ two (y mod 100) @ two mo @ two d @ two h @ two mi @ two s @ [0x5A]) e) =
        Inr (of_nat (date_number (y, mo, d, h, mi, s)))"
proof -
  obtain a1 b1 where t1: "two mo = [a1, b1]" "\<not> a1 < 0x30" "\<not> 0x39 < a1" "\<not> b1 < 0x30" "\<not> 0x39 < b1" "(uint a1 - 0x30) * 10 + (uint b1 - 0x30) = int mo"
    by (rule two_obtain [OF assms(1)])
  obtain a2 b2 where t2: "two d = [a2, b2]" "\<not> a2 < 0x30" "\<not> 0x39 < a2" "\<not> b2 < 0x30" "\<not> 0x39 < b2" "(uint a2 - 0x30) * 10 + (uint b2 - 0x30) = int d"
    by (rule two_obtain [OF assms(2)])
  obtain a3 b3 where t3: "two h = [a3, b3]" "\<not> a3 < 0x30" "\<not> 0x39 < a3" "\<not> b3 < 0x30" "\<not> 0x39 < b3" "(uint a3 - 0x30) * 10 + (uint b3 - 0x30) = int h"
    by (rule two_obtain [OF assms(3)])
  obtain a4 b4 where t4: "two mi = [a4, b4]" "\<not> a4 < 0x30" "\<not> 0x39 < a4" "\<not> b4 < 0x30" "\<not> 0x39 < b4" "(uint a4 - 0x30) * 10 + (uint b4 - 0x30) = int mi"
    by (rule two_obtain [OF assms(4)])
  obtain a5 b5 where t5: "two s = [a5, b5]" "\<not> a5 < 0x30" "\<not> 0x39 < a5" "\<not> b5 < 0x30" "\<not> 0x39 < b5" "(uint a5 - 0x30) * 10 + (uint b5 - 0x30) = int s"
    by (rule two_obtain [OF assms(5)])
  obtain a b where t: "two (y mod 100) = [a, b]" "\<not> a < 0x30" "\<not> 0x39 < a" "\<not> b < 0x30" "\<not> 0x39 < b" "(uint a - 0x30) * 10 + (uint b - 0x30) = int (y mod 100)"
    by (rule two_obtain [of "y mod 100"]) simp_all
  let ?v = "two mo @ two d @ two h @ two mi @ two s @ [0x5A]"
  have d2s: "d2 ?v = int mo" "d2 (drop 2 ?v) = int d" "d2 (drop 4 ?v) = int h" "d2 (drop 6 ?v) = int mi" "d2 (drop 8 ?v) = int s"
    using t1(6) t2(6) t3(6) t4(6) t5(6) by (simp_all add: t1(1) t2(1) t3(1) t4(1) t5(1) d2_def)
  have dig: "all_digits (two (y mod 100) @ ?v) 12"
    using t t1 t2 t3 t4 t5 by (simp add: all_digits_def upt_rec)
  {
    assume y: "1950 \<le> y" "y < 2050"
    have "(if 50 \<le> int (y mod 100) then 1900 + int (y mod 100) else 2000 + int (y mod 100)) = int y"
    proof (cases "y < 2000")
      case True
      then have "y mod 100 = y - 1900" using y mod_mult_self2 [of "y - 1900" 100 19] by simp
      then show ?thesis using True y by simp
    next
      case False
      then have "y mod 100 = y - 2000" using y mod_mult_self2 [of "y - 2000" 100 20] by simp
      then show ?thesis using False y by simp
    qed
    moreover have "d2 (two (y mod 100) @ ?v) = int (y mod 100)" using t(1,6) by (simp add: d2_def)
    ultimately show "parse_time (element ND_ASN1_TAG_UTC_TIME (two (y mod 100) @ ?v) e) = Inr (of_nat (date_number (y, mo, d, h, mi, s)))"
      using dig d2s unfolding canonical_time_nat [symmetric]
      by (simp add: parse_time_def t(1) t1(1) t2(1) t3(1) t4(1) t5(1))
  next
    assume y: "y < 10000"
    then have "y div 100 < 100" by (simp add: less_mult_imp_div_less)
    then obtain a' b' where t': "two (y div 100) = [a', b']" "\<not> a' < 0x30" "\<not> 0x39 < a'" "\<not> b' < 0x30" "\<not> 0x39 < b'" "(uint a' - 0x30) * 10 + (uint b' - 0x30) = int (y div 100)"
      by (rule two_obtain)
    have "all_digits (two (y div 100) @ two (y mod 100) @ ?v) 14"
      using t' t t1 t2 t3 t4 t5 by (simp add: all_digits_def upt_rec)
    moreover have "(uint a' - 0x30) * 1000 + (uint b' - 0x30) * 100 + (uint a - 0x30) * 10 + (uint b - 0x30) = int y"
    proof -
      have "int y = 100 * int (y div 100) + int (y mod 100)" by (metis mult_div_mod_eq of_nat_add of_nat_mult of_nat_numeral)
      then show ?thesis unfolding t(6) [symmetric] t'(6) [symmetric] by (simp add: algebra_simps)
    qed
    ultimately show "parse_time (element ND_ASN1_TAG_GENERALIZED_TIME (two (y div 100) @ two (y mod 100) @ ?v) e) =
        Inr (of_nat (date_number (y, mo, d, h, mi, s)))"
      using d2s unfolding canonical_time_nat [symmetric]
      by (simp add: parse_time_def t'(1) t(1) t1(1) t2(1) t3(1) t4(1) t5(1))
  }
qed

lemma parse_time_encoded:
  assumes "encodes_time t e"
  obtains tag v where "is_tlv tag v e" and "parse_time (element tag v e) = Inr (of_nat (date_number t))"
proof -
  obtain y mo d h mi s where t: "t = (y, mo, d, h, mi, s)" by (metis prod.exhaust)
  show ?thesis
    using assms parse_time_digits [of mo d h mi s y e] that unfolding t encodes_time_def prod.case by blast
qed

text \<open>The algorithm identifiers, the signature, the validity and the public key. Elements that the parser
  does not compare (tags of wrappers, parameters, names) are arbitrary.\<close>

definition encodes_sig_alg :: "byte list \<Rightarrow> bool" where
  "encodes_sig_alg e \<longleftrightarrow> (\<exists>tag oid params. is_tlv ND_ASN1_TAG_OID OID_ECDSA_WITH_SHA256 oid \<and> is_tlv tag (oid @ params) e)"

definition encodes_signature :: "byte list \<Rightarrow> byte list \<Rightarrow> byte list \<Rightarrow> bool" where
  "encodes_signature r s e \<longleftrightarrow> length r = 32 \<and> length s = 32 \<and>
     (\<exists>q. is_tlv ND_ASN1_TAG_SEQUENCE (der_encode_uint32 r @ der_encode_uint32 s) q \<and> is_tlv ND_ASN1_TAG_BIT_STRING (0 # q) e)"

definition encodes_validity :: "date \<Rightarrow> date \<Rightarrow> byte list \<Rightarrow> bool" where
  "encodes_validity t1 t2 e \<longleftrightarrow> (\<exists>tag e1 e2. encodes_time t1 e1 \<and> encodes_time t2 e2 \<and> is_tlv tag (e1 @ e2) e)"

definition encodes_spki :: "byte list \<Rightarrow> byte list \<Rightarrow> byte list \<Rightarrow> bool" where
  "encodes_spki qx qy e \<longleftrightarrow> length qx = 32 \<and> length qy = 32 \<and>
     (\<exists>tag tag' alg oid curve params key. is_tlv ND_ASN1_TAG_OID OID_EC_PUBLIC_KEY oid \<and>
        is_tlv ND_ASN1_TAG_OID OID_PRIME256V1 curve \<and> is_tlv tag' (oid @ curve @ params) alg \<and>
        is_tlv ND_ASN1_TAG_BIT_STRING (0 # 4 # qx @ qy) key \<and> is_tlv tag (alg @ key) e)"

text \<open>One extension: \<open>ca\<close> is true for a basicConstraints extension whose cA field is TRUE.\<close>

definition encodes_extension :: "bool \<Rightarrow> byte list \<Rightarrow> bool" where
  "encodes_extension ca e \<longleftrightarrow>
     (\<exists>v oid body. v \<noteq> OID_BASIC_CONSTRAINTS \<and> is_tlv ND_ASN1_TAG_OID v oid \<and> is_tlv ND_ASN1_TAG_SEQUENCE (oid @ body) e \<and> \<not> ca) \<or>
     (\<exists>oid critical octets q fields. is_tlv ND_ASN1_TAG_OID OID_BASIC_CONSTRAINTS oid \<and>
        (critical = [] \<or> (\<exists>cv. is_tlv 1 cv critical)) \<and> is_tlv ND_ASN1_TAG_SEQUENCE fields q \<and>
        is_tlv ND_ASN1_TAG_OCTET_STRING q octets \<and> is_tlv ND_ASN1_TAG_SEQUENCE (oid @ critical @ octets) e \<and>
        (fields = [] \<and> \<not> ca \<or> (\<exists>b f rest. is_tlv 1 [b] f \<and> fields = f @ rest \<and> ca = (b \<noteq> 0))))"

definition encodes_options :: "bool \<Rightarrow> byte list \<Rightarrow> bool" where
  "encodes_options ca e \<longleftrightarrow>
     (\<exists>ids exts cas q f. list_all (\<lambda>u. \<exists>tag v. tag \<noteq> ND_ASN1_TAG_CTX 3 \<and> is_tlv tag v u) ids \<and>
        (e = concat ids \<and> \<not> ca \<or>
         list_all2 encodes_extension cas exts \<and> is_tlv ND_ASN1_TAG_SEQUENCE (concat exts) q \<and>
         is_tlv (ND_ASN1_TAG_CTX 3) q f \<and> e = concat ids @ f \<and> ca = (True \<in> set cas)))"

definition encodes_tbs :: "byte list \<Rightarrow> date \<Rightarrow> date \<Rightarrow> byte list \<Rightarrow> byte list \<Rightarrow> byte list \<Rightarrow> bool \<Rightarrow> byte list \<Rightarrow> bool" where
  "encodes_tbs issuer t1 t2 subject qx qy ca e \<longleftrightarrow>
     (\<exists>version serial sv alg atag av itag iv validity stag sv' spki options.
        (version = [] \<or> (\<exists>vv. is_tlv (ND_ASN1_TAG_CTX 0) vv version)) \<and> is_tlv ND_ASN1_TAG_INTEGER sv serial \<and>
        is_tlv atag av alg \<and> is_tlv itag iv issuer \<and> encodes_validity t1 t2 validity \<and> is_tlv stag sv' subject \<and>
        encodes_spki qx qy spki \<and> encodes_options ca options \<and>
        is_tlv ND_ASN1_TAG_SEQUENCE (version @ serial @ alg @ issuer @ validity @ subject @ spki @ options) e)"

definition encodes_cert :: "byte list \<Rightarrow> byte list \<Rightarrow> byte list \<Rightarrow> byte list \<Rightarrow> byte list \<Rightarrow> byte list \<Rightarrow> bool" where
  "encodes_cert tbs r s alg sig e \<longleftrightarrow> encodes_sig_alg alg \<and> encodes_signature r s sig \<and>
     is_tlv ND_ASN1_TAG_SEQUENCE (tbs @ alg @ sig) e"

lemmas parse_simps = nd_asn1_reader_init_def nd_asn1_reader_done_def oid_eq_iff Let_def

lemma parse_sig_alg_encoded: "encodes_sig_alg e \<Longrightarrow> \<exists>tag v. is_tlv tag v e \<and> parse_sig_alg (element tag v e) = Inr ()"
  unfolding encodes_sig_alg_def
  by (elim exE conjE, intro exI conjI, assumption) (simp add: parse_sig_alg_def parse_simps)

lemma is_tlv_short: "tag AND 0x1F \<noteq> 0x1F \<Longrightarrow> length v < 128 \<Longrightarrow> is_tlv tag v (tlv_short tag v)"
  by (simp add: is_tlv_def)

lemma parse_sig_value_encoded:
  assumes "encodes_signature r s e"
  shows "\<exists>tag v. is_tlv tag v e \<and> parse_sig_value (element tag v e) = Inr (r, s)"
proof -
  obtain q where l: "length r = 32" "length s = 32"
    and q: "is_tlv ND_ASN1_TAG_SEQUENCE (der_encode_uint32 r @ der_encode_uint32 s) q" and e: "is_tlv ND_ASN1_TAG_BIT_STRING (0 # q) e"
    using assms unfolding encodes_signature_def by blast
  have i: "is_tlv ND_ASN1_TAG_INTEGER (der_uint_contents r) (der_encode_uint32 r)" "is_tlv ND_ASN1_TAG_INTEGER (der_uint_contents s) (der_encode_uint32 s)"
    using der_encode_uint32_tlv [OF l(1)] der_encode_uint32_tlv [OF l(2)] by (simp_all add: is_tlv_short)
  have u: "nd_asn1_read_uint_fixed (Some (element ND_ASN1_TAG_INTEGER (der_uint_contents r) d)) 32 = Inr r"
      "nd_asn1_read_uint_fixed (Some (element ND_ASN1_TAG_INTEGER (der_uint_contents s) d)) 32 = Inr s" for d
    unfolding element_def by (rule read_uint_contents, rule l)+
  have "nd_asn1_read_bitstring_bytes (Some (element ND_ASN1_TAG_BIT_STRING (0 # q) e)) = Inr q" by simp
  then have "parse_sig_value (element ND_ASN1_TAG_BIT_STRING (0 # q) e) = Inr (r, s)"
    using q i u by (simp add: parse_sig_value_def parse_simps del: nd_asn1_parse_tlv.simps nd_asn1_read_uint_fixed.simps nd_asn1_read_bitstring_bytes.simps)
  then show ?thesis using e by blast
qed

lemma parse_validity_encoded:
  assumes "encodes_validity t1 t2 e"
  shows "\<exists>tag v. is_tlv tag v e \<and> parse_validity (element tag v e) = Inr (of_nat (date_number t1), of_nat (date_number t2))"
proof -
  obtain tag e1 e2 where t: "encodes_time t1 e1" "encodes_time t2 e2" and e: "is_tlv tag (e1 @ e2) e"
    using assms unfolding encodes_validity_def by blast
  obtain a v where a: "is_tlv a v e1" "parse_time (element a v e1) = Inr (of_nat (date_number t1))" by (rule parse_time_encoded [OF t(1)])
  obtain b w where b: "is_tlv b w e2" "parse_time (element b w e2) = Inr (of_nat (date_number t2))" by (rule parse_time_encoded [OF t(2)])
  have "parse_validity (element tag (e1 @ e2) e) = Inr (of_nat (date_number t1), of_nat (date_number t2))"
    using a b by (simp add: parse_validity_def parse_simps)
  then show ?thesis using e by blast
qed

lemma parse_spki_encoded:
  assumes "encodes_spki qx qy e" and "on_curve (int (be_nat qx)) (int (be_nat qy))"
  shows "\<exists>tag v. is_tlv tag v e \<and> parse_spki (element tag v e) = Inr (qx, qy)"
proof -
  obtain tag tag' alg oid curve params key where l: "length qx = 32" "length qy = 32"
    and o: "is_tlv ND_ASN1_TAG_OID OID_EC_PUBLIC_KEY oid" "is_tlv ND_ASN1_TAG_OID OID_PRIME256V1 curve" "is_tlv tag' (oid @ curve @ params) alg"
    and k: "is_tlv ND_ASN1_TAG_BIT_STRING (0 # 4 # qx @ qy) key" and e: "is_tlv tag (alg @ key) e"
    using assms(1) unfolding encodes_spki_def by blast
  have q: "map (\<lambda>i. (4 # qx @ qy) ! (1 + i)) [0..<32] = qx" "map (\<lambda>i. (4 # qx @ qy) ! (1 + 32 + i)) [0..<32] = qy"
    using l by (auto intro!: nth_equalityI simp: nth_append simp del: upt_rec_numeral)
  have "nd_asn1_read_bitstring_bytes (Some (element ND_ASN1_TAG_BIT_STRING (0 # 4 # qx @ qy) key)) = Inr (4 # qx @ qy)" by simp
  moreover have "nd_p256_point_is_valid (Some qx) (Some qy) = ND_OK" using point_is_valid_ok [OF l] assms(2) by simp
  ultimately have "parse_spki (element tag (alg @ key) e) = Inr (qx, qy)"
    using o k l q unfolding parse_spki_def parse_simps
    by (simp del: nd_p256_point_is_valid.simps nd_asn1_read_bitstring_bytes.simps upt_rec_numeral nth_Cons_Suc plus_nat.simps)
  then show ?thesis using e by blast
qed

lemma scan_extension_encoded:
  assumes "encodes_extension c e"
  shows "\<exists>v. is_tlv ND_ASN1_TAG_SEQUENCE v e \<and> (\<forall>ca. scan_extension (element ND_ASN1_TAG_SEQUENCE v e) ca = Inr (ca \<or> c))"
  using assms unfolding encodes_extension_def
proof (elim disjE exE conjE)
  fix v oid body
  assume "v \<noteq> OID_BASIC_CONSTRAINTS" "is_tlv ND_ASN1_TAG_OID v oid" "is_tlv ND_ASN1_TAG_SEQUENCE (oid @ body) e" "\<not> c"
  then show ?thesis by (intro exI [of _ "oid @ body"]) (simp add: scan_extension_def parse_simps)
next
  fix oid critical octets q fields
  assume o: "is_tlv ND_ASN1_TAG_OID OID_BASIC_CONSTRAINTS oid" and q: "is_tlv ND_ASN1_TAG_SEQUENCE fields q"
      "is_tlv ND_ASN1_TAG_OCTET_STRING q octets" "is_tlv ND_ASN1_TAG_SEQUENCE (oid @ critical @ octets) e"
    and cr: "critical = []" and f: "fields = []" "\<not> c"
  then show ?thesis
    by (intro exI [of _ "oid @ critical @ octets"]) (simp add: scan_extension_def parse_simps del: nd_asn1_parse_tlv.simps)
next
  fix oid critical octets q fields b f rest
  assume o: "is_tlv ND_ASN1_TAG_OID OID_BASIC_CONSTRAINTS oid" and q: "is_tlv ND_ASN1_TAG_SEQUENCE fields q"
      "is_tlv ND_ASN1_TAG_OCTET_STRING q octets" "is_tlv ND_ASN1_TAG_SEQUENCE (oid @ critical @ octets) e"
    and cr: "critical = []" and f: "is_tlv 1 [b] f" "fields = f @ rest" "c = (b \<noteq> 0)"
  then show ?thesis using is_tlv_length [OF f(1)]
    by (intro exI [of _ "oid @ critical @ octets"]) (simp add: scan_extension_def parse_simps del: nd_asn1_parse_tlv.simps)
next
  fix oid critical octets q fields cv
  assume o: "is_tlv ND_ASN1_TAG_OID OID_BASIC_CONSTRAINTS oid" and q: "is_tlv ND_ASN1_TAG_SEQUENCE fields q"
      "is_tlv ND_ASN1_TAG_OCTET_STRING q octets" "is_tlv ND_ASN1_TAG_SEQUENCE (oid @ critical @ octets) e"
    and cr: "is_tlv 1 cv critical" and f: "fields = []" "\<not> c"
  then show ?thesis
    by (intro exI [of _ "oid @ critical @ octets"]) (simp add: scan_extension_def parse_simps del: nd_asn1_parse_tlv.simps)
next
  fix oid critical octets q fields cv b f rest
  assume o: "is_tlv ND_ASN1_TAG_OID OID_BASIC_CONSTRAINTS oid" and q: "is_tlv ND_ASN1_TAG_SEQUENCE fields q"
      "is_tlv ND_ASN1_TAG_OCTET_STRING q octets" "is_tlv ND_ASN1_TAG_SEQUENCE (oid @ critical @ octets) e"
    and cr: "is_tlv 1 cv critical" and f: "is_tlv 1 [b] f" "fields = f @ rest" "c = (b \<noteq> 0)"
  then show ?thesis using is_tlv_length [OF f(1)]
    by (intro exI [of _ "oid @ critical @ octets"]) (simp add: scan_extension_def parse_simps del: nd_asn1_parse_tlv.simps)
qed

lemma scan_ext_loop_encoded:
  assumes "list_all2 encodes_extension cas exts"
  shows "scan_ext_loop (concat exts) ca = Inr (ca \<or> True \<in> set cas)"
  using assms
proof (induction cas exts arbitrary: ca rule: list_all2_induct)
  case Nil
  then show ?case by (subst scan_ext_loop.simps) (simp add: parse_simps)
next
  case (Cons c cas e exts)
  obtain v where v: "is_tlv ND_ASN1_TAG_SEQUENCE v e" "\<forall>ca. scan_extension (element ND_ASN1_TAG_SEQUENCE v e) ca = Inr (ca \<or> c)"
    using scan_extension_encoded [OF Cons.hyps(1)] by blast
  then show ?case using Cons.IH is_tlv_length [OF v(1)]
    by (subst scan_ext_loop.simps) (auto simp: nd_asn1_reader_done_def)
qed

lemma parse_options_skip:
  assumes "list_all (\<lambda>u. \<exists>tag v. tag \<noteq> ND_ASN1_TAG_CTX 3 \<and> is_tlv tag v u) ids"
  shows "parse_options (concat ids @ rest) ca = parse_options rest ca"
  using assms
proof (induction ids)
  case (Cons u ids)
  then obtain tag v where u: "tag \<noteq> ND_ASN1_TAG_CTX 3" "is_tlv tag v u" by auto
  then have "parse_options ((u @ concat ids) @ rest) ca = parse_options (concat ids @ rest) ca"
    using is_tlv_length [OF u(2)] by (subst parse_options.simps) (simp add: nd_asn1_reader_done_def)
  then show ?case using Cons by simp
qed simp

lemma parse_options_encoded:
  assumes "encodes_options ca e"
  shows "parse_options e False = Inr ca"
proof -
  have nil: "parse_options [] b = Inr b" for b by (subst parse_options.simps) (simp add: nd_asn1_reader_done_def)
  obtain ids exts cas q f where ids: "list_all (\<lambda>u. \<exists>tag v. tag \<noteq> ND_ASN1_TAG_CTX 3 \<and> is_tlv tag v u) ids"
    and o: "e = concat ids \<and> \<not> ca \<or> list_all2 encodes_extension cas exts \<and> is_tlv ND_ASN1_TAG_SEQUENCE (concat exts) q \<and>
         is_tlv (ND_ASN1_TAG_CTX 3) q f \<and> e = concat ids @ f \<and> ca = (True \<in> set cas)"
    using assms unfolding encodes_options_def by blast
  note skip = parse_options_skip [OF ids]
  from o show ?thesis
  proof (elim disjE conjE)
    assume "e = concat ids" "\<not> ca"
    then show ?thesis using skip [of "[]" False] nil by simp
  next
    assume x: "list_all2 encodes_extension cas exts" and q: "is_tlv ND_ASN1_TAG_SEQUENCE (concat exts) q"
      and f: "is_tlv (ND_ASN1_TAG_CTX 3) q f" and e: "e = concat ids @ f" and ca: "ca = (True \<in> set cas)"
    have "scan_extensions (element (ND_ASN1_TAG_CTX 3) q f) False = Inr ca"
      using q scan_ext_loop_encoded [OF x, of False] ca
      by (simp add: scan_extensions_def parse_simps del: nd_asn1_parse_tlv.simps)
    then have "parse_options f False = Inr ca"
      using f nil is_tlv_length [OF f] by (subst parse_options.simps) (simp add: nd_asn1_reader_done_def)
    then show ?thesis by (simp add: e skip)
  qed
qed

lemma parse_tbs_encoded:
  assumes "encodes_tbs issuer t1 t2 subject qx qy ca e" and "on_curve (int (be_nat qx)) (int (be_nat qy))"
  shows "\<exists>v. is_tlv ND_ASN1_TAG_SEQUENCE v e \<and> parse_tbs (element ND_ASN1_TAG_SEQUENCE v e) =
    Inr (issuer, (of_nat (date_number t1), of_nat (date_number t2)), subject, (qx, qy), ca)"
proof -
  obtain version serial sv alg atag av itag iv validity stag sv' spki options where
    v: "version = [] \<or> (\<exists>vv. is_tlv (ND_ASN1_TAG_CTX 0) vv version)" and s: "is_tlv ND_ASN1_TAG_INTEGER sv serial"
    and n: "is_tlv atag av alg" "is_tlv itag iv issuer" "is_tlv stag sv' subject"
    and p: "encodes_validity t1 t2 validity" "encodes_spki qx qy spki" "encodes_options ca options"
    and e: "is_tlv ND_ASN1_TAG_SEQUENCE (version @ serial @ alg @ issuer @ validity @ subject @ spki @ options) e"
    using assms(1) unfolding encodes_tbs_def by blast
  obtain vtag vv where V: "is_tlv vtag vv validity"
      "parse_validity (element vtag vv validity) = Inr (of_nat (date_number t1), of_nat (date_number t2))"
    using parse_validity_encoded [OF p(1)] by blast
  obtain ktag kv where K: "is_tlv ktag kv spki" "parse_spki (element ktag kv spki) = Inr (qx, qy)"
    using parse_spki_encoded [OF p(2) assms(2)] by blast
  let ?v = "version @ serial @ alg @ issuer @ validity @ subject @ spki @ options"
  have "parse_tbs (element ND_ASN1_TAG_SEQUENCE ?v e) =
      Inr (issuer, (of_nat (date_number t1), of_nat (date_number t2)), subject, (qx, qy), ca)"
    using v
  proof (elim disjE exE)
    assume "version = []"
    then show ?thesis using s n V K parse_options_encoded [OF p(3)] unfolding parse_tbs_def parse_simps by simp
  next
    fix vv assume "is_tlv (ND_ASN1_TAG_CTX 0) vv version"
    then show ?thesis using s n V K parse_options_encoded [OF p(3)] unfolding parse_tbs_def parse_simps by simp
  qed
  then show ?thesis using e by blast
qed

lemma x509_parse_encoded:
  assumes "encodes_tbs issuer t1 t2 subject qx qy ca tbs" and "encodes_cert tbs r s alg sig der"
    and "on_curve (int (be_nat qx)) (int (be_nat qy))"
  shows "nd_x509_parse (Buf (der @ rest)) = Inr \<lparr>tbs_der = Buf tbs, issuer_der = Buf issuer, subject_der = Buf subject,
    not_before = of_nat (date_number t1), not_after = of_nat (date_number t2), pubkey_qx = qx, pubkey_qy = qy, is_ca = ca,
    sig_r = r, sig_s = s\<rparr>"
proof -
  obtain v where T: "is_tlv ND_ASN1_TAG_SEQUENCE v tbs" "parse_tbs (element ND_ASN1_TAG_SEQUENCE v tbs) =
      Inr (issuer, (of_nat (date_number t1), of_nat (date_number t2)), subject, (qx, qy), ca)"
    using parse_tbs_encoded [OF assms(1,3)] by blast
  have c: "encodes_sig_alg alg" "encodes_signature r s sig" "is_tlv ND_ASN1_TAG_SEQUENCE (tbs @ alg @ sig) der"
    using assms(2) by (simp_all add: encodes_cert_def)
  obtain atag av where A: "is_tlv atag av alg" "parse_sig_alg (element atag av alg) = Inr ()"
    using parse_sig_alg_encoded [OF c(1)] by blast
  obtain stag sv where S: "is_tlv stag sv sig" "parse_sig_value (element stag sv sig) = Inr (r, s)"
    using parse_sig_value_encoded [OF c(2)] by blast
  show ?thesis
    using T A S is_tlv_parse [OF c(3), of rest] unfolding nd_x509_parse.simps parse_simps
    by (simp del: nd_asn1_parse_tlv.simps)
qed

section \<open>Properties\<close>

text \<open>C12: what the parser returns is a well-formed certificate: the arrays have their lengths, the public key
  is a point of the curve, and the three slices lie inside the input, issuer and subject inside the signed
  part.\<close>

theorem x509_parse_well_formed:
  assumes "nd_x509_parse (Buf der) = Inr c"
  shows "length (pubkey_qx c) = 32 \<and> length (pubkey_qy c) = 32 \<and> length (sig_r c) = 32 \<and> length (sig_s c) = 32 \<and>
    on_curve (int (be_nat (pubkey_qx c))) (int (be_nat (pubkey_qy c))) \<and>
    (\<exists>tbs issuer subject. tbs_der c = Buf tbs \<and> issuer_der c = Buf issuer \<and> subject_der c = Buf subject \<and>
       sublist tbs der \<and> sublist issuer tbs \<and> sublist subject tbs)"
  using x509_parse_wf [OF assms] by (simp add: cert_wf_def)

text \<open>C11: the parser reads every certificate: for a certificate written with any definite-length encodings,
  with or without version, with other fields and extensions around basicConstraints, \<^verbatim>\<open>nd_x509_parse\<close>
  returns the signed part, issuer, subject, validity, public key, the cA flag and the signature that were
  written, whatever follows in the buffer.\<close>

theorem x509_parse_encodes:
  assumes "encodes_tbs issuer t1 t2 subject qx qy ca tbs" and "encodes_cert tbs r s alg sig der"
    and "on_curve (int (be_nat qx)) (int (be_nat qy))"
  shows "nd_x509_parse (Buf (der @ rest)) = Inr \<lparr>tbs_der = Buf tbs, issuer_der = Buf issuer, subject_der = Buf subject,
    not_before = of_nat (date_number t1), not_after = of_nat (date_number t2), pubkey_qx = qx, pubkey_qy = qy, is_ca = ca,
    sig_r = r, sig_s = s\<rparr>"
  by (rule x509_parse_encoded [OF assms])

text \<open>C10: a chain is accepted exactly when it is valid: the time lies in the validity of every certificate and
  of the anchor, and every certificate names the next one (the last one the anchor) as its issuer, which is a
  certificate authority and whose key verifies its signature. Verification always returns, and every other
  chain is refused with \<^verbatim>\<open>ND_ERR_AUTH_FAILED\<close>.\<close>

theorem x509_verify_chain_iff:
  assumes "\<forall>c \<in> set chain. cert_wf c" and "cert_wf anchor" and "chain \<noteq> []"
  shows "nd_x509_verify_chain uninit (Some chain) (Some anchor) at_time =
    Some (if chain_valid chain anchor at_time then ND_OK else ND_ERR_AUTH_FAILED)"
  by (rule verify_chain_ok [OF assms])

text \<open>A certificate for the base point as public key, for the witnesses.\<close>

definition example_key :: "byte list" where
  "example_key = tlv_short ND_ASN1_TAG_SEQUENCE
     (tlv_short ND_ASN1_TAG_SEQUENCE (tlv_short ND_ASN1_TAG_OID OID_EC_PUBLIC_KEY @ tlv_short ND_ASN1_TAG_OID OID_PRIME256V1) @
      tlv_short ND_ASN1_TAG_BIT_STRING (0 # 4 # bn_to_bytes_be P256_GX @ bn_to_bytes_be P256_GY))"

definition example_name :: "byte list" where
  "example_name = tlv_short ND_ASN1_TAG_SEQUENCE [1, 2, 3]"

definition example_validity :: "byte list" where
  "example_validity = tlv_short ND_ASN1_TAG_SEQUENCE
     (tlv_short ND_ASN1_TAG_UTC_TIME (two 26 @ two 1 @ two 1 @ two 0 @ two 0 @ two 0 @ [0x5A]) @
      tlv_short ND_ASN1_TAG_GENERALIZED_TIME (two 20 @ two 56 @ two 1 @ two 1 @ two 0 @ two 0 @ two 0 @ [0x5A]))"

definition example_options :: "byte list" where
  "example_options = tlv_short (ND_ASN1_TAG_CTX 3) (tlv_short ND_ASN1_TAG_SEQUENCE (tlv_short ND_ASN1_TAG_SEQUENCE
     (tlv_short ND_ASN1_TAG_OID OID_BASIC_CONSTRAINTS @
      tlv_short ND_ASN1_TAG_OCTET_STRING (tlv_short ND_ASN1_TAG_SEQUENCE (tlv_short 1 [0xFF])))))"

definition example_tbs :: "byte list" where
  "example_tbs = tlv_long 1 ND_ASN1_TAG_SEQUENCE
     (tlv_short ND_ASN1_TAG_INTEGER [1] @ tlv_short ND_ASN1_TAG_SEQUENCE [] @ example_name @ example_validity @
      example_name @ example_key @ example_options)"

definition example_alg :: "byte list" where
  "example_alg = tlv_short ND_ASN1_TAG_SEQUENCE (tlv_short ND_ASN1_TAG_OID OID_ECDSA_WITH_SHA256)"

definition example_sig :: "byte list" where
  "example_sig = tlv_short ND_ASN1_TAG_BIT_STRING (0 # tlv_short ND_ASN1_TAG_SEQUENCE
     (der_encode_uint32 (replicate 32 1) @ der_encode_uint32 (replicate 32 2)))"

definition example_der :: "byte list" where
  "example_der = tlv_long 2 ND_ASN1_TAG_SEQUENCE (example_tbs @ example_alg @ example_sig)"

definition example_cert :: nd_x509_cert where
  "example_cert = \<lparr>tbs_der = Buf example_tbs, issuer_der = Buf example_name, subject_der = Buf example_name,
     not_before = 20260101000000, not_after = 20560101000000, pubkey_qx = bn_to_bytes_be P256_GX,
     pubkey_qy = bn_to_bytes_be P256_GY, is_ca = True, sig_r = replicate 32 1, sig_s = replicate 32 2\<rparr>"

lemma length_tlv: "length (tlv_short tag v) = 2 + length v" "length (tlv_long k tag v) = 2 + k + length v"
  by (simp_all add: tlv_short_def tlv_long_def)

lemma is_tlv_long: "tag AND 0x1F \<noteq> 0x1F \<Longrightarrow> 1 \<le> k \<Longrightarrow> k \<le> 8 \<Longrightarrow> length v < 256 ^ k \<Longrightarrow> length v < 2 ^ 60 \<Longrightarrow> is_tlv tag v (tlv_long k tag v)"
  by (auto simp: is_tlv_def)

lemma length_coordinates: "length (bn_to_bytes_be P256_GX) = 32" "length (bn_to_bytes_be P256_GY) = 32"
  using bn_to_bytes_be_ok(1) length_params by blast+

lemmas example_lengths = length_tlv length_coordinates OID_EC_PUBLIC_KEY_def OID_PRIME256V1_def OID_ECDSA_WITH_SHA256_def
  OID_BASIC_CONSTRAINTS_def two_def

lemma example_spki: "encodes_spki (bn_to_bytes_be P256_GX) (bn_to_bytes_be P256_GY) example_key"
  unfolding encodes_spki_def example_key_def
  by (intro conjI length_coordinates exI [of _ ND_ASN1_TAG_SEQUENCE] exI [of _ "[]"]
      exI [of _ "tlv_short ND_ASN1_TAG_SEQUENCE (tlv_short ND_ASN1_TAG_OID OID_EC_PUBLIC_KEY @ tlv_short ND_ASN1_TAG_OID OID_PRIME256V1)"]
      exI [of _ "tlv_short ND_ASN1_TAG_OID OID_EC_PUBLIC_KEY"] exI [of _ "tlv_short ND_ASN1_TAG_OID OID_PRIME256V1"]
      exI [of _ "tlv_short ND_ASN1_TAG_BIT_STRING (0 # 4 # bn_to_bytes_be P256_GX @ bn_to_bytes_be P256_GY)"])
    (simp_all add: example_lengths is_tlv_short)

lemma example_times: "encodes_validity (2026, 1, 1, 0, 0, 0) (2056, 1, 1, 0, 0, 0) example_validity"
  unfolding encodes_validity_def example_validity_def encodes_time_def prod.case
  by (intro exI [of _ ND_ASN1_TAG_SEQUENCE]
      exI [of _ "tlv_short ND_ASN1_TAG_UTC_TIME (two 26 @ two 1 @ two 1 @ two 0 @ two 0 @ two 0 @ [0x5A])"]
      exI [of _ "tlv_short ND_ASN1_TAG_GENERALIZED_TIME (two 20 @ two 56 @ two 1 @ two 1 @ two 0 @ two 0 @ two 0 @ [0x5A])"])
    (simp add: is_tlv_short example_lengths)

lemma example_opts: "encodes_options True example_options"
proof -
  have f: "\<exists>b f rest. is_tlv 1 [b] f \<and> tlv_short 1 [0xFF] = f @ rest \<and> True = (b \<noteq> 0)"
    by (rule exI [of _ "0xFF"], rule exI [of _ "tlv_short 1 [0xFF]"], rule exI [of _ "[]"]) (simp add: is_tlv_short)
  have x: "encodes_extension True (tlv_short ND_ASN1_TAG_SEQUENCE (tlv_short ND_ASN1_TAG_OID OID_BASIC_CONSTRAINTS @
      tlv_short ND_ASN1_TAG_OCTET_STRING (tlv_short ND_ASN1_TAG_SEQUENCE (tlv_short 1 [0xFF]))))"
    unfolding encodes_extension_def
    by (rule disjI2, rule exI [of _ "tlv_short ND_ASN1_TAG_OID OID_BASIC_CONSTRAINTS"], rule exI [of _ "[]"],
        rule exI [of _ "tlv_short ND_ASN1_TAG_OCTET_STRING (tlv_short ND_ASN1_TAG_SEQUENCE (tlv_short 1 [0xFF]))"],
        rule exI [of _ "tlv_short ND_ASN1_TAG_SEQUENCE (tlv_short 1 [0xFF])"], rule exI [of _ "tlv_short 1 [0xFF]"])
      (use f in \<open>simp add: is_tlv_short example_lengths\<close>)
  let ?x = "tlv_short ND_ASN1_TAG_SEQUENCE (tlv_short ND_ASN1_TAG_OID OID_BASIC_CONSTRAINTS @
      tlv_short ND_ASN1_TAG_OCTET_STRING (tlv_short ND_ASN1_TAG_SEQUENCE (tlv_short 1 [0xFF])))"
  have q: "is_tlv ND_ASN1_TAG_SEQUENCE (concat [?x]) (tlv_short ND_ASN1_TAG_SEQUENCE ?x)" "is_tlv (ND_ASN1_TAG_CTX 3) (tlv_short ND_ASN1_TAG_SEQUENCE ?x) example_options"
    by (simp_all add: is_tlv_short example_lengths example_options_def)
  show ?thesis
    unfolding encodes_options_def
    by (rule exI [of _ "[]"], rule exI [of _ "[?x]"], rule exI [of _ "[True]"],
        rule exI [of _ "tlv_short ND_ASN1_TAG_SEQUENCE ?x"], rule exI [of _ example_options]) (use x q in simp)
qed

lemma example_encodes:
  "encodes_tbs example_name (2026, 1, 1, 0, 0, 0) (2056, 1, 1, 0, 0, 0) example_name (bn_to_bytes_be P256_GX) (bn_to_bytes_be P256_GY) True example_tbs"
  "encodes_cert example_tbs (replicate 32 1) (replicate 32 2) example_alg example_sig example_der"
proof -
  have l: "length example_name = 5" "length example_validity = 34" "length example_key = 91" "length example_options = 18"
    by (simp_all add: example_name_def example_validity_def example_key_def example_options_def example_lengths)
  have n: "is_tlv ND_ASN1_TAG_SEQUENCE [1, 2, 3] example_name" by (simp add: example_name_def is_tlv_short)
  show "encodes_tbs example_name (2026, 1, 1, 0, 0, 0) (2056, 1, 1, 0, 0, 0) example_name (bn_to_bytes_be P256_GX) (bn_to_bytes_be P256_GY) True example_tbs"
    unfolding encodes_tbs_def example_tbs_def
    by (rule exI [of _ "[]"], rule exI [of _ "tlv_short ND_ASN1_TAG_INTEGER [1]"], rule exI [of _ "[1]"],
        rule exI [of _ "tlv_short ND_ASN1_TAG_SEQUENCE []"], rule exI [of _ ND_ASN1_TAG_SEQUENCE], rule exI [of _ "[]"],
        rule exI [of _ ND_ASN1_TAG_SEQUENCE], rule exI [of _ "[1, 2, 3]"], rule exI [of _ example_validity],
        rule exI [of _ ND_ASN1_TAG_SEQUENCE], rule exI [of _ "[1, 2, 3]"], rule exI [of _ example_key], rule exI [of _ example_options])
      (simp add: l is_tlv_short is_tlv_long length_tlv example_times [simplified] example_spki example_opts n)
  have t: "length example_tbs = 161" by (simp add: example_tbs_def length_tlv l)
  have s: "length (der_encode_uint32 (replicate 32 x)) \<le> 35" for x
    using der_encode_uint32_tlv [of "replicate 32 x"] by (simp add: length_tlv)
  have "is_tlv ND_ASN1_TAG_SEQUENCE (der_encode_uint32 (replicate 32 1) @ der_encode_uint32 (replicate 32 2))
      (tlv_short ND_ASN1_TAG_SEQUENCE (der_encode_uint32 (replicate 32 1) @ der_encode_uint32 (replicate 32 2)))"
    using s [of 1] s [of 2] by (simp add: is_tlv_short)
  moreover have "is_tlv ND_ASN1_TAG_BIT_STRING (0 # tlv_short ND_ASN1_TAG_SEQUENCE (der_encode_uint32 (replicate 32 1) @ der_encode_uint32 (replicate 32 2))) example_sig"
    using s [of 1] s [of 2] unfolding example_sig_def by (simp add: is_tlv_short length_tlv)
  ultimately have sig: "encodes_signature (replicate 32 1) (replicate 32 2) example_sig"
    unfolding encodes_signature_def by (simp only: length_replicate simp_thms) blast
  have "length example_sig \<le> 75" using s [of 1] s [of 2] by (simp add: example_sig_def length_tlv)
  then have "is_tlv ND_ASN1_TAG_SEQUENCE (example_tbs @ example_alg @ example_sig) example_der"
    unfolding example_der_def using t by (intro is_tlv_long) (simp_all add: example_alg_def example_lengths)
  moreover have "encodes_sig_alg example_alg"
    unfolding encodes_sig_alg_def example_alg_def
    by (intro exI [of _ ND_ASN1_TAG_SEQUENCE] exI [of _ "tlv_short ND_ASN1_TAG_OID OID_ECDSA_WITH_SHA256"] exI [of _ "[]"])
      (simp add: is_tlv_short example_lengths)
  ultimately show "encodes_cert example_tbs (replicate 32 1) (replicate 32 2) example_alg example_sig example_der"
    using sig by (simp add: encodes_cert_def)
qed

lemma example_on_curve: "on_curve (int (be_nat (bn_to_bytes_be P256_GX))) (int (be_nat (bn_to_bytes_be P256_GY)))"
  using base_on_curve(2) bn_to_bytes_be_ok(2) length_params by simp

lemma example_parsed: "nd_x509_parse (Buf example_der) = Inr example_cert"
  using x509_parse_encoded [OF example_encodes example_on_curve, of "[]"]
  by (simp add: example_cert_def date_number_def)

theorem x509_parse_well_formed_witness:
  "\<exists>c. nd_x509_parse (Buf example_der) = Inr c \<and> length (pubkey_qx c) = 32 \<and>
     (\<exists>tbs issuer subject. tbs_der c = Buf tbs \<and> issuer_der c = Buf issuer \<and> subject_der c = Buf subject \<and>
       sublist tbs example_der \<and> sublist issuer tbs \<and> sublist subject tbs)"
  using x509_parse_well_formed [OF example_parsed] example_parsed by blast

theorem x509_parse_encodes_witness:
  "nd_x509_parse (Buf (example_der @ [1, 2, 3])) = Inr example_cert"
  using x509_parse_encodes [OF example_encodes example_on_curve, of "[1, 2, 3]"]
  by (simp add: example_cert_def date_number_def del: nd_x509_parse.simps)

theorem x509_verify_chain_iff_witness:
  "nd_x509_verify_chain \<lparr>pt_x = [], pt_y = [], pt_z = [], infinity = False\<rparr> (Some [example_cert]) (Some example_cert) 20570101000000 =
     Some ND_ERR_AUTH_FAILED"
proof -
  have "cert_wf example_cert" using x509_parse_wf [OF example_parsed] by blast
  moreover have "\<not> chain_valid [example_cert] example_cert 20570101000000" by (simp add: chain_valid_def example_cert_def)
  ultimately show ?thesis by (simp add: x509_verify_chain_iff del: nd_x509_verify_chain.simps)
qed

end
