(* ===== verification/Messages.thy ===== *)
theory Messages
  imports Bytes_IO Hkdf X509
begin

text \<open>
  EncryptedExtensions, Certificate and CertificateVerify: \<^verbatim>\<open>src/handshake/messages.c\<close> and
  \<^verbatim>\<open>include/nanodtls/messages.h\<close>. The certificates of a message are the list of the views the code
  keeps in \<^verbatim>\<open>cert_der[0 .. cert_count)\<close>. Shown: the Certificate parser on every well-formed message,
  the round trip with the serializer, and that a CertificateVerify message is accepted exactly when its
  signature satisfies the ECDSA equation for the hash of the signed content.
\<close>

unbundle bit_operations_syntax

abbreviation (input) ND_CERTIFICATE_MSG_MAX_CERTS :: nat where "ND_CERTIFICATE_MSG_MAX_CERTS \<equiv> 4"
abbreviation (input) ND_SIGSCHEME_ECDSA_SECP256R1_SHA256 :: u16 where "ND_SIGSCHEME_ECDSA_SECP256R1_SHA256 \<equiv> 0x0403"
abbreviation (input) ND_CERT_VERIFY_CONTENT_MAX :: nat where "ND_CERT_VERIFY_CONTENT_MAX \<equiv> 64 + 34 + 1 + 32"

definition ND_CERT_VERIFY_CONTEXT_SERVER :: "byte list" where
  "ND_CERT_VERIFY_CONTEXT_SERVER = cstr ''TLS 1.3, server CertificateVerify''"

definition ND_CERT_VERIFY_CONTEXT_CLIENT :: "byte list" where
  "ND_CERT_VERIFY_CONTEXT_CLIENT = cstr ''TLS 1.3, client CertificateVerify''"

record nd_certificate_msg =
  cert_der :: "byte list list"

record nd_certificate_verify_msg =
  cv_algorithm :: u16
  cv_signature :: cbuf

section \<open>EncryptedExtensions\<close>

definition nd_encrypted_extensions_serialize :: "nat \<Rightarrow> byte list result" where
  "nd_encrypted_extensions_serialize out_buf_cap = (if out_buf_cap < 2 then Inl ND_ERR_BAD_LENGTH else Inr [0, 0])"

fun nd_encrypted_extensions_parse :: "cbuf \<Rightarrow> unit result" where
  "nd_encrypted_extensions_parse (NULL_buf n) = Inl ND_ERR_BAD_ARG"
| "nd_encrypted_extensions_parse (Buf buf) =
     then_ok (or_fail ND_ERR_TRUNCATED (r_u16 buf)) (\<lambda>(ext_len, r).
     then_ok (or_fail ND_ERR_BAD_LENGTH (r_skip r (unat ext_len))) (\<lambda>r.
     if r \<noteq> [] then Inl ND_ERR_BAD_LENGTH else Inr ()))"

section \<open>Certificate\<close>

text \<open>The body of the loop of \<^verbatim>\<open>nd_certificate_serialize\<close> for one certificate.\<close>

definition w_cert_entry :: "byte list \<Rightarrow> writer \<Rightarrow> writer" where
  "w_cert_entry der = w_seq [w_vec24 [w_bytes der], w_vec16 []]"

fun nd_certificate_serialize :: "nd_certificate_msg ptr \<Rightarrow> nat \<Rightarrow> byte list result" where
  "nd_certificate_serialize None out_buf_cap = Inl ND_ERR_BAD_ARG"
| "nd_certificate_serialize (Some msg) out_buf_cap =
     (if length (cert_der msg) = 0 \<or> length (cert_der msg) > ND_CERTIFICATE_MSG_MAX_CERTS then Inl ND_ERR_BAD_ARG
      else w_finish (w_seq [w_u8 0x00, w_vec24 (map w_cert_entry (cert_der msg))] (w_init out_buf_cap)))"

text \<open>The loop of \<^verbatim>\<open>nd_certificate_parse\<close>, with the certificates found so far.\<close>

function parse_cert_entries :: "reader \<Rightarrow> byte list list \<Rightarrow> byte list list result" where
  "parse_cert_entries lr certs =
     (if lr = [] then Inr certs
      else if length certs \<ge> ND_CERTIFICATE_MSG_MAX_CERTS then Inl ND_ERR_UNSUPPORTED
      else case r_u24 lr of None \<Rightarrow> Inl ND_ERR_TRUNCATED | Some (cert_len, lr1) \<Rightarrow>
        (case r_view lr1 (unat cert_len) of None \<Rightarrow> Inl ND_ERR_BAD_LENGTH | Some (cert_data, lr2) \<Rightarrow>
        (case r_u16 lr2 of None \<Rightarrow> Inl ND_ERR_TRUNCATED | Some (ext_len, lr3) \<Rightarrow>
        (case r_skip lr3 (unat ext_len) of None \<Rightarrow> Inl ND_ERR_BAD_LENGTH | Some lr4 \<Rightarrow>
          parse_cert_entries lr4 (certs @ [cert_data])))))"
  by pat_completeness auto

termination
  by (relation "measure (\<lambda>(lr, certs). length lr)") (auto dest!: reader_shorter)

declare parse_cert_entries.simps [simp del]

fun nd_certificate_parse :: "cbuf \<Rightarrow> nd_certificate_msg result" where
  "nd_certificate_parse (NULL_buf n) = Inl ND_ERR_BAD_ARG"
| "nd_certificate_parse (Buf buf) =
     then_ok (or_fail ND_ERR_TRUNCATED (r_u8 buf)) (\<lambda>(ctx_len, r).
     then_ok (or_fail ND_ERR_BAD_LENGTH (r_skip r (unat ctx_len))) (\<lambda>r.
     then_ok (or_fail ND_ERR_TRUNCATED (r_u24 r)) (\<lambda>(list_len, r).
     then_ok (or_fail ND_ERR_BAD_LENGTH (r_view r (unat list_len))) (\<lambda>(list_data, r).
     then_ok (parse_cert_entries list_data []) (\<lambda>certs.
     if length certs = 0 then Inl ND_ERR_BAD_ARG else Inr \<lparr>cert_der = certs\<rparr>)))))"

section \<open>CertificateVerify\<close>

fun nd_certificate_verify_parse :: "cbuf \<Rightarrow> nd_certificate_verify_msg result" where
  "nd_certificate_verify_parse (NULL_buf n) = Inl ND_ERR_BAD_ARG"
| "nd_certificate_verify_parse (Buf buf) =
     then_ok (or_fail ND_ERR_TRUNCATED (r_u16 buf)) (\<lambda>(algorithm, r).
     then_ok (or_fail ND_ERR_TRUNCATED (r_u16 r)) (\<lambda>(sig_len, r).
     then_ok (or_fail ND_ERR_BAD_LENGTH (r_view r (unat sig_len))) (\<lambda>(sig, r).
     if r \<noteq> [] then Inl ND_ERR_BAD_LENGTH
     else Inr \<lparr>cv_algorithm = algorithm, cv_signature = Buf sig\<rparr>)))"

fun nd_certificate_verify_content :: "byte list ptr \<Rightarrow> byte list ptr \<Rightarrow> nat \<Rightarrow> byte list result" where
  "nd_certificate_verify_content (Some context_string) (Some transcript_hash) out_buf_cap =
     (let ctx_len = length context_string;
          total = 64 + ctx_len + 1 + ND_HASH_LEN
      in if total > out_buf_cap then Inl ND_ERR_BAD_LENGTH
         else Inr (replicate 64 0x20 @ context_string @ [0x00] @ take ND_HASH_LEN transcript_hash))"
| "nd_certificate_verify_content context_string transcript_hash out_buf_cap = Inl ND_ERR_BAD_ARG"

text \<open>The two scalars of the DER signature.\<close>

definition read_sig_value :: "cbuf \<Rightarrow> (byte list \<times> byte list) result" where
  "read_sig_value signature =
     then_ok (nd_asn1_parse_tlv signature) (\<lambda>seq_tlv.
     if tlv_tag seq_tlv \<noteq> ND_ASN1_TAG_SEQUENCE then Inl ND_ERR_BAD_ARG
     else
       let sr = nd_asn1_reader_init (tlv_value seq_tlv) in
       then_ok (nd_asn1_reader_next sr) (\<lambda>(r_tlv, sr).
       then_ok (nd_asn1_reader_next sr) (\<lambda>(s_tlv, sr).
       then_ok (nd_asn1_read_uint_fixed (Some r_tlv) ND_P256_SCALAR_LEN) (\<lambda>r.
       then_ok (nd_asn1_read_uint_fixed (Some s_tlv) ND_P256_SCALAR_LEN) (\<lambda>s.
         Inr (r, s))))))"

fun nd_certificate_verify_check ::
  "ec_point \<Rightarrow> nd_certificate_verify_msg ptr \<Rightarrow> byte list ptr \<Rightarrow> byte list ptr \<Rightarrow> byte list ptr \<Rightarrow> byte list ptr \<Rightarrow> nd_status option" where
  "nd_certificate_verify_check uninit (Some msg) (Some context_string) (Some transcript_hash) (Some peer_qx) (Some peer_qy) =
     (if cv_algorithm msg \<noteq> ND_SIGSCHEME_ECDSA_SECP256R1_SHA256 then Some ND_ERR_UNSUPPORTED
      else case nd_certificate_verify_content (Some context_string) (Some transcript_hash) ND_CERT_VERIFY_CONTENT_MAX of
        Inl st \<Rightarrow> Some st
      | Inr content \<Rightarrow>
          let hash = nd_sha256 content in
          (case read_sig_value (cv_signature msg) of
             Inl st \<Rightarrow> Some st
           | Inr (r, s) \<Rightarrow> nd_p256_ecdsa_verify uninit (Some peer_qx) (Some peer_qy) (Some hash) (Some r) (Some s)))"
| "nd_certificate_verify_check uninit msg context_string transcript_hash peer_qx peer_qy = Some ND_ERR_BAD_ARG"

section \<open>Wire formats\<close>

definition cert_entry :: "byte list \<times> byte list \<Rightarrow> byte list" where
  "cert_entry e = put_be24 (of_nat (length (fst e))) @ fst e @ put_be16 (of_nat (length (snd e))) @ snd e"

definition cert_list :: "(byte list \<times> byte list) list \<Rightarrow> byte list" where
  "cert_list es = concat (map cert_entry es)"

definition cert_wire :: "byte list \<Rightarrow> (byte list \<times> byte list) list \<Rightarrow> byte list" where
  "cert_wire ctx es = of_nat (length ctx) # ctx @ put_be24 (of_nat (length (cert_list es))) @ cert_list es"

definition cv_signed :: "byte list \<Rightarrow> byte list \<Rightarrow> byte list" where
  "cv_signed context_string th = replicate 64 0x20 @ context_string @ [0] @ th"

lemma cert_list_simps [simp]: "cert_list [] = []" "cert_list (e # es) = cert_entry e @ cert_list es"
  by (simp_all add: cert_list_def)

lemma unat_of_nat24: "n < 2 ^ 24 \<Longrightarrow> unat (take_bit 24 (of_nat n :: u32)) = n"
  by (simp add: unsigned_take_bit_eq unat_of_nat take_bit_nat_eq_self)

lemma length_cert_entry: "length (cert_entry e) = 5 + length (fst e) + length (snd e)"
  by (simp add: cert_entry_def)

section \<open>Certificate\<close>

lemma parse_cert_entries_wire:
  "length (cert_list es) < 2 ^ 24 \<Longrightarrow> \<forall>e \<in> set es. length (snd e) < 2 ^ 16 \<Longrightarrow> length certs \<le> 4 \<Longrightarrow>
   parse_cert_entries (cert_list es) certs =
     (if length certs + length es > 4 then Inl ND_ERR_UNSUPPORTED else Inr (certs @ map fst es))"
proof (induction es arbitrary: certs)
  case (Cons e es)
  have f: "length (fst e) < 2 ^ 24" "length (snd e) < 2 ^ 16"
    using Cons.prems by (simp_all add: length_cert_entry)
  have ne: "cert_entry e @ cert_list es \<noteq> []" by (simp add: cert_entry_def put_be24_def)
  show ?case
  proof (cases "length certs = 4")
    case True
    then show ?thesis using ne by (simp add: parse_cert_entries.simps [of "cert_entry e @ cert_list es"])
  next
    case False
    have "parse_cert_entries (cert_list (e # es)) certs = parse_cert_entries (cert_list es) (certs @ [fst e])"
      using False Cons.prems ne f
      by (simp add: parse_cert_entries.simps [of "cert_entry e @ cert_list es"] del: append_is_Nil_conv)
        (simp add: cert_entry_def reads unat_of_nat24 unat_of_nat)
    then show ?thesis using Cons False by simp
  qed
qed (simp add: parse_cert_entries.simps)

lemma cert_parse_wire:
  assumes "length ctx < 2 ^ 8" and "length (cert_list es) < 2 ^ 24" and "\<forall>e \<in> set es. length (snd e) < 2 ^ 16"
  shows "nd_certificate_parse (Buf (cert_wire ctx es @ rest)) =
    (if es = [] then Inl ND_ERR_BAD_ARG else if length es > 4 then Inl ND_ERR_UNSUPPORTED else Inr \<lparr>cert_der = map fst es\<rparr>)"
  using parse_cert_entries_wire [OF assms(2,3), of "[]"] assms(1,2)
  by (auto simp: cert_wire_def reads unat_of_nat unat_of_nat24)

lemma emits_cert_entries: "emits (w_seq (map w_cert_entry ders)) (cert_list (map (\<lambda>d. (d, [])) ders))"
proof (induction ders)
  case (Cons d ds)
  have "emits (w_seq [w_bytes d]) (d @ [])" by (intro emits_intros)
  note entry = emits_seq [OF emits_vec24 [OF this] emits_seq [OF emits_vec16 [OF emits_nil] emits_nil]]
  have "emits (w_cert_entry d) (cert_entry (d, []))"
    using entry by (simp add: w_cert_entry_def cert_entry_def)
  with Cons show ?case unfolding list.map cert_list_simps by (intro emits_seq)
qed (simp add: emits_def)

lemma cert_serialize_wire:
  "nd_certificate_serialize (Some msg) cap =
     (if cert_der msg = [] \<or> length (cert_der msg) > 4 then Inl ND_ERR_BAD_ARG
      else if cap < length (cert_wire [] (map (\<lambda>d. (d, [])) (cert_der msg))) then Inl ND_ERR_BAD_LENGTH
      else Inr (cert_wire [] (map (\<lambda>d. (d, [])) (cert_der msg))))"
proof -
  let ?b = "cert_list (map (\<lambda>d. (d, [])) (cert_der msg))"
  have "emits (w_seq [w_u8 0x00, w_vec24 (map w_cert_entry (cert_der msg))]) ([0] @ (put_be24 (of_nat (length ?b)) @ ?b) @ [])"
    by (intro emits_intros emits_cert_entries)
  from emits_finish [OF this, of cap] show ?thesis by (auto simp: cert_wire_def)
qed

lemma cert_round_trip:
  assumes "cap < 2 ^ 24" and "nd_certificate_serialize (Some msg) cap = Inr out"
  shows "nd_certificate_parse (Buf out) = Inr msg"
proof -
  let ?es = "map (\<lambda>d. (d, [])) (cert_der msg)"
  have o1: "out = cert_wire [] ?es" "length out \<le> cap" and n: "cert_der msg \<noteq> []" "length (cert_der msg) \<le> 4"
    using assms(2) unfolding cert_serialize_wire by (auto split: if_splits)
  have "length (cert_list ?es) < 2 ^ 24" using o1 assms(1) by (simp add: cert_wire_def)
  from cert_parse_wire [OF _ this, of "[]" "[]"] n show ?thesis by (simp add: o1 comp_def)
qed

section \<open>EncryptedExtensions and CertificateVerify\<close>

lemma encrypted_extensions_iff:
  "nd_encrypted_extensions_parse (Buf buf) = Inr () \<longleftrightarrow> (\<exists>n e. buf = put_be16 n @ e \<and> length e = unat n)"
proof (cases "length buf < 2")
  case True
  then show ?thesis by (auto simp: r_u16_def r_bytes_def)
next
  case False
  then obtain a b r where buf: "buf = a # b # r" by (metis One_nat_def Suc_1 length_Cons less_Suc0 list.exhaust list.size(3) not_less_eq zero_less_Suc)
  have "buf = put_be16 n @ e \<longleftrightarrow> n = be16 a b \<and> e = r" for n e
  proof
    assume "buf = put_be16 n @ e"
    then have "[a, b] = put_be16 n \<and> r = e" by (simp add: buf put_be16_def)
    then show "n = be16 a b \<and> e = r" by (auto simp: put_be16_def be16_put)
  qed (simp add: buf put_be_be)
  then show ?thesis by (auto simp: buf r_u16_def r_bytes_def r_skip_def)
qed

lemma certificate_verify_parse_wire:
  assumes "length sig \<le> 0xFFFF"
  shows "nd_certificate_verify_parse (Buf (put_be16 alg @ put_be16 (of_nat (length sig)) @ sig)) =
    Inr \<lparr>cv_algorithm = alg, cv_signature = Buf sig\<rparr>"
  using assms r_view_append [of "length sig" sig "[]"] by (simp add: reads unat_of_nat16)

lemma read_sig_value_written:
  assumes "length r = 32" and "length s = 32" and "72 \<le> cap" and "nd_asn1_write_ecdsa_sig_value (Some r) (Some s) cap = Inr out"
  shows "read_sig_value (Buf out) = Inr (r, s)" and "length out \<le> 72"
proof -
  obtain seq rt st rest where "length out \<le> 72" "nd_asn1_parse_tlv (Buf out) = Inr seq" "tlv_tag seq = ND_ASN1_TAG_SEQUENCE"
      "nd_asn1_reader_next (tlv_value seq) = Inr (rt, rest)" "nd_asn1_reader_next rest = Inr (st, [])"
      "nd_asn1_read_uint_fixed (Some rt) 32 = Inr r" "nd_asn1_read_uint_fixed (Some st) 32 = Inr s"
    using ecdsa_sig_value_ok [OF assms(1-3)] unfolding assms(4) by auto
  then show "read_sig_value (Buf out) = Inr (r, s)" "length out \<le> 72"
    by (simp_all add: read_sig_value_def nd_asn1_reader_init_def del: nd_asn1_parse_tlv.simps nd_asn1_read_uint_fixed.simps)
qed

lemma read_sig_value_length: "read_sig_value sig = Inr (r, s) \<Longrightarrow> length r = 32 \<and> length s = 32"
  unfolding read_sig_value_def
  by (auto simp: then_ok_eq_Inr Let_def dest!: read_uint_length simp del: nd_asn1_read_uint_fixed.simps split: if_splits)

text \<open>What the client concludes from a CertificateVerify message.\<close>

definition cv_verdict :: "nd_certificate_verify_msg \<Rightarrow> byte list \<Rightarrow> byte list \<Rightarrow> byte list \<Rightarrow> byte list \<Rightarrow> nd_status" where
  "cv_verdict msg context_string th qx qy =
     (if cv_algorithm msg \<noteq> 0x0403 then ND_ERR_UNSUPPORTED
      else case read_sig_value (cv_signature msg) of
        Inl st \<Rightarrow> st
      | Inr (r, s) \<Rightarrow>
          if ecdsa_valid (int (be_nat qx)) (int (be_nat qy)) (int (be_nat (sha256_hash (cv_signed context_string th))))
               (int (be_nat r)) (int (be_nat s))
          then ND_OK else ND_ERR_AUTH_FAILED)"

lemma cv_check_ok:
  assumes "length th = 32" and "length context_string \<le> 34" and "length qx = 32" and "length qy = 32"
  shows "nd_certificate_verify_check uninit (Some msg) (Some context_string) (Some th) (Some qx) (Some qy) =
    Some (cv_verdict msg context_string th qx qy)"
proof (cases "read_sig_value (cv_signature msg)")
  case (Inl e)
  then show ?thesis using assms by (simp add: cv_verdict_def Let_def)
next
  case (Inr rs)
  then obtain r s where rs: "read_sig_value (cv_signature msg) = Inr (r, s)" by (cases rs) simp
  note l = read_sig_value_length [OF rs]
  show ?thesis using assms l rs ecdsa_verify_ok [OF assms(3,4), of "sha256_hash (cv_signed context_string th)" r s uninit]
    by (simp add: cv_verdict_def Let_def nd_sha256_eq cv_signed_def del: nd_p256_ecdsa_verify.simps)
qed

section \<open>Properties\<close>

text \<open>C14: on every well-formed Certificate message, with any request context, any extensions of the entries
  and any bytes behind the list, the parser returns the certificates in their order; an empty list is a bad
  argument and more than four certificates are unsupported.\<close>

theorem certificate_parse_correct:
  assumes "length ctx < 2 ^ 8" and "length (cert_list es) < 2 ^ 24" and "\<forall>e \<in> set es. length (snd e) < 2 ^ 16"
  shows "nd_certificate_parse (Buf (cert_wire ctx es @ rest)) =
    (if es = [] then Inl ND_ERR_BAD_ARG else if length es > 4 then Inl ND_ERR_UNSUPPORTED else Inr \<lparr>cert_der = map fst es\<rparr>)"
  by (rule cert_parse_wire [OF assms])

theorem certificate_parse_correct_witness:
  "nd_certificate_parse (Buf [1, 9, 0, 0, 15, 0, 0, 2, 7, 8, 0, 1, 5, 0, 0, 1, 3, 0, 1, 6, 255]) = Inr \<lparr>cert_der = [[7, 8], [3]]\<rparr>"
  using certificate_parse_correct [of "[9]" "[([7, 8], [5]), ([3], [6])]" "[255]"]
  by (simp add: cert_wire_def cert_list_def cert_entry_def put_be24_def put_be16_def del: nd_certificate_parse.simps)

text \<open>What the serializer writes into a buffer of less than \<open>2\<^sup>2\<^sup>4\<close> bytes, the parser reads back.\<close>

theorem certificate_round_trip:
  assumes "cap < 2 ^ 24" and "nd_certificate_serialize (Some msg) cap = Inr out"
  shows "nd_certificate_parse (Buf out) = Inr msg"
  by (rule cert_round_trip [OF assms])

theorem certificate_round_trip_witness:
  "nd_certificate_parse (Buf [0, 0, 0, 7, 0, 0, 2, 7, 8, 0, 0]) = Inr \<lparr>cert_der = [[7, 8]]\<rparr>"
proof -
  have "nd_certificate_serialize (Some \<lparr>cert_der = [[7, 8]]\<rparr>) 20 = Inr [0, 0, 0, 7, 0, 0, 2, 7, 8, 0, 0]"
    by (simp add: w_finish_def w_init_def w_u8_def w_vec24_def w_vec16_def w_cert_entry_def w_reserve_u24_len_def
        w_reserve_u16_len_def w_u16_def w_patch_u24_len_def w_patch_u16_len_def w_bytes_def Let_def)
  then show ?thesis by (rule certificate_round_trip [rotated]) simp
qed

text \<open>C13: the check of a CertificateVerify message always returns. It accepts exactly the signatures over the
  64 spaces, the context string, the zero byte and the transcript hash that satisfy the ECDSA equation under
  the peer's key; a signature that does not is an authentication failure, another algorithm is unsupported.\<close>

theorem certificate_verify_check_correct:
  assumes "length th = 32" and "length context_string \<le> 34" and "length qx = 32" and "length qy = 32"
  shows "nd_certificate_verify_check uninit (Some msg) (Some context_string) (Some th) (Some qx) (Some qy) =
    Some (if cv_algorithm msg \<noteq> 0x0403 then ND_ERR_UNSUPPORTED
      else case read_sig_value (cv_signature msg) of
        Inl st \<Rightarrow> st
      | Inr (r, s) \<Rightarrow>
          if ecdsa_valid (int (be_nat qx)) (int (be_nat qy)) (int (be_nat (sha256_hash (cv_signed context_string th))))
               (int (be_nat r)) (int (be_nat s))
          then ND_OK else ND_ERR_AUTH_FAILED)"
  using cv_check_ok [OF assms] unfolding cv_verdict_def .

theorem certificate_verify_check_correct_witness:
  "nd_certificate_verify_check \<lparr>pt_x = [], pt_y = [], pt_z = [], infinity = False\<rparr> (Some \<lparr>cv_algorithm = 0x0403, cv_signature = Buf [0x30, 6, 2, 1, 0, 2, 1, 1]\<rparr>)
     (Some ND_CERT_VERIFY_CONTEXT_SERVER) (Some (replicate 32 0)) (Some (bn_to_bytes_be P256_GX)) (Some (bn_to_bytes_be P256_GY)) =
   Some ND_ERR_AUTH_FAILED"
proof -
  have "be_nat (replicate 31 0 @ [0]) = 0" by (simp add: be_nat_append be_nat_Cons be_nat_def)
  moreover have "read_sig_value (Buf [0x30, 6, 2, 1, 0, 2, 1, 1]) = Inr (replicate 31 0 @ [0], replicate 31 0 @ [1])"
    by (simp add: read_sig_value_def nd_asn1_reader_init_def nd_asn1_reader_next_def parse_length_def slice_of_def Let_def)
  ultimately show ?thesis
    using certificate_verify_check_correct [of "replicate 32 0" ND_CERT_VERIFY_CONTEXT_SERVER "bn_to_bytes_be P256_GX" "bn_to_bytes_be P256_GY"]
    by (simp add: length_coordinates ND_CERT_VERIFY_CONTEXT_SERVER_def cstr_def ecdsa_valid_def del: nd_certificate_verify_check.simps)
qed

end
