(* ===== verification/Spec2Isabelle.thy ===== *)
theory Spec2Isabelle
  imports Record_Layer Replay Reassembly Ack Hello Asn1 Transcript Key_Schedule Record_Protect X25519 Messages
begin

text \<open>
  A verification development for \<^verbatim>\<open>nano-dtls\<close>, a small DTLS 1.3 library in C.

  \<^bold>\<open>The program.\<close> A handshake exchanges hello messages with X25519 shares, derives traffic keys from the
  shared secret and the transcript of the messages, and then sends the server's certificate chain, a
  signature over the transcript and two Finished messages in protected records. The parts call each other
  upwards in this order:
  \<^item> framing: plaintext and unified record headers, handshake headers, fragments, ACKs, the replay window;
  \<^item> cryptography: SHA-256, HMAC, HKDF, ChaCha20, Poly1305, their AEAD, X25519, ECDSA verification on P-256;
  \<^item> the protection of records, from the AEAD and the unified header;
  \<^item> messages: the two hellos, EncryptedExtensions, Certificate, CertificateVerify, from a byte writer and
    reader; certificates and their chains, from a DER reader and ECDSA;
  \<^item> the transcript, the key schedule and the Finished messages, from SHA-256 and HKDF.

  \<^bold>\<open>The theories.\<close> Source files are below \<^verbatim>\<open>src/\<close> of the repository. Each definition keeps the name of the C
  function; a definition that stands for a loop or a block of a function is named in its theory.
  \<^item> \<open>Prelude\<close>: words for the C integers, \<^verbatim>\<open>nd_status\<close>, pointers, results, byte codecs, the streaming locales.
  \<^item> \<open>Record_Layer\<close>: \<^verbatim>\<open>record.c\<close>. Round trips of both headers, reconstruction of epoch and sequence number,
    and the connection-ID lengths at which the parser leaves the datagram.
  \<^item> \<open>Replay\<close>: \<^verbatim>\<open>replay.c\<close>. The bitmap refines the set of accepted numbers; no number is delivered twice, and
    records reordered by less than 64 are all delivered.
  \<^item> \<open>Handshake_Header\<close>, \<open>Reassembly\<close>, \<open>Ack\<close>: \<^verbatim>\<open>handshake/header.c\<close>, \<^verbatim>\<open>reassembly.c\<close>, \<^verbatim>\<open>ack.c\<close>. Round trips,
    reassembly in any order, and exactly when a copy leaves the arrays.
  \<^item> \<open>Bytes_IO\<close>, \<open>Hello\<close>, \<open>Messages\<close>: \<^verbatim>\<open>handshake/hello.c\<close>, \<^verbatim>\<open>handshake/messages.c\<close>. Serializers write the wire
    structure; parsers are determined on every well-formed message; a CertificateVerify message is accepted
    exactly when its signature satisfies the ECDSA equation.
  \<^item> \<open>Asn1\<close>, \<open>X509\<close>: \<^verbatim>\<open>x509/asn1.c\<close>, \<^verbatim>\<open>x509/x509.c\<close>. Elements lie inside the buffer; certificates in any definite-length
    encoding are read back; chains are accepted exactly when they are valid.
  \<^item> \<open>Sha256\<close>, \<open>Hmac\<close>, \<open>Hkdf\<close>, \<open>Transcript\<close>, \<open>Key_Schedule\<close>: the files of these names. Streaming equals FIPS 180-4 on the
    whole message; the expansion is that of RFC 5869 and the keys those of RFC 8446.
  \<^item> \<open>Chacha20\<close>, \<open>Poly1305\<close>, \<open>Aead\<close>, \<open>Record_Protect\<close>: limb arithmetic refines the polynomial modulo \<open>2\<^sup>1\<^sup>3\<^sup>0 - 5\<close>;
    decryption succeeds exactly on ciphertexts of encryption; streams of records are delivered, nonces are
    used once, and only records made with the key are accepted.
  \<^item> \<open>X25519\<close>: \<^verbatim>\<open>crypto/x25519.c\<close>. The limbs compute the ladder of RFC 7748 modulo \<open>2\<^sup>2\<^sup>5\<^sup>5 - 19\<close> and never overflow.
  \<^item> \<open>Bignum\<close>, \<open>P256\<close>: \<^verbatim>\<open>crypto/p256_internal.h\<close>, \<^verbatim>\<open>crypto/p256.c\<close>. Modular arithmetic is exact; points stay on the
    curve and are added by the chord and tangent rules; verification is the ECDSA equation.

  \<^bold>\<open>State and operations.\<close> A C struct is a record, an output pointer a returned value, a status a sum or a
  value of \<^verbatim>\<open>nd_status\<close>, and an operation on a struct returns the new struct with its status. A read or copy
  outside an object, and a call that does not return, is \<open>None\<close>. Objects that the code leaves
  uninitialised are arguments.

  \<^bold>\<open>Interfaces.\<close> The clients of a component rest on a locale that the component interprets: \<open>replay_filter\<close> by the
  bitmap window, \<open>streaming_hash\<close> (an instance of \<open>keyed_streaming\<close>) by SHA-256 for HMAC, HKDF and the transcript,
  \<open>keyed_streaming\<close> by Poly1305, \<open>aead_scheme\<close> by ChaCha20-Poly1305 for the records, and
  \<open>modular_arithmetic\<close> by the 256-bit integers modulo the field prime and modulo the group order.

  \<^bold>\<open>Loops and bounds.\<close> No definition uses fuel. Loops over a counter are folds, loops over a reader are
  functions that end because every read moves forward, the two loops of SHA-256 are \<open>while\<close> and are shown
  to end, and \<^verbatim>\<open>mod_reduce_once\<close>, whose loop ends only for a modulus other than 0, is a partial function with
  a theorem about its domain. Words keep their width wherever the code can wrap around; the limbs of
  X25519 are integers, with proved bounds far inside 64 bits. Lengths of objects are natural numbers, and
  \<^verbatim>\<open>size_t\<close> is a 64-bit word where a length comes from outside (DER lengths, connection-ID lengths).
  That the two moduli of P-256 are prime is not used: inverses are the powers the code computes.

  \<^bold>\<open>Not modelled.\<close> \<^verbatim>\<open>handshake/client.c\<close> and \<^verbatim>\<open>handshake/server.c\<close> order the modelled operations around blocking socket
  calls. \<^verbatim>\<open>transport/udp.c\<close> and \<^verbatim>\<open>random.c\<close> are calls of the operating system. The demo programs, the RTOS port
  (start-up code and device registers), the benchmarks, the fuzzers, the timing check and the tests are not
  part of the library. Constant time is a property of the machine code and is not expressed.
\<close>

end
